(* ===== verification/HM_Prelude.thy ===== *)
theory HM_Prelude
  imports Main "HOL-Library.Word"
begin

unbundle bit_operations_syntax

text \<open>
  Shared types and lemmas.  Bytes and 32-bit words are words of
  HOL-Library.Word; a C array of fixed small length is one of the datatypes
  arr2 and arr3; a C function that can leave its buffers, reject or exhaust a
  resource is a state passing program with an error value.
\<close>

section \<open>Machine types and small arrays\<close>

type_synonym byte = "8 word"
type_synonym u32 = "32 word"
type_synonym u64 = "64 word"

datatype 'a arr3 = Arr3 (at0: 'a) (at1: 'a) (at2: 'a)

datatype 'a arr2 = Arr2 (fst2: 'a) (snd2: 'a)

text \<open>Reading a three element array at an index that the callers keep below 3.\<close>

definition sel3 :: "'a arr3 \<Rightarrow> nat \<Rightarrow> 'a" where
  "sel3 a i = (if i = 0 then at0 a else if i = 1 then at1 a else at2 a)"

text \<open>The two parties a challenge opens: e and e + 1 modulo 3.\<close>

definition succ3 :: "nat \<Rightarrow> nat" where
  "succ3 e = (e + 1) mod 3"

definition opened :: "nat \<Rightarrow> 'a arr3 \<Rightarrow> 'a arr2" where
  "opened e a = Arr2 (sel3 a e) (sel3 a (succ3 e))"

lemma succ3_simps [simp]: "succ3 0 = 1" "succ3 (Suc 0) = 2" "succ3 1 = 2" "succ3 2 = 0" "succ3 (Suc (Suc 0)) = 0"
  "succ3 e < 3"
  by (simp_all add: succ3_def)

definition zip3 :: "('a \<Rightarrow> 'b \<Rightarrow> 'c) \<Rightarrow> 'a arr3 \<Rightarrow> 'b arr3 \<Rightarrow> 'c arr3" where
  "zip3 f a b = Arr3 (f (at0 a) (at0 b)) (f (at1 a) (at1 b)) (f (at2 a) (at2 b))"

definition zip2 :: "('a \<Rightarrow> 'b \<Rightarrow> 'c) \<Rightarrow> 'a arr2 \<Rightarrow> 'b arr2 \<Rightarrow> 'c arr2" where
  "zip2 f a b = Arr2 (f (fst2 a) (fst2 b)) (f (snd2 a) (snd2 b))"

text \<open>The value that three XOR shares stand for.\<close>

definition xor3 :: "'a::len word arr3 \<Rightarrow> 'a word" where
  "xor3 a = at0 a XOR at1 a XOR at2 a"

lemma sel3_map [simp]: "sel3 (map_arr3 f a) i = f (sel3 a i)"
  by (cases a) (simp add: sel3_def)

lemma opened_map [simp]: "opened e (map_arr3 f a) = map_arr2 f (opened e a)"
  by (simp add: opened_def)

lemma sel3_zip3 [simp]: "sel3 (zip3 f a b) i = f (sel3 a i) (sel3 b i)"
  by (simp add: sel3_def zip3_def)

lemma opened_zip3 [simp]: "opened e (zip3 f a b) = zip2 f (opened e a) (opened e b)"
  by (simp add: opened_def zip2_def)

lemma opened_same [simp]: "opened e (Arr3 k k k) = Arr2 k k"
  by (simp add: opened_def sel3_def)

lemma fst2_opened [simp]: "fst2 (opened e a) = sel3 a e"
  and snd2_opened [simp]: "snd2 (opened e a) = sel3 a (succ3 e)"
  by (simp_all add: opened_def)

lemma xor3_zip_xor [simp]: "xor3 (zip3 (XOR) a b) = xor3 a XOR xor3 b"
  by (simp add: xor3_def zip3_def ac_simps)

lemma xor3_same [simp]: "xor3 (Arr3 k k k) = k"
  by (simp add: xor3_def)

lemma challenge_cases: "e < 3 \<Longrightarrow> e = 0 \<or> e = 1 \<or> e = (2::nat)"
  by arith

lemma arr3_eqI: "(\<And>e. e < 3 \<Longrightarrow> sel3 a e = sel3 b e) \<Longrightarrow> a = b"
proof -
  assume h: "\<And>e. e < 3 \<Longrightarrow> sel3 a e = sel3 b e"
  from h[of 0] h[of 1] h[of 2] show "a = b"
    by (cases a; cases b) (simp add: sel3_def)
qed

text \<open>Three pairwise consistent openings come from one array.\<close>

lemma opened_glue:
  assumes "\<And>e. e < 3 \<Longrightarrow> snd2 (z e) = fst2 (z (succ3 e))"
  shows "\<exists>Z. \<forall>e<3. z e = opened e Z"
proof -
  let ?Z = "Arr3 (fst2 (z 0)) (fst2 (z 1)) (fst2 (z 2))"
  have "z e = opened e ?Z" if "e < 3" for e
    using challenge_cases[OF that] assms[of 0] assms[of 1] assms[of 2]
    by (cases "z e") (auto simp: opened_def sel3_def numeral_2_eq_2)
  then show ?thesis by blast
qed

section \<open>Programs with errors and state\<close>

text \<open>
  OutOfBounds is an access outside a buffer (undefined behaviour in C);
  Rejected is a verifier that returns -1; the other errors are failures of
  the environment that the code reports or aborts on.  BadFree is a free of a
  block that is not allocated.
\<close>

datatype fault = OutOfBounds | Rejected | BadInput | NoMemory | RandFailure | HashFailure
  | IOFailure | BadFree

type_synonym ('s, 'a) prog = "'s \<Rightarrow> fault + 'a \<times> 's"

definition ret :: "'a \<Rightarrow> ('s, 'a) prog" where
  "ret x = (\<lambda>s. Inr (x, s))"

definition bnd :: "('s, 'a) prog \<Rightarrow> ('a \<Rightarrow> ('s, 'b) prog) \<Rightarrow> ('s, 'b) prog" where
  "bnd m f = (\<lambda>s. case m s of Inl e \<Rightarrow> Inl e | Inr (x, t) \<Rightarrow> f x t)"

definition throw :: "fault \<Rightarrow> ('s, 'a) prog" where
  "throw e = (\<lambda>s. Inl e)"

text \<open>A for loop that carries the variables it assigns.\<close>

primrec loop :: "('i \<Rightarrow> 'a \<Rightarrow> ('s, 'a) prog) \<Rightarrow> 'i list \<Rightarrow> 'a \<Rightarrow> ('s, 'a) prog" where
  "loop f [] a = ret a"
| "loop f (i # is) a = bnd (f i a) (loop f is)"

lemma ret_run [simp]: "ret x s = Inr (x, s)"
  by (simp add: ret_def)

lemma throw_run [simp]: "throw e s = Inl e"
  by (simp add: throw_def)

lemma bnd_Inr_iff:
  "bnd m f s = Inr (y, u) \<longleftrightarrow> (\<exists>x t. m s = Inr (x, t) \<and> f x t = Inr (y, u))"
  by (auto simp: bnd_def split: sum.splits)

lemma bnd_run [simp]: "m s = Inr (x, t) \<Longrightarrow> bnd m f s = f x t"
  by (simp add: bnd_def)

lemma bnd_ret [simp]: "bnd (ret x) f = f x"
  by (simp add: bnd_def ret_def)

lemma bit_of_bool_word [simp]:
  "bit (of_bool P :: 'a::len word) i \<longleftrightarrow> P \<and> i = 0"
  by (auto simp: bit_1_iff)

section \<open>Ripple-carry addition\<close>

text \<open>
  A word c whose bits follow the carry recurrence of x + y turns the sum into
  an exclusive or; the lowest bit of c is the carry that enters the sum.
\<close>

definition maj1 :: "bool \<Rightarrow> bool \<Rightarrow> bool \<Rightarrow> bool" where
  "maj1 a b c \<longleftrightarrow> (a \<and> b) \<or> (a \<and> c) \<or> (b \<and> c)"

lemma maj1_xor: "maj1 a b c \<longleftrightarrow> (((a \<noteq> c) \<and> (b \<noteq> c)) \<noteq> c)"
  by (auto simp: maj1_def)

primrec carry :: "('a::len word \<Rightarrow> 'a word \<Rightarrow> bool \<Rightarrow> nat \<Rightarrow> bool)" where
  "carry x y b 0 = b"
| "carry x y b (Suc n) = maj1 (bit x n) (bit y n) (carry x y b n)"

lemma ripple_int:
  fixes x y z :: "'a::len word"
  assumes "\<And>i. i < n \<Longrightarrow> bit z i = ((bit x i \<noteq> bit y i) \<noteq> carry x y b i)"
  shows "take_bit n (uint x) + take_bit n (uint y) + of_bool b
       = take_bit n (uint z) + 2 ^ n * of_bool (carry x y b n)"
  using assms
proof (induction n)
  case 0
  then show ?case by simp
next
  case (Suc n)
  have b: "bit z n = ((bit x n \<noteq> bit y n) \<noteq> carry x y b n)"
    using Suc.prems[of n] by simp
  have IH: "take_bit n (uint x) + take_bit n (uint y) + of_bool b
       = take_bit n (uint z) + 2 ^ n * of_bool (carry x y b n)"
    by (rule Suc.IH) (simp add: Suc.prems)
  show ?case
    using IH b
    by (auto simp: take_bit_Suc_from_most bit_uint_iff maj1_def of_bool_def
        algebra_simps dest: bit_imp_le_length split: if_splits)
qed

lemma carry_bits:
  fixes x y c :: "'a::len word"
  assumes "\<And>i. Suc i < LENGTH('a) \<Longrightarrow> bit c (Suc i) = maj1 (bit x i) (bit y i) (bit c i)"
  shows "n < LENGTH('a) \<Longrightarrow> carry x y (bit c 0) n = bit c n"
  by (induction n) (simp_all add: assms)

lemma ripple_add:
  fixes x y c :: "'a::len word"
  assumes step: "\<And>i. Suc i < LENGTH('a) \<Longrightarrow> bit c (Suc i) = maj1 (bit x i) (bit y i) (bit c i)"
  shows "x XOR y XOR c = x + y + of_bool (bit c 0)"
proof -
  let ?z = "x XOR y XOR c" and ?L = "LENGTH('a)"
  have "take_bit ?L (uint x) + take_bit ?L (uint y) + of_bool (bit c 0)
      = take_bit ?L (uint ?z) + 2 ^ ?L * of_bool (carry x y (bit c 0) ?L)"
    by (rule ripple_int) (auto simp: carry_bits[OF step] bit_xor_iff)
  then have "uint x + uint y + of_bool (bit c 0)
      = uint ?z + 2 ^ ?L * of_bool (carry x y (bit c 0) ?L)"
    by (simp add: take_bit_int_eq_self)
  then have "word_of_int (uint x + uint y + of_bool (bit c 0))
      = (word_of_int (uint ?z + 2 ^ ?L * of_bool (carry x y (bit c 0) ?L)) :: 'a word)"
    by simp
  then show ?thesis
    by (simp add: word_of_int_2p_len split: if_splits)
qed

section \<open>Checked accesses and loops without state\<close>

definition rd :: "'a list \<Rightarrow> nat \<Rightarrow> fault + 'a" where
  "rd xs i = (if i < length xs then Inr (xs ! i) else Inl OutOfBounds)"

definition wr :: "'a list \<Rightarrow> nat \<Rightarrow> 'a \<Rightarrow> fault + 'a list" where
  "wr xs i v = (if i < length xs then Inr (xs[i := v]) else Inl OutOfBounds)"

definition sbind :: "fault + 'a \<Rightarrow> ('a \<Rightarrow> fault + 'b) \<Rightarrow> fault + 'b" where
  "sbind m f = (case m of Inl e \<Rightarrow> Inl e | Inr x \<Rightarrow> f x)"

primrec sloop :: "('i \<Rightarrow> 'a \<Rightarrow> fault + 'a) \<Rightarrow> 'i list \<Rightarrow> 'a \<Rightarrow> fault + 'a" where
  "sloop f [] a = Inr a"
| "sloop f (i # is) a = sbind (f i a) (sloop f is)"

lemma rd_ok [simp]: "i < length xs \<Longrightarrow> rd xs i = Inr (xs ! i)"
  by (simp add: rd_def)

lemma wr_ok [simp]: "i < length xs \<Longrightarrow> wr xs i v = Inr (xs[i := v])"
  by (simp add: wr_def)

lemma sbind_Inr [simp]: "sbind (Inr x) f = f x"
  by (simp add: sbind_def)

lemma sbind_Inl [simp]: "sbind (Inl e) f = Inl e"
  by (simp add: sbind_def)

lemma sbind_Inr_iff: "sbind m f = Inr y \<longleftrightarrow> (\<exists>x. m = Inr x \<and> f x = Inr y)"
  by (cases m) simp_all

lemma sbind_cong [fundef_cong]:
  "m = m' \<Longrightarrow> (\<And>x. m' = Inr x \<Longrightarrow> f x = f' x) \<Longrightarrow> sbind m f = sbind m' f'"
  by (cases m') simp_all

text \<open>A loop whose steps all succeed is a fold.\<close>

lemma sloop_fold:
  assumes "\<And>i a. i \<in> set is \<Longrightarrow> P a \<Longrightarrow> f i a = Inr (g a i) \<and> P (g a i)" and "P a"
  shows "sloop f is a = Inr (foldl g a is) \<and> P (foldl g a is)"
  using assms by (induction "is" arbitrary: a) simp_all

lemma sloop_all:
  assumes "\<And>i. i \<in> set is \<Longrightarrow> f i () = (if P i then Inr () else Inl e)"
  shows "sloop f is () = (if \<forall>i\<in>set is. P i then Inr () else Inl e)"
  using assms by (induction "is") auto

section \<open>Parity\<close>

text \<open>The sum modulo 2 of n truth values, and the parity of a word.\<close>

primrec xsum :: "(nat \<Rightarrow> bool) \<Rightarrow> nat \<Rightarrow> bool" where
  "xsum f 0 \<longleftrightarrow> False"
| "xsum f (Suc n) \<longleftrightarrow> (xsum f n \<noteq> f n)"

definition builtin_parity :: "u32 \<Rightarrow> u32" where
  "builtin_parity x = of_bool (odd (length (filter (bit x) [0..<32])))"

lemma xsum_add: "xsum f (m + n) \<longleftrightarrow> (xsum f m \<noteq> xsum (\<lambda>k. f (m + k)) n)"
  by (induction n) auto

lemma xsum_xor: "xsum (\<lambda>k. f k \<noteq> g k) n \<longleftrightarrow> (xsum f n \<noteq> xsum g n)"
  by (induction n) auto

lemma xsum_False [simp]: "\<not> xsum (\<lambda>k. False) n"
  by (induction n) simp_all

lemma xsum_cong [cong]: "n = m \<Longrightarrow> (\<And>k. k < m \<Longrightarrow> f k = g k) \<Longrightarrow> xsum f n = xsum g m"
proof -
  have "(\<And>k. k < m \<Longrightarrow> f k = g k) \<Longrightarrow> xsum f m = xsum g m" by (induction m) auto
  then show "n = m \<Longrightarrow> (\<And>k. k < m \<Longrightarrow> f k = g k) \<Longrightarrow> xsum f n = xsum g m" by simp
qed

lemma xsum_filter: "odd (length (filter f [0..<n])) \<longleftrightarrow> xsum f n"
  by (induction n) auto

lemma builtin_parity_xsum: "builtin_parity x = of_bool (xsum (bit x) 32)"
  by (simp only: builtin_parity_def xsum_filter)

lemma builtin_parity_xor: "builtin_parity (x XOR y) = builtin_parity x XOR builtin_parity y"
proof -
  have "xsum (bit (x XOR y)) 32 = xsum (\<lambda>k. bit x k \<noteq> bit y k) 32"
    by (rule xsum_cong) (auto simp: bit_xor_iff)
  also have "\<dots> = (xsum (bit x) 32 \<noteq> xsum (bit y) 32)" by (rule xsum_xor)
  finally show ?thesis by (simp add: builtin_parity_xsum)
qed

section \<open>Copies\<close>

text \<open>memcpy of src to the front of dst.\<close>

definition memcpy :: "'a list \<Rightarrow> 'a list \<Rightarrow> 'a list" where
  "memcpy dst src = src @ drop (length src) dst"

lemma length_memcpy [simp]: "length src \<le> length dst \<Longrightarrow> length (memcpy dst src) = length dst"
  by (simp add: memcpy_def)

lemma take_memcpy [simp]: "length src = n \<Longrightarrow> take n (memcpy dst src) = src"
  by (simp add: memcpy_def)

type_synonym digest_fn = "byte list \<Rightarrow> byte list"

end
