(* ===== verification/HM_Shared.thy ===== *)
theory HM_Shared
  imports HM_Prelude
begin

unbundle bit_operations_syntax

text \<open>
  src/hm_parameters.h and src/shared.h: the fixed parameters of the proof
  system, the structs of its transcript, the opening vector RVec and its two
  views (words and bytes), the bit macros and the byte order helpers.
\<close>

section \<open>Parameters\<close>

definition HM_BINDING_SECURITY_BITS :: nat where
  "HM_BINDING_SECURITY_BITS = 256"

definition NUM_ROUNDS :: nat where
  "NUM_ROUNDS = 136"

definition MSG_BITS :: nat where
  "MSG_BITS = 1"

definition MSG_WORDS :: nat where
  "MSG_WORDS = (MSG_BITS + 31) div 32"

definition MSG_BYTES :: nat where
  "MSG_BYTES = (MSG_BITS + 7) div 8"

definition L_BITS :: nat where
  "L_BITS = 4 * HM_BINDING_SECURITY_BITS + 2 * MSG_BITS + 4"

definition L_BYTES :: nat where
  "L_BYTES = (L_BITS + 7) div 8"

definition L_WORDS :: nat where
  "L_WORDS = (L_BITS + 31) div 32"

definition L_LAST_WORD_MASK :: u32 where
  "L_LAST_WORD_MASK = (if L_BITS mod 32 = 0 then 0xffffffff
     else word_of_nat (2 ^ (L_BITS mod 32) - 1))"

definition SHA256_DIGEST_LENGTH :: nat where
  "SHA256_DIGEST_LENGTH = 32"

definition SHA256_INPUT_BITS :: nat where
  "SHA256_INPUT_BITS = 8 * L_BYTES"

definition NUM_SHA256_BLOCKS :: nat where
  "NUM_SHA256_BLOCKS = (SHA256_INPUT_BITS + 1 + 64 + 511) div 512"

definition RAND_BYTES :: nat where
  "RAND_BYTES = 2912 * NUM_SHA256_BLOCKS"

definition SHA256_DIGEST_WORDS :: nat where
  "SHA256_DIGEST_WORDS = SHA256_DIGEST_LENGTH div 4"

definition ySize :: nat where
  "ySize = RAND_BYTES div 4"

definition A_ROWS :: nat where
  "A_ROWS = (MSG_BITS - 1 + 31) div 32"

definition A_WORDS :: nat where
  "A_WORDS = A_ROWS + L_WORDS + 1"

text \<open>The values the preprocessor computes.\<close>

lemma param_values:
  "MSG_BITS = 1" "MSG_WORDS = 1" "MSG_BYTES = 1" "L_BITS = 1030" "L_BYTES = 129"
  "L_WORDS = 33" "L_LAST_WORD_MASK = 0x3f" "SHA256_DIGEST_LENGTH = 32"
  "SHA256_INPUT_BITS = 1032" "NUM_SHA256_BLOCKS = 3" "RAND_BYTES = 8736"
  "SHA256_DIGEST_WORDS = 8" "ySize = 2184" "A_ROWS = 0" "A_WORDS = 34" "NUM_ROUNDS = 136"
  by (simp_all add: MSG_BITS_def MSG_WORDS_def MSG_BYTES_def L_BITS_def L_BYTES_def
      L_WORDS_def L_LAST_WORD_MASK_def SHA256_DIGEST_LENGTH_def SHA256_INPUT_BITS_def
      NUM_SHA256_BLOCKS_def RAND_BYTES_def SHA256_DIGEST_WORDS_def ySize_def A_ROWS_def
      A_WORDS_def NUM_ROUNDS_def HM_BINDING_SECURITY_BITS_def)

section \<open>Bit macros\<close>

definition RIGHTROTATE :: "u32 \<Rightarrow> nat \<Rightarrow> u32" where
  "RIGHTROTATE x n = drop_bit n x OR push_bit (32 - n) x"

definition GETBIT :: "'a::len word \<Rightarrow> nat \<Rightarrow> 'a word" where
  "GETBIT x i = drop_bit i x AND 1"

definition SETBIT :: "'a::len word \<Rightarrow> nat \<Rightarrow> 'a word \<Rightarrow> 'a word" where
  "SETBIT x i b = (x AND NOT (push_bit i 1)) OR push_bit i b"

lemma GETBIT_of_bool: "GETBIT x i = of_bool (bit x i)"
  by (rule bit_word_eqI) (auto simp: GETBIT_def bit_simps)

lemma bit_SETBIT:
  fixes x :: "'a::len word"
  assumes "j < LENGTH('a)"
  shows "bit (SETBIT x i (of_bool B)) j = (if j = i then B else bit x j)"
  using assms by (auto simp: SETBIT_def bit_simps)

lemma RIGHTROTATE_xor:
  "RIGHTROTATE (x XOR y) n = RIGHTROTATE x n XOR RIGHTROTATE y n" if "n \<le> 32"
  by (rule bit_word_eqI) (use that in \<open>auto simp: RIGHTROTATE_def bit_simps
      dest: bit_imp_le_length\<close>)

section \<open>Byte order\<close>

definition store_u32_be :: "u32 \<Rightarrow> byte list" where
  "store_u32_be src = [ucast (drop_bit 24 src), ucast (drop_bit 16 src),
     ucast (drop_bit 8 src), ucast src]"

definition store_u64_be :: "u64 \<Rightarrow> byte list" where
  "store_u64_be x = [ucast (drop_bit 56 x), ucast (drop_bit 48 x), ucast (drop_bit 40 x),
     ucast (drop_bit 32 x), ucast (drop_bit 24 x), ucast (drop_bit 16 x),
     ucast (drop_bit 8 x), ucast x]"

definition load_u32_be :: "byte list \<Rightarrow> u32" where
  "load_u32_be src = push_bit 24 (ucast (src ! 0)) OR push_bit 16 (ucast (src ! 1))
     OR push_bit 8 (ucast (src ! 2)) OR ucast (src ! 3)"

definition load_u32_le :: "byte list \<Rightarrow> u32" where
  "load_u32_le src = push_bit 24 (ucast (src ! 3)) OR push_bit 16 (ucast (src ! 2))
     OR push_bit 8 (ucast (src ! 1)) OR ucast (src ! 0)"

text \<open>The bytes of a word in the memory of a little-endian machine.\<close>

definition store_u32_le :: "u32 \<Rightarrow> byte list" where
  "store_u32_le w = [ucast w, ucast (drop_bit 8 w), ucast (drop_bit 16 w), ucast (drop_bit 24 w)]"

fun le_words :: "byte list \<Rightarrow> u32 list" where
  "le_words (a # b # c # d # bs) = load_u32_le [a, b, c, d] # le_words bs"
| "le_words _ = []"

definition le_bytes :: "u32 list \<Rightarrow> byte list" where
  "le_bytes ws = concat (map store_u32_le ws)"

lemma length_store [simp]:
  "length (store_u32_be w) = 4" "length (store_u64_be v) = 8" "length (store_u32_le w) = 4"
  by (simp_all add: store_u32_be_def store_u64_be_def store_u32_le_def)

lemma bit_load_u32_be:
  "n < 32 \<Longrightarrow> bit (load_u32_be s) n =
     (if n < 8 then bit (s ! 3) n else if n < 16 then bit (s ! 2) (n - 8)
      else if n < 24 then bit (s ! 1) (n - 16) else bit (s ! 0) (n - 24))"
  by (auto simp: load_u32_be_def bit_simps dest: bit_imp_le_length)

lemma bit_load_u32_le:
  "n < 32 \<Longrightarrow> bit (load_u32_le s) n =
     (if n < 8 then bit (s ! 0) n else if n < 16 then bit (s ! 1) (n - 8)
      else if n < 24 then bit (s ! 2) (n - 16) else bit (s ! 3) (n - 24))"
  by (auto simp: load_u32_le_def bit_simps dest: bit_imp_le_length)

lemma load_store_be: "load_u32_be (store_u32_be w) = w"
  by (rule bit_word_eqI) (auto simp: bit_load_u32_be store_u32_be_def bit_simps)

lemma load_store_le: "load_u32_le (store_u32_le w) = w"
  by (rule bit_word_eqI) (auto simp: bit_load_u32_le store_u32_le_def bit_simps)

lemma store_load_be: "length s = 4 \<Longrightarrow> store_u32_be (load_u32_be s) = s"
  by (rule nth_equalityI)
     (auto simp: less_Suc_eq numeral_eq_Suc store_u32_be_def bit_simps bit_load_u32_be
       intro!: bit_word_eqI)

lemma store_load_le: "length s = 4 \<Longrightarrow> store_u32_le (load_u32_le s) = s"
  by (rule nth_equalityI)
     (auto simp: less_Suc_eq numeral_eq_Suc store_u32_le_def bit_simps bit_load_u32_le
       intro!: bit_word_eqI)

lemma le_words_Cons: "length s = 4 \<Longrightarrow> le_words (s @ bs) = load_u32_le s # le_words bs"
  by (auto simp: length_Suc_conv numeral_eq_Suc)

lemma le_words_bytes [simp]: "le_words (le_bytes ws) = ws"
  by (induction ws) (simp_all add: le_bytes_def le_words_Cons load_store_le)

lemma length_le_bytes [simp]: "length (le_bytes ws) = 4 * length ws"
  by (induction ws) (simp_all add: le_bytes_def)

lemma length_le_words [simp]: "length (le_words bs) = length bs div 4"
  by (induction bs rule: le_words.induct) simp_all

lemma le_bytes_words: "length bs = 4 * n \<Longrightarrow> le_bytes (le_words bs) = bs"
proof (induction n arbitrary: bs)
  case 0
  then show ?case by (simp add: le_bytes_def)
next
  case (Suc n)
  then obtain s cs where bs: "bs = s @ cs" and s: "length s = 4" and cs: "length cs = 4 * n"
    by (metis append_take_drop_id length_drop length_take add_diff_cancel_left' min.absorb2
        mult_Suc_right le_add1)
  show ?case
    using Suc.IH[OF cs] by (simp add: bs le_words_Cons s le_bytes_def store_load_le)
qed

section \<open>The opening vector\<close>

record RVec =
  words :: "u32 list"

definition rvec_bytes :: "RVec \<Rightarrow> byte list" where
  "rvec_bytes r = le_bytes (words r)"

definition rvec_mask_last_word :: "RVec \<Rightarrow> RVec" where
  "rvec_mask_last_word r = r\<lparr>words := (words r)[L_WORDS - 1 :=
     words r ! (L_WORDS - 1) AND L_LAST_WORD_MASK]\<rparr>"

definition rvec_clear_padding :: "RVec \<Rightarrow> RVec" where
  "rvec_clear_padding r = (if L_BYTES < 4 * L_WORDS
     then r\<lparr>words := le_words (take L_BYTES (rvec_bytes r) @ replicate (4 * L_WORDS - L_BYTES) 0)\<rparr>
     else r)"

definition rvec_normalize :: "RVec \<Rightarrow> RVec" where
  "rvec_normalize r = rvec_clear_padding (rvec_mask_last_word r)"

definition rvec_from_bytes :: "byte list \<Rightarrow> RVec" where
  "rvec_from_bytes src = rvec_normalize
     \<lparr>words = le_words (take L_BYTES src @ replicate (4 * L_WORDS - L_BYTES) 0)\<rparr>"

section \<open>Transcript types\<close>

record View =
  view_x :: RVec
  view_msg :: "byte list"
  view_y :: "u32 list"

record ZkBooCommit =
  a_yp :: "u32 list arr2"
  a_y2p :: "u32 arr3 list"
  a_h :: "byte list arr3"

text \<open>The pointers ve and ve1 may be NULL.\<close>

record ZkBooOpen =
  z_ke :: "byte list"
  z_ke1 :: "byte list"
  z_ve :: "View option"
  z_ve1 :: "View option"
  z_re :: "byte list"
  z_re1 :: "byte list"

record UniversalHash =
  keyA :: "byte list"
  uh_A :: "u32 list"
  uh_b :: "byte list"

end
