(* ===== verification/Universal_Hash.thy ===== *)
theory Universal_Hash
  imports HM_Shared
begin

unbundle bit_operations_syntax

text \<open>
  src/toeplitz_internal.h and src/universal_hash.c: the Toeplitz hash of the
  plain scheme.  The code works on windows of 32 diagonal bits; the reference
  works on single bits, with the entry of row i and column k of the matrix at
  diagonal position n - 1 - i + k.  Every read of an array is checked, so the
  lemmas also say which lengths keep the code inside its buffers.
\<close>

section \<open>The code\<close>

definition toeplitz_load_window32 :: "u32 list \<Rightarrow> nat \<Rightarrow> nat \<Rightarrow> fault + u32" where
  "toeplitz_load_window32 A idx rShift =
    sbind (rd A (idx + 1)) (\<lambda>hi. sbind (rd A idx) (\<lambda>lo.
      let lane = push_bit 32 (ucast hi :: u64) OR ucast lo
      in Inr (ucast (drop_bit rShift lane))))"

definition row_product :: "u32 list \<Rightarrow> u32 list \<Rightarrow> nat \<Rightarrow> nat \<Rightarrow> fault + byte" where
  "row_product A r_words l_words row_start =
    (let shift = row_start mod 32; base = row_start div 32 in
     sbind (sloop (\<lambda>j acc. sbind (toeplitz_load_window32 A (base + j) shift) (\<lambda>w.
              sbind (rd r_words j) (\<lambda>r. Inr (acc XOR (w AND r))))) [0..<l_words] 0)
       (\<lambda>acc. Inr (ucast (builtin_parity acc))))"

definition bit_at :: "byte list \<Rightarrow> nat \<Rightarrow> fault + byte" where
  "bit_at bytes i = sbind (rd bytes (i div 8)) (\<lambda>v. Inr (drop_bit (i mod 8) v AND 1))"

definition universal_hash_compute_b :: "byte list \<Rightarrow> u32 list \<Rightarrow> u32 list \<Rightarrow> nat \<Rightarrow> byte list \<Rightarrow> nat \<Rightarrow>
    fault + byte list" where
  "universal_hash_compute_b b A r_words l_words message n =
    (if length b < (n + 7) div 8 then Inl OutOfBounds
     else sloop (\<lambda>i b.
        sbind (row_product A r_words l_words (n - 1 - i)) (\<lambda>p.
        sbind (bit_at message i) (\<lambda>m. let bit = p XOR m in
        sbind (rd b (i div 8)) (\<lambda>v. wr b (i div 8) (v OR push_bit (i mod 8) bit)))))
       [0..<n] (memcpy b (replicate ((n + 7) div 8) 0)))"

definition universal_hash_verify_message :: "byte list \<Rightarrow> nat \<Rightarrow> byte list \<Rightarrow> u32 list \<Rightarrow> u32 list \<Rightarrow>
    nat \<Rightarrow> fault + unit" where
  "universal_hash_verify_message message n b A r_words l_words =
    sloop (\<lambda>i _.
      sbind (row_product A r_words l_words (n - 1 - i)) (\<lambda>p.
      sbind (bit_at b i) (\<lambda>v. let recovered = p XOR v in
      sbind (bit_at message i) (\<lambda>m.
        if recovered \<noteq> m then Inl Rejected else Inr ())))) [0..<n] ()"

section \<open>The reference\<close>

definition wbit :: "u32 list \<Rightarrow> nat \<Rightarrow> bool" where
  "wbit ws n = bit (ws ! (n div 32)) (n mod 32)"

definition bbit :: "byte list \<Rightarrow> nat \<Rightarrow> bool" where
  "bbit bs n = bit (bs ! (n div 8)) (n mod 8)"

definition toeplitz :: "nat \<Rightarrow> u32 list \<Rightarrow> nat \<Rightarrow> nat \<Rightarrow> bool" where
  "toeplitz n A i k = wbit A (n - 1 - i + k)"

text \<open>Row i of the matrix times the vector r, over GF(2).\<close>

definition hash_bit :: "nat \<Rightarrow> u32 list \<Rightarrow> u32 list \<Rightarrow> nat \<Rightarrow> nat \<Rightarrow> bool" where
  "hash_bit n A r l i = xsum (\<lambda>k. toeplitz n A i k \<and> wbit r k) (32 * l)"

section \<open>The windows are the bits\<close>

lemma load_window:
  assumes "idx + 1 < length A"
  shows "toeplitz_load_window32 A idx s = Inr (ucast (drop_bit s
     (push_bit 32 (ucast (A ! (idx + 1)) :: u64) OR ucast (A ! idx))))"
  using assms by (simp add: toeplitz_load_window32_def Let_def)

lemma bit_window:
  fixes A :: "u32 list"
  assumes "s < 32" and "k < 32"
  shows "bit (ucast (drop_bit s (push_bit 32 (ucast (A ! (idx + 1)) :: u64) OR ucast (A ! idx))) :: u32) k
     = wbit A (32 * idx + s + k)"
proof (cases "s + k < 32")
  case True
  then have "(32 * idx + s + k) div 32 = idx" "(32 * idx + s + k) mod 32 = s + k"
    by (simp_all add: add.assoc)
  with True assms show ?thesis by (simp add: wbit_def bit_simps)
next
  case False
  then have "32 * idx + s + k = 32 * (idx + 1) + (s + k - 32)" "s + k - 32 < 32"
    using assms by simp_all
  then have "(32 * idx + s + k) div 32 = idx + 1" "(32 * idx + s + k) mod 32 = s + k - 32"
    by (metis div_mult_self4 div_less add_0_right zero_neq_numeral,
        metis mod_mult_self4 mod_less)
  with False assms show ?thesis by (auto simp: wbit_def bit_simps dest: bit_imp_le_length)
qed

lemma xsum_words:
  fixes W :: "nat \<Rightarrow> u32"
  assumes "\<And>j k. j < l \<Longrightarrow> k < 32 \<Longrightarrow> bit (W j) k = f (32 * j + k)"
  shows "xsum (bit (foldl (\<lambda>acc j. acc XOR W j) 0 [0..<l])) 32 = xsum f (32 * l)"
  using assms
proof (induction l)
  case 0
  show ?case by (simp add: bit_0_eq bot_fun_def)
next
  case (Suc l)
  let ?a = "foldl (\<lambda>acc j. acc XOR W j) 0 [0..<l]"
  have "xsum (bit (?a XOR W l)) 32 = xsum (\<lambda>k. bit ?a k \<noteq> bit (W l) k) 32"
    by (rule xsum_cong) (auto simp: bit_xor_iff)
  also have "\<dots> = (xsum (bit ?a) 32 \<noteq> xsum (bit (W l)) 32)" by (rule xsum_xor)
  also have "xsum (bit (W l)) 32 = xsum (\<lambda>k. f (32 * l + k)) 32"
    by (rule xsum_cong) (simp_all add: Suc.prems)
  also have "xsum (bit ?a) 32 = xsum f (32 * l)" using Suc by simp
  finally have "xsum (bit (?a XOR W l)) 32 = xsum f (32 * l + 32)" by (simp only: xsum_add)
  then show ?case by (simp add: add.commute)
qed

lemma row_product_spec:
  assumes "row_start div 32 + l < length A" and "l \<le> length r"
  shows "row_product A r l row_start =
     Inr (of_bool (xsum (\<lambda>k. wbit A (row_start + k) \<and> wbit r k) (32 * l)))"
proof -
  let ?s = "row_start mod 32" and ?b = "row_start div 32"
  define W where "W j = (ucast (drop_bit ?s (push_bit 32 (ucast (A ! (?b + j + 1)) :: u64)
      OR ucast (A ! (?b + j)))) AND r ! j :: u32)" for j
  have "sloop (\<lambda>j acc. sbind (toeplitz_load_window32 A (?b + j) ?s) (\<lambda>w.
      sbind (rd r j) (\<lambda>r. Inr (acc XOR (w AND r))))) [0..<l] 0
    = Inr (foldl (\<lambda>acc j. acc XOR W j) 0 [0..<l]) \<and> True"
    by (rule sloop_fold) (use assms in \<open>simp_all add: load_window W_def\<close>)
  moreover have "xsum (bit (foldl (\<lambda>acc j. acc XOR W j) 0 [0..<l])) 32
      = xsum (\<lambda>k. wbit A (row_start + k) \<and> wbit r k) (32 * l)"
  proof (rule xsum_words)
    fix j k :: nat assume "j < l" "k < 32"
    have "32 * (?b + j) + ?s + k = row_start + (32 * j + k)"
      using mult_div_mod_eq[of 32 row_start] by (simp add: algebra_simps)
    then show "bit (W j) k = (wbit A (row_start + (32 * j + k)) \<and> wbit r (32 * j + k))"
      using \<open>k < 32\<close> bit_window[of ?s k A "?b + j"]
      by (simp add: W_def bit_and_iff wbit_def[of r] add.assoc)
  qed
  ultimately show ?thesis
    by (simp add: row_product_def Let_def builtin_parity_xsum)
qed

text \<open>Rows of the matrix that a padded diagonal array of the right size holds.\<close>

definition diagonal_ok :: "nat \<Rightarrow> nat \<Rightarrow> u32 list \<Rightarrow> bool" where
  "diagonal_ok n l A \<longleftrightarrow> (n - 1) div 32 + l + 1 \<le> length A"

lemma row_product_row:
  assumes "diagonal_ok n l A" and "l \<le> length r" and "i < n"
  shows "row_product A r l (n - 1 - i) = Inr (of_bool (hash_bit n A r l i))"
    and "row_product A r l (n - Suc i) = Inr (of_bool (hash_bit n A r l i))"
proof -
  have "(n - 1 - i) div 32 \<le> (n - 1) div 32" by (rule div_le_mono) simp
  then have "(n - 1 - i) div 32 + l < length A" using assms(1) by (simp add: diagonal_ok_def)
  from row_product_spec[OF this assms(2)]
  show "row_product A r l (n - 1 - i) = Inr (of_bool (hash_bit n A r l i))"
    by (simp add: hash_bit_def toeplitz_def)
  then show "row_product A r l (n - Suc i) = Inr (of_bool (hash_bit n A r l i))" by simp
qed

lemma bit_at_bbit: "i div 8 < length bs \<Longrightarrow> bit_at bs i = Inr (of_bool (bbit bs i))"
  using GETBIT_of_bool[of "bs ! (i div 8)" "i mod 8"] by (simp add: bit_at_def bbit_def GETBIT_def)

lemma byte_index: "i < (n::nat) \<Longrightarrow> i div 8 < (n + 7) div 8"
  by (simp add: less_eq_Suc_le div_le_mono)

lemma bits_fit: "i < n \<Longrightarrow> i < 8 * ((n + 7) div 8)" for i n :: nat
  using byte_index[of i n] by (simp add: div_less_iff_less_mult mult.commute)

lemma bytes_eqI:
  assumes "length a = length b" and "\<And>i. i < 8 * length a \<Longrightarrow> bbit a i = bbit b i"
  shows "a = b"
proof (rule nth_equalityI[OF assms(1)])
  fix k assume "k < length a"
  then have "bbit a (8 * k + j) = bbit b (8 * k + j)" if "j < 8" for j
    using assms(2)[of "8 * k + j"] that by simp
  then show "a ! k = b ! k"
    by (intro bit_word_eqI) (simp add: bbit_def)
qed

lemma bbit_update:
  assumes "i div 8 < length b"
  shows "bbit (b[i div 8 := b ! (i div 8) OR push_bit (i mod 8) (of_bool v)]) j
     = (if j = i then bbit b i \<or> v else bbit b j)"
proof (cases "j div 8 = i div 8")
  case True
  then have "j mod 8 = i mod 8 \<longleftrightarrow> j = i" by (metis div_mult_mod_eq)
  then show ?thesis using True assms by (auto simp: bbit_def bit_simps)
qed (auto simp: bbit_def)

lemma of_bool_xor: "of_bool P XOR of_bool Q = (of_bool (P \<noteq> Q) :: 'a::len word)"
  by (cases P; cases Q; simp)

lemma compute_b_loop:
  assumes A: "diagonal_ok n l A" "l \<le> length r" and m: "(n + 7) div 8 \<le> length message"
    and b: "(n + 7) div 8 \<le> length b" and "j \<le> n"
  shows "\<exists>b'. sloop (\<lambda>i b. sbind (row_product A r l (n - 1 - i)) (\<lambda>p.
        sbind (bit_at message i) (\<lambda>m. let bit = p XOR m in
        sbind (rd b (i div 8)) (\<lambda>v. wr b (i div 8) (v OR push_bit (i mod 8) bit)))))
       [0..<j] (memcpy b (replicate ((n + 7) div 8) 0)) = Inr b' \<and> length b' = length b \<and>
     drop ((n + 7) div 8) b' = drop ((n + 7) div 8) b \<and>
     (\<forall>i<8 * ((n + 7) div 8). bbit b' i = (i < j \<and> (hash_bit n A r l i \<noteq> bbit message i)))"
proof -
  let ?k = "(n + 7) div 8"
  let ?f = "\<lambda>i b. sbind (row_product A r l (n - 1 - i)) (\<lambda>p.
        sbind (bit_at message i) (\<lambda>m. let bit = p XOR m in
        sbind (rd b (i div 8)) (\<lambda>v. wr b (i div 8) (v OR push_bit (i mod 8) bit))))"
  let ?g = "\<lambda>b i. b[i div 8 := b ! (i div 8) OR push_bit (i mod 8)
        (of_bool (hash_bit n A r l i \<noteq> bbit message i))]"
  let ?b0 = "memcpy b (replicate ?k 0)"
  have idx: "i div 8 < length b" "i div 8 < length message" "i div 8 < ?k" if "i < n" for i
    using byte_index[OF that] b m by simp_all
  have step: "sloop ?f [0..<j] ?b0 = Inr (foldl ?g ?b0 [0..<j]) \<and> length (foldl ?g ?b0 [0..<j]) = length b"
    by (rule sloop_fold)
       (use assms(5) idx b in \<open>simp_all add: row_product_row[OF A] bit_at_bbit of_bool_xor Let_def\<close>)
  have "drop ?k (foldl ?g ?b0 [0..<j]) = drop ?k b \<and> length (foldl ?g ?b0 [0..<j]) = length b \<and>
     (\<forall>i<8 * ?k. bbit (foldl ?g ?b0 [0..<j]) i = (i < j \<and> (hash_bit n A r l i \<noteq> bbit message i)))"
    using \<open>j \<le> n\<close>
  proof (induction j)
    case 0
    have "i div 8 < ?k" if "i < 8 * ?k" for i using that by (simp add: less_mult_imp_div_less)
    then show ?case using b by (simp add: memcpy_def bbit_def nth_append)
  next
    case (Suc j)
    then show ?case using idx[of j] by (auto simp: bbit_update less_Suc_eq)
  qed
  with step show ?thesis by blast
qed

lemma compute_b_spec:
  assumes "diagonal_ok n l A" "l \<le> length r" "(n + 7) div 8 \<le> length message"
    and "(n + 7) div 8 \<le> length b"
  obtains b' where "universal_hash_compute_b b A r l message n = Inr b'" "length b' = length b"
    "drop ((n + 7) div 8) b' = drop ((n + 7) div 8) b"
    "\<And>i. i < 8 * ((n + 7) div 8) \<Longrightarrow> bbit b' i = (i < n \<and> (hash_bit n A r l i \<noteq> bbit message i))"
  using compute_b_loop[OF assms order_refl] assms(4) that
  by (auto simp: universal_hash_compute_b_def)

lemma verify_message_spec:
  assumes "diagonal_ok n l A" "l \<le> length r" "(n + 7) div 8 \<le> length message"
    and "(n + 7) div 8 \<le> length b"
  shows "universal_hash_verify_message message n b A r l =
     (if \<forall>i<n. (hash_bit n A r l i \<noteq> bbit b i) = bbit message i then Inr () else Inl Rejected)"
proof -
  have "i div 8 < length message" "i div 8 < length b" if "i < n" for i
    using byte_index[OF that] assms(3,4) by simp_all
  then have "universal_hash_verify_message message n b A r l =
     (if \<forall>i\<in>set [0..<n]. (hash_bit n A r l i \<noteq> bbit b i) = bbit message i
      then Inr () else Inl Rejected)"
    unfolding universal_hash_verify_message_def
    by (intro sloop_all) (simp add: row_product_row[OF assms(1,2)] bit_at_bbit of_bool_xor Let_def
        of_bool_eq_iff)
  then show ?thesis by simp
qed

section \<open>Properties\<close>

text \<open>C34: universal_hash_compute_b stays inside its buffers and writes exactly the masked message:
  bit i of the first n bits of b is row i of the Toeplitz matrix times r, plus bit i of the
  message; the remaining bits of the last byte are cleared and the bytes behind them are kept.\<close>

theorem universal_hash_compute_b_correct:
  assumes "diagonal_ok n l A" and "l \<le> length r" and "(n + 7) div 8 \<le> length message"
    and "(n + 7) div 8 \<le> length b"
  shows "\<exists>b'. universal_hash_compute_b b A r l message n = Inr b' \<and> length b' = length b \<and>
     drop ((n + 7) div 8) b' = drop ((n + 7) div 8) b \<and>
     (\<forall>i<8 * ((n + 7) div 8). bbit b' i = (i < n \<and>
        (xsum (\<lambda>k. wbit A (n - 1 - i + k) \<and> wbit r k) (32 * l) \<noteq> bbit message i)))"
  by (rule compute_b_spec[OF assms]) (auto simp: hash_bit_def toeplitz_def)

lemma universal_hash_compute_b_correct_witness:
  "\<exists>b'. universal_hash_compute_b [9, 8] [0xFF00FF00, 3] [5] 1 [1] 2 = Inr b' \<and> length b' = 2 \<and>
     drop 1 b' = [8] \<and> (\<forall>i<8. bbit b' i = (i < 2 \<and>
        (xsum (\<lambda>k. wbit [0xFF00FF00, 3] (2 - 1 - i + k) \<and> wbit [5] k) 32 \<noteq> bbit [1] i)))"
  using universal_hash_compute_b_correct[of 2 1 "[0xFF00FF00, 3]" "[5]" "[1]" "[9, 8]"]
  by (simp add: diagonal_ok_def numeral_2_eq_2)

text \<open>universal_hash_verify_message inverts universal_hash_compute_b: on the masked message
  that the latter writes for m it accepts m' exactly when m and m' agree in their first n bits.\<close>

theorem universal_hash_roundtrip:
  assumes "diagonal_ok n l A" and "l \<le> length r" and "(n + 7) div 8 \<le> length m"
    and "(n + 7) div 8 \<le> length m'" and "(n + 7) div 8 \<le> length b"
    and "universal_hash_compute_b b A r l m n = Inr b'"
  shows "universal_hash_verify_message m' n b' A r l =
     (if \<forall>i<n. bbit m' i = bbit m i then Inr () else Inl Rejected)"
proof (rule compute_b_spec[OF assms(1,2,3,5)])
  fix c assume "universal_hash_compute_b b A r l m n = Inr c" and c: "length c = length b"
    "\<And>i. i < 8 * ((n + 7) div 8) \<Longrightarrow> bbit c i = (i < n \<and> (hash_bit n A r l i \<noteq> bbit m i))"
  then have "c = b'" using assms(6) by simp
  have "n \<le> 8 * ((n + 7) div 8)"
    using div_mult_mod_eq[of "n + 7" 8] mod_less_divisor[of 8 "n + 7"] by linarith
  then have "\<forall>i<n. bbit b' i = (hash_bit n A r l i \<noteq> bbit m i)"
    using c(2) \<open>c = b'\<close> by auto
  then have "(\<forall>i<n. (hash_bit n A r l i \<noteq> bbit b' i) = bbit m' i) = (\<forall>i<n. bbit m' i = bbit m i)"
    by auto
  then show ?thesis
    using verify_message_spec[OF assms(1,2,4), of b'] assms(5) c(1) \<open>c = b'\<close> by simp
qed

lemma universal_hash_roundtrip_witness:
  "\<exists>b'. universal_hash_compute_b [9] [0xFF00FF00, 3] [5] 1 [1] 2 = Inr b' \<and>
     universal_hash_verify_message [1] 2 b' [0xFF00FF00, 3] [5] 1 = Inr () \<and>
     universal_hash_verify_message [2] 2 b' [0xFF00FF00, 3] [5] 1 = Inl Rejected"
proof -
  obtain b' where b: "universal_hash_compute_b [9] [0xFF00FF00, 3] [5] 1 [1] 2 = Inr b'"
    by (rule compute_b_spec[of 2 1 "[0xFF00FF00, 3]" "[5]" "[1]" "[9]"]) (simp_all add: diagonal_ok_def)
  have "\<not> (\<forall>i<2. bbit [2] i = bbit [1] i)" by (auto simp: bbit_def intro!: exI[of _ 0])
  then show ?thesis
    using b universal_hash_roundtrip[of 2 1 "[0xFF00FF00, 3]" "[5]" "[1]" "[1]" "[9]" b']
      universal_hash_roundtrip[of 2 1 "[0xFF00FF00, 3]" "[5]" "[1]" "[2]" "[9]" b']
    by (auto simp: diagonal_ok_def)
qed

end
