(* ===== verification/HM_Heap.thy ===== *)
theory HM_Heap
  imports HM_Prelude "HOL-Library.Multiset"
begin

text \<open>
  The allocator as the code sees it: malloc, calloc, OPENSSL\_zalloc and
  EVP\_MD\_CTX\_new return a new block or NULL, free and its OpenSSL variants
  accept NULL and fault on a block that is not allocated.  The heap records
  only which blocks are allocated; contents travel in the values that own them.
  src/hm\_buffer.c, the byte buffers handed to the caller, is at the end.
\<close>

section \<open>Blocks\<close>

text \<open>may\_alloc n says whether the n-th request of the run succeeds.\<close>

record heap =
  live :: "nat list"
  requests :: nat
  may_alloc :: "nat \<Rightarrow> bool"

definition malloc :: "(heap, nat option) prog" where
  "malloc = (\<lambda>h. let n = requests h in
     if may_alloc h n then Inr (Some n, h\<lparr>live := n # live h, requests := n + 1\<rparr>)
     else Inr (None, h\<lparr>requests := n + 1\<rparr>))"

definition free_block :: "nat option \<Rightarrow> (heap, unit) prog" where
  "free_block p = (\<lambda>h. case p of None \<Rightarrow> Inr ((), h)
     | Some b \<Rightarrow> if b \<in> set (live h) then Inr ((), h\<lparr>live := remove1 b (live h)\<rparr>) else Inl BadFree)"

definition heap_ok :: "heap \<Rightarrow> bool" where
  "heap_ok h \<longleftrightarrow> distinct (live h) \<and> (\<forall>b\<in>set (live h). b < requests h)"

definition blocks :: "nat option list \<Rightarrow> nat set" where
  "blocks ps = {b. Some b \<in> set ps}"

text \<open>The blocks ps are distinct and allocated; they are all that h has beyond base.\<close>

definition owns :: "heap \<Rightarrow> nat set \<Rightarrow> nat option list \<Rightarrow> bool" where
  "owns h base ps \<longleftrightarrow> heap_ok h \<and> set (live h) = base \<union> blocks ps \<and> base \<inter> blocks ps = {}
     \<and> distinct (filter (\<lambda>p. p \<noteq> None) ps)"

lemma blocks_simps [simp]:
  "blocks [] = {}" "blocks (None # ps) = blocks ps" "blocks (Some b # ps) = insert b (blocks ps)"
  "blocks (ps @ qs) = blocks ps \<union> blocks qs"
  by (auto simp: blocks_def)

lemma owns_malloc:
  assumes "owns h base ps"
  obtains p h' where "malloc h = Inr (p, h')" "owns h' base (p # ps)"
    "may_alloc h' = may_alloc h"
proof (cases "may_alloc h (requests h)")
  case True
  have "requests h \<notin> set (live h)" using assms by (auto simp: owns_def heap_ok_def)
  then have "owns (h\<lparr>live := requests h # live h, requests := requests h + 1\<rparr>) base (Some (requests h) # ps)"
    using assms by (auto simp: owns_def heap_ok_def blocks_def intro: less_SucI)
  from that[OF _ this] True show ?thesis by (simp add: malloc_def Let_def)
next
  case False
  have "owns (h\<lparr>requests := requests h + 1\<rparr>) base (None # ps)"
    using assms by (auto simp: owns_def heap_ok_def intro: less_SucI)
  from that[OF _ this] False show ?thesis by (simp add: malloc_def Let_def)
qed

lemma owns_free:
  assumes "owns h base (p # ps)"
  obtains h' where "free_block p h = Inr ((), h')" "owns h' base ps" "may_alloc h' = may_alloc h"
proof (cases p)
  case None
  with assms that show ?thesis by (auto simp: free_block_def owns_def)
next
  case (Some b)
  let ?h = "h\<lparr>live := remove1 b (live h)\<rparr>"
  have "b \<in> set (live h)" "b \<notin> blocks ps" "b \<notin> base" "distinct (live h)"
    using assms Some by (auto simp: owns_def heap_ok_def blocks_def)
  then have "free_block p h = Inr ((), ?h)" "set (live ?h) = base \<union> blocks ps"
    using assms by (auto simp: free_block_def Some owns_def)
  moreover have "owns ?h base ps"
    using assms \<open>set (live ?h) = base \<union> blocks ps\<close> Some
    by (auto simp: owns_def heap_ok_def dest: notin_set_remove1 set_remove1_subset[THEN subsetD])
  ultimately show ?thesis using that by simp
qed

lemma owns_perm: "mset ps = mset qs \<Longrightarrow> owns h base ps \<Longrightarrow> owns h base qs"
proof -
  assume m: "mset ps = mset qs" and o: "owns h base ps"
  have "set ps = set qs" using m by (metis set_mset_mset)
  moreover have "mset (filter (\<lambda>p. p \<noteq> None) ps) = mset (filter (\<lambda>p. p \<noteq> None) qs)"
    using m by simp
  ultimately show "owns h base qs"
    using o unfolding owns_def blocks_def by (metis mset_eq_imp_distinct_iff)
qed

text \<open>Freeing a list of pointers.\<close>

primrec free_all :: "nat option list \<Rightarrow> (heap, unit) prog" where
  "free_all [] = ret ()"
| "free_all (p # ps) = bnd (free_block p) (\<lambda>_. free_all ps)"

lemma free_all_owns:
  assumes "owns h base (ps @ qs)"
  obtains h' where "free_all ps h = Inr ((), h')" "owns h' base qs" "may_alloc h' = may_alloc h"
  using assms
proof (induction ps arbitrary: h thesis)
  case Nil
  then show ?case by simp
next
  case (Cons p ps)
  from Cons.prems(2) obtain h1 where "free_block p h = Inr ((), h1)" "owns h1 base (ps @ qs)"
    "may_alloc h1 = may_alloc h" by (auto elim: owns_free)
  with Cons show ?case by (metis bnd_run free_all.simps(2))
qed

lemma owns_Nil: "owns h base [] \<longleftrightarrow> heap_ok h \<and> set (live h) = base"
  by (auto simp: owns_def)

lemma malloc_fails: "malloc h = Inr (None, h') \<Longrightarrow> \<exists>k. \<not> may_alloc h k"
  by (auto simp: malloc_def Let_def split: if_splits)

text \<open>Owned blocks can be set aside: for a program that does not know them they belong to the base.\<close>

lemma owns_aside: "owns h base ps \<Longrightarrow> owns h (base \<union> blocks ps) []"
  by (simp add: owns_def)

lemma owns_back:
  assumes "owns h base ps" and "owns h' (base \<union> blocks ps) qs"
  shows "owns h' base (qs @ ps)"
proof -
  have "distinct (filter (\<lambda>p. p \<noteq> None) qs)" "distinct (filter (\<lambda>p. p \<noteq> None) ps)"
    "blocks ps \<inter> blocks qs = {}" using assms by (auto simp: owns_def)
  then have "distinct (filter (\<lambda>p. p \<noteq> None) (qs @ ps))" by (auto simp: blocks_def)
  then show ?thesis using assms by (auto simp: owns_def)
qed

section \<open>Buffers for the caller\<close>

text \<open>hm\_buffer\_t: the pointer data, the bytes it points to, and len.\<close>

record hm_buffer_t =
  buf_data :: "nat option"
  buf_bytes :: "byte list"
  buf_len :: nat

definition hm_buffer_free :: "hm_buffer_t option \<Rightarrow> (heap, hm_buffer_t option) prog" where
  "hm_buffer_free buf = (case buf of None \<Rightarrow> ret None
     | Some b \<Rightarrow> bnd (free_block (buf_data b)) (\<lambda>_.
         ret (Some (b\<lparr>buf_data := None, buf_bytes := [], buf_len := 0\<rparr>))))"

text \<open>The result is the buffer and the return code.\<close>

definition hm_buffer_copy :: "hm_buffer_t option \<Rightarrow> byte list option \<Rightarrow> nat \<Rightarrow>
    (heap, hm_buffer_t option \<times> int) prog" where
  "hm_buffer_copy out src src_len =
    (case out of None \<Rightarrow> ret (None, -1) | Some b \<Rightarrow>
     if src = None \<and> src_len \<noteq> 0 then ret (Some b, -1) else
     let b = b\<lparr>buf_data := None, buf_bytes := [], buf_len := 0\<rparr> in
     if src_len = 0 then ret (Some b, 0) else
     bnd malloc (\<lambda>p. case p of None \<Rightarrow> ret (Some b, -1)
       | Some q \<Rightarrow> (case src of None \<Rightarrow> throw OutOfBounds | Some bs \<Rightarrow>
           if length bs < src_len then throw OutOfBounds
           else ret (Some (b\<lparr>buf_data := Some q, buf_bytes := take src_len bs,
                             buf_len := src_len\<rparr>), 0))))"

lemma hm_buffer_copy_run:
  assumes "owns h base []" and "src_len \<le> length bs" and "0 < src_len"
  obtains b' h' rc where "hm_buffer_copy (Some b) (Some bs) src_len h = Inr ((Some b', rc), h')"
    "owns h' base [buf_data b']" "may_alloc h' = may_alloc h"
    "rc = 0 \<Longrightarrow> buf_data b' \<noteq> None \<and> buf_bytes b' = take src_len bs \<and> buf_len b' = src_len"
    "rc \<noteq> 0 \<Longrightarrow> rc = -1 \<and> buf_data b' = None \<and> buf_len b' = 0"
proof -
  from assms(1) obtain p h1 where m: "malloc h = Inr (p, h1)" "owns h1 base [p]"
    "may_alloc h1 = may_alloc h" by (auto elim: owns_malloc)
  show ?thesis
  proof (cases p)
    case None
    with m assms(2,3) show ?thesis
      by (intro that[of "b\<lparr>buf_data := None, buf_bytes := [], buf_len := 0\<rparr>" "-1" h1])
         (auto simp: hm_buffer_copy_def)
  next
    case (Some q)
    with m assms(2,3) show ?thesis
      by (intro that[of "b\<lparr>buf_data := Some q, buf_bytes := take src_len bs, buf_len := src_len\<rparr>" 0 h1])
         (auto simp: hm_buffer_copy_def)
  qed
qed

lemma hm_buffer_free_run:
  assumes "owns h base (buf_data b # ps)"
  obtains h' where "hm_buffer_free (Some b) h =
      Inr (Some (b\<lparr>buf_data := None, buf_bytes := [], buf_len := 0\<rparr>), h')"
    "owns h' base ps" "may_alloc h' = may_alloc h"
proof -
  from assms obtain h1 where "free_block (buf_data b) h = Inr ((), h1)" "owns h1 base ps"
    "may_alloc h1 = may_alloc h" by (auto elim: owns_free)
  with that show ?thesis by (simp add: hm_buffer_free_def)
qed

end
