(* ===== verification/HM_Plain.thy ===== *)
theory HM_Plain
  imports Universal_Hash HM_Heap
begin

unbundle bit_operations_syntax

text \<open>
  src/hm_plain.c: the plain Halevi-Micali commitment.  A context owns the
  Toeplitz diagonal A and the scratch vector r\_words, both word arrays that
  the code also accesses as bytes.  RAND\_bytes and OpenSSL's SHA256 are
  parameters: rand n is Inr with the n bytes drawn, or Inl when the call fails,
  with the n bytes that it then leaves in the buffer; sha is the digest or None.
  A pointer that may be NULL is an option; the length of a buffer is its
  capacity.
\<close>

type_synonym rand_bytes = "nat \<Rightarrow> byte list + byte list"

section \<open>Sizes\<close>

definition MAX_MSG_BITLEN :: nat where
  "MAX_MSG_BITLEN = 10000000"

record HmCommitLayout =
  message_byte_len :: nat
  l_bits :: nat
  opening_len :: nat
  l_words :: nat
  toeplitz_matrix_bit_len :: nat
  toeplitz_matrix_len :: nat
  toeplitz_matrix_words :: nat
  commitment_len :: nat

definition ceil_div_size :: "nat \<Rightarrow> nat \<Rightarrow> nat" where
  "ceil_div_size v d = v div d + (if v mod d \<noteq> 0 then 1 else 0)"

definition compute_sizes :: "nat \<Rightarrow> HmCommitLayout option" where
  "compute_sizes n =
    (if n = 0 \<or> n > MAX_MSG_BITLEN then None
     else let mbl = ceil_div_size n 8;
              lb = 4 * HM_BINDING_SECURITY_BITS + 2 * n + 4;
              lw = ceil_div_size lb 32;
              tb = lb + n - 1;
              max_base_word = (n - 1) div 32
       in Some \<lparr>message_byte_len = mbl, l_bits = lb, opening_len = ceil_div_size lb 8,
            l_words = lw, toeplitz_matrix_bit_len = tb,
            toeplitz_matrix_len = ceil_div_size tb 8,
            toeplitz_matrix_words = max_base_word + lw + 1,
            commitment_len = mbl + SHA256_DIGEST_LENGTH\<rparr>)"

definition last_byte_mask :: "nat \<Rightarrow> byte" where
  "last_byte_mask bit_len = (let used_bits = bit_len mod 8 in
     if used_bits = 0 then 0xFF else ucast (push_bit used_bits 1 - 1 :: u32))"

record hm_commit_sizes_t =
  out_commitment_len :: nat
  out_opening_len :: nat
  out_toeplitz_matrix_len :: nat

text \<open>The result is the structure behind sizes\_out and the return code.\<close>

definition hm_commit_get_sizes :: "nat \<Rightarrow> hm_commit_sizes_t option \<Rightarrow> hm_commit_sizes_t option \<times> int" where
  "hm_commit_get_sizes n sizes_out =
    (case sizes_out of None \<Rightarrow> (None, -1) | Some _ \<Rightarrow>
      (case compute_sizes n of
         None \<Rightarrow> (Some \<lparr>out_commitment_len = 0, out_opening_len = 0, out_toeplitz_matrix_len = 0\<rparr>, -1)
       | Some L \<Rightarrow> (Some \<lparr>out_commitment_len = commitment_len L, out_opening_len = opening_len L,
            out_toeplitz_matrix_len = toeplitz_matrix_len L\<rparr>, 0)))"

section \<open>Contexts\<close>

record hm_context_t =
  message_bit_len :: nat
  layout :: HmCommitLayout
  ctx_A :: "u32 list"
  ctx_r_words :: "u32 list"
  ctx_block :: "nat option"
  A_block :: "nat option"
  r_block :: "nat option"

definition hm_context_free :: "hm_context_t option \<Rightarrow> (heap, unit) prog" where
  "hm_context_free ctx = (case ctx of None \<Rightarrow> ret ()
     | Some c \<Rightarrow>
         bnd (if r_block c \<noteq> None then free_block (r_block c) else ret ()) (\<lambda>_.
         bnd (free_block (A_block c)) (\<lambda>_. free_block (ctx_block c))))"

text \<open>ctx\_out says whether the output pointer is not NULL; the result is *ctx\_out and the code.\<close>

definition context_allocate :: "nat \<Rightarrow> bool \<Rightarrow> (heap, hm_context_t option \<times> int) prog" where
  "context_allocate n ctx_out =
    (if \<not> ctx_out then ret (None, -1) else
     case compute_sizes n of None \<Rightarrow> ret (None, -1) | Some L \<Rightarrow>
     bnd malloc (\<lambda>p. case p of None \<Rightarrow> ret (None, -1) | Some c \<Rightarrow>
     bnd malloc (\<lambda>a. bnd malloc (\<lambda>r.
       let ctx = \<lparr>message_bit_len = n, layout = L,
             ctx_A = replicate (toeplitz_matrix_words L) 0, ctx_r_words = replicate (l_words L) 0,
             ctx_block = Some c, A_block = a, r_block = r\<rparr>
       in if a = None \<or> r = None then bnd (hm_context_free (Some ctx)) (\<lambda>_. ret (None, -1))
          else ret (Some ctx, 0)))))"

definition hm_context_create :: "rand_bytes \<Rightarrow> nat \<Rightarrow> bool \<Rightarrow>
    (heap, hm_context_t option \<times> int) prog" where
  "hm_context_create rand n ctx_out =
    bnd (context_allocate n ctx_out) (\<lambda>(ctx, rc).
      case ctx of None \<Rightarrow> ret (None, -1) | Some c \<Rightarrow>
      if rc \<noteq> 0 then ret (Some c, -1) else
      let L = layout c in
      (case rand (toeplitz_matrix_len L) of
         Inl _ \<Rightarrow> bnd (hm_context_free (Some c)) (\<lambda>_. ret (None, -1))
       | Inr bytes \<Rightarrow>
          let matrix = memcpy (le_bytes (ctx_A c)) bytes;
              last = toeplitz_matrix_len L - 1;
              matrix = matrix[last := matrix ! last AND last_byte_mask (toeplitz_matrix_bit_len L)]
          in ret (Some (c\<lparr>ctx_A := le_words matrix\<rparr>), 0)))"

definition hm_context_from_matrix :: "nat \<Rightarrow> byte list option \<Rightarrow> bool \<Rightarrow>
    (heap, hm_context_t option \<times> int) prog" where
  "hm_context_from_matrix n matrix ctx_out =
    (if \<not> ctx_out then ret (None, -1) else
     case matrix of None \<Rightarrow> ret (None, -1) | Some m \<Rightarrow>
     (case compute_sizes n of None \<Rightarrow> ret (None, -1) | Some L \<Rightarrow>
      if length m \<noteq> toeplitz_matrix_len L then ret (None, -1) else
      if m ! (length m - 1) AND NOT (last_byte_mask (toeplitz_matrix_bit_len L)) \<noteq> 0
      then ret (None, -1) else
      bnd (context_allocate n ctx_out) (\<lambda>(ctx, rc).
        case ctx of None \<Rightarrow> ret (None, -1) | Some c \<Rightarrow>
        if rc \<noteq> 0 then ret (Some c, -1)
        else ret (Some (c\<lparr>ctx_A := le_words (memcpy (le_bytes (ctx_A c)) m)\<rparr>), 0))))"

definition hm_context_export_matrix :: "hm_context_t option \<Rightarrow> byte list option \<Rightarrow> fault + byte list" where
  "hm_context_export_matrix ctx matrix_out =
    (case (ctx, matrix_out) of
       (Some c, Some out) \<Rightarrow>
         if length out < toeplitz_matrix_len (layout c) then Inl BadInput
         else Inr (memcpy out (take (toeplitz_matrix_len (layout c)) (le_bytes (ctx_A c))))
     | _ \<Rightarrow> Inl BadInput)"

section \<open>Commit and verify\<close>

text \<open>The result is the two output buffers or the failure, and the context afterwards.\<close>

definition hm_commit :: "(byte list \<Rightarrow> byte list option) \<Rightarrow> rand_bytes \<Rightarrow>
    hm_context_t option \<Rightarrow> byte list option \<Rightarrow> byte list option \<Rightarrow> byte list option \<Rightarrow>
    (fault + byte list \<times> byte list) \<times> hm_context_t option" where
  "hm_commit sha rand ctx message commitment opening =
    (case (ctx, message, commitment, opening) of
       (Some c, Some m, Some cm, Some op) \<Rightarrow>
         let L = layout c in
         if length cm < commitment_len L \<or> length op < opening_len L
         then (Inl BadInput, Some c) else
         (case rand (opening_len L) of
            Inl left \<Rightarrow> (Inl RandFailure, Some (c\<lparr>ctx_r_words := le_words (memcpy (le_bytes (ctx_r_words c)) left)\<rparr>))
          | Inr bytes \<Rightarrow>
            let r = memcpy (le_bytes (ctx_r_words c)) bytes;
                last = opening_len L - 1;
                r = r[last := r ! last AND last_byte_mask (l_bits L)];
                c = c\<lparr>ctx_r_words := le_words r\<rparr>;
                op = memcpy op (take (opening_len L) r)
            in (case universal_hash_compute_b cm (ctx_A c) (ctx_r_words c) (l_words L) m
                       (message_bit_len c) of Inl f \<Rightarrow> (Inl f, Some c)
                | Inr cm \<Rightarrow>
                  (case sha (take (opening_len L) r) of None \<Rightarrow> (Inl HashFailure, Some c)
                   | Some d \<Rightarrow>
                     (Inr (take (message_byte_len L) cm @ memcpy (drop (message_byte_len L) cm) d, op),
                      Some c))))
     | _ \<Rightarrow> (Inl BadInput, ctx))"

definition hm_verify :: "(byte list \<Rightarrow> byte list option) \<Rightarrow> hm_context_t option \<Rightarrow> byte list option \<Rightarrow>
    byte list option \<Rightarrow> byte list option \<Rightarrow> (fault + unit) \<times> hm_context_t option" where
  "hm_verify sha ctx message commitment opening =
    (case (ctx, message, commitment, opening) of
       (Some c, Some m, Some cm, Some op) \<Rightarrow>
         let L = layout c in
         if length cm \<noteq> commitment_len L \<or> length op \<noteq> opening_len L
         then (Inl BadInput, Some c) else
         if op ! (length op - 1) AND NOT (last_byte_mask (l_bits L)) \<noteq> 0
            \<or> cm ! (message_byte_len L - 1) AND NOT (last_byte_mask (message_bit_len c)) \<noteq> 0
         then (Inl BadInput, Some c) else
         (case sha op of None \<Rightarrow> (Inl HashFailure, Some c)
          | Some digest \<Rightarrow>
            if take SHA256_DIGEST_LENGTH (drop (message_byte_len L) cm) \<noteq> digest
            then (Inl Rejected, Some c) else
            let c = c\<lparr>ctx_r_words := le_words (memcpy (le_bytes (ctx_r_words c)) op)\<rparr>
            in (universal_hash_verify_message m (message_bit_len c) cm (ctx_A c) (ctx_r_words c)
                  (l_words L), Some c))
     | _ \<Rightarrow> (Inl BadInput, ctx))"

end
