(* ===== verification/HM_Plain_Correct.thy ===== *)
theory HM_Plain_Correct
  imports HM_Plain
begin

unbundle bit_operations_syntax

text \<open>
  Correctness of src/hm\_plain.c.  A context is valid when its arrays have the
  sizes of its layout and are zero beyond the bits in use; hm\_relation is the
  bit-level relation between message, commitment and opening that hm\_verify
  decides and hm\_commit establishes.
\<close>

section \<open>Bytes and words as bits\<close>

lemma nth_le_bytes:
  "i < 4 * length ws \<Longrightarrow> le_bytes ws ! i = store_u32_le (ws ! (i div 4)) ! (i mod 4)"
proof (induction ws arbitrary: i)
  case (Cons w ws)
  show ?case
  proof (cases "i < 4")
    case True
    then show ?thesis by (simp add: le_bytes_def nth_append)
  next
    case False
    then have "i - 4 < 4 * length ws" "(i - 4) div 4 = i div 4 - 1" "(i - 4) mod 4 = i mod 4"
      "0 < i div 4"
      using Cons.prems by (simp_all add: le_div_geq le_mod_geq)
    with Cons.IH[of "i - 4"] False show ?thesis
      by (simp add: le_bytes_def nth_append nth_Cons')
  qed
qed simp

lemma bit_store_u32_le:
  assumes "m < 4" and "j < 8"
  shows "bit (store_u32_le w ! m) j = bit w (8 * m + j)"
proof -
  have "m = 0 \<or> m = 1 \<or> m = 2 \<or> m = 3" using assms(1) by arith
  then show ?thesis using assms(2) by (auto simp: store_u32_le_def bit_simps add.commute)
qed

lemma bbit_le_bytes:
  assumes "i < 32 * length ws"
  shows "bbit (le_bytes ws) i = wbit ws i"
proof -
  have 1: "i div 8 < 4 * length ws" using assms by (simp add: less_mult_imp_div_less mult.commute)
  have 2: "i div 8 div 4 = i div 32" by (simp add: div_mult2_eq[symmetric])
  have 3: "8 * (i div 8 mod 4) + i mod 8 = i mod 32"
    using mod_mult2_eq[of i 8 4] by simp
  show ?thesis
    using nth_le_bytes[OF 1] bit_store_u32_le[of "i div 8 mod 4" "i mod 8" "ws ! (i div 32)"] 2 3
    by (simp add: bbit_def wbit_def)
qed

lemma wbit_le_words:
  assumes "length bs = 4 * k" and "i < 8 * length bs"
  shows "wbit (le_words bs) i = bbit bs i"
  using bbit_le_bytes[of i "le_words bs"] assms by (simp add: le_bytes_words)

lemma bbit_memcpy:
  assumes "length src \<le> length dst"
  shows "bbit (memcpy dst src) i = (if i < 8 * length src then bbit src i else bbit dst i)"
proof (cases "i < 8 * length src")
  case True
  then have "i div 8 < length src" by (simp add: less_mult_imp_div_less mult.commute)
  then show ?thesis using True by (simp add: memcpy_def bbit_def nth_append)
next
  case False
  then have "length src \<le> i div 8" by (simp add: div_le_mono[of "8 * length src" i 8, simplified])
  then show ?thesis using False assms by (simp add: memcpy_def bbit_def nth_append)
qed

lemma bbit_take: "i < 8 * k \<Longrightarrow> bbit (take k bs) i = bbit bs i"
  by (simp add: bbit_def less_mult_imp_div_less mult.commute)

lemma bbit_append: "i < 8 * length a \<Longrightarrow> bbit (a @ b) i = bbit a i"
  by (simp add: bbit_def nth_append less_mult_imp_div_less mult.commute)

section \<open>The last byte of a bit string\<close>

lemma ceil_split: "0 < d \<Longrightarrow> (n + (d - 1)) div d = n div d + (if n mod d = 0 then 0 else 1)" for n d :: nat
proof -
  assume d: "0 < d"
  have "n + (d - 1) = d * (n div d) + (n mod d + (d - 1))" by simp
  then have "(n + (d - 1)) div d = n div d + (n mod d + (d - 1)) div d"
    using d by (metis div_mult_self4 add.commute less_numeral_extra(3))
  moreover have "(n mod d + (d - 1)) div d = (if n mod d = 0 then 0 else 1)"
    using d mod_less_divisor[OF d, of n] by (auto simp: div_nat_eqI)
  ultimately show ?thesis by simp
qed

lemma ceil_div_size_8: "ceil_div_size n 8 = (n + 7) div 8"
  and ceil_div_size_32: "ceil_div_size n 32 = (n + 31) div 32"
  using ceil_split[of 8 n] ceil_split[of 32 n] by (simp_all add: ceil_div_size_def)

lemma bit_last_byte_mask:
  assumes "j < 8"
  shows "bit (last_byte_mask n) j \<longleftrightarrow> n mod 8 = 0 \<or> j < n mod 8"
proof -
  have m: "push_bit u 1 - 1 = (mask u :: u32)" for u
    by (simp add: mask_eq_exp_minus_1 push_bit_eq_mult)
  have f: "0xFF = (mask 8 :: byte)" by (simp add: mask_eq_exp_minus_1)
  show ?thesis unfolding last_byte_mask_def Let_def m f using assms by (auto simp: bit_simps)
qed

text \<open>A byte string is canonical for n bits when it has their length and no other bit set.\<close>

definition canonical :: "nat \<Rightarrow> byte list \<Rightarrow> bool" where
  "canonical n bs \<longleftrightarrow> length bs = (n + 7) div 8 \<and> (\<forall>i<8 * length bs. n \<le> i \<longrightarrow> \<not> bbit bs i)"

lemma last_byte_bits:
  assumes "0 < n" and "j < 8"
  shows "bit (last_byte_mask n) j \<longleftrightarrow> 8 * ((n + 7) div 8 - 1) + j < n"
proof -
  have c: "(n + 7) div 8 = n div 8 + (if n mod 8 = 0 then 0 else 1)" using ceil_split[of 8 n] by simp
  have n: "8 * (n div 8) + n mod 8 = n" by simp
  show ?thesis
  proof (cases "n mod 8 = 0")
    case True
    then have "8 * ((n + 7) div 8 - 1) + 8 = n" using n assms(1) c by auto
    then have "8 * ((n + 7) div 8 - 1) + j < n" using assms(2) by linarith
    with True show ?thesis by (simp add: bit_last_byte_mask[OF assms(2)])
  next
    case False
    then have "8 * ((n + 7) div 8 - 1) + n mod 8 = n" using n c by auto
    with False assms(2) show ?thesis by (auto simp only: bit_last_byte_mask[OF assms(2)])
  qed
qed

text \<open>A bit beyond n lies in the last byte.\<close>

lemma last_byte_index:
  assumes "i < 8 * ((n + 7) div 8)" and "n \<le> i" and "0 < (n::nat)"
  shows "i div 8 = (n + 7) div 8 - 1" and "8 * ((n + 7) div 8 - 1) + i mod 8 = i"
proof -
  have "i div 8 < (n + 7) div 8" using assms(1) by (simp add: less_mult_imp_div_less mult.commute)
  moreover have "n div 8 \<le> i div 8" using assms(2) by (rule div_le_mono)
  moreover have "(n + 7) div 8 \<le> n div 8 + 1" using ceil_split[of 8 n] by simp
  ultimately show d: "i div 8 = (n + 7) div 8 - 1" by simp
  show "8 * ((n + 7) div 8 - 1) + i mod 8 = i" unfolding d[symmetric] by simp
qed

lemma last_byte_canonical:
  assumes "0 < n" and "length bs = (n + 7) div 8"
  shows "bs ! (length bs - 1) AND NOT (last_byte_mask n) = 0 \<longleftrightarrow> canonical n bs"
proof -
  let ?l = "(n + 7) div 8"
  have l: "0 < ?l" using assms(1) by simp
  have "bs ! (?l - 1) AND NOT (last_byte_mask n) = 0 \<longleftrightarrow>
      (\<forall>j<8. \<not> (bit (bs ! (?l - 1)) j \<and> \<not> bit (last_byte_mask n) j))"
    by (auto simp: bit_eq_iff bit_and_iff bit_not_iff)
  also have "\<dots> \<longleftrightarrow> (\<forall>i<8 * ?l. n \<le> i \<longrightarrow> \<not> bbit bs i)"
  proof (intro iffI allI impI)
    fix i assume h: "\<forall>j<8. \<not> (bit (bs ! (?l - 1)) j \<and> \<not> bit (last_byte_mask n) j)"
      and i: "i < 8 * ?l" "n \<le> i"
    have "\<not> bit (last_byte_mask n) (i mod 8)"
      using last_byte_bits[OF assms(1), of "i mod 8"] last_byte_index(2)[OF i assms(1)] i(2) by simp
    moreover have "i mod 8 < 8" by simp
    ultimately show "\<not> bbit bs i" using h unfolding bbit_def last_byte_index(1)[OF i assms(1)] by blast
  next
    fix j :: nat assume h: "\<forall>i<8 * ?l. n \<le> i \<longrightarrow> \<not> bbit bs i" and j: "j < 8"
    have "8 * (?l - 1) + j < 8 * ?l" using j l by simp
    then have "n \<le> 8 * (?l - 1) + j \<Longrightarrow> \<not> bit (bs ! (?l - 1)) j"
      using h j by (metis bbit_def div_mult_self4 div_less add_0_right mod_mult_self4 mod_less
          zero_neq_numeral)
    then show "\<not> (bit (bs ! (?l - 1)) j \<and> \<not> bit (last_byte_mask n) j)"
      using last_byte_bits[OF assms(1) j] by auto
  qed
  finally show ?thesis using assms(2) by (simp add: canonical_def)
qed

lemma last_byte_masked:
  assumes "0 < n" and "(n + 7) div 8 \<le> length bs" and "i < 8 * ((n + 7) div 8)"
  shows "bbit (bs[(n + 7) div 8 - 1 := bs ! ((n + 7) div 8 - 1) AND last_byte_mask n]) i
     \<longleftrightarrow> i < n \<and> bbit bs i"
proof (cases "i div 8 = (n + 7) div 8 - 1")
  case True
  then have "8 * ((n + 7) div 8 - 1) + i mod 8 = i" using div_mult_mod_eq[of i 8] by simp
  moreover have "(n + 7) div 8 - 1 < length bs" using assms(1,2) by simp
  ultimately show ?thesis
    using True last_byte_bits[OF assms(1), of "i mod 8"] by (auto simp: bbit_def bit_and_iff)
next
  case False
  then have "i < n" using last_byte_index(1)[OF assms(3)] assms(1) by fastforce
  with False show ?thesis by (simp add: bbit_def)
qed

section \<open>Layouts\<close>

lemma compute_sizesD:
  assumes "compute_sizes n = Some L"
  shows "0 < n" "n \<le> MAX_MSG_BITLEN" "message_byte_len L = (n + 7) div 8" "l_bits L = 2 * n + 1028"
    "opening_len L = (l_bits L + 7) div 8" "l_words L = (l_bits L + 31) div 32"
    "toeplitz_matrix_bit_len L = 3 * n + 1027"
    "toeplitz_matrix_len L = (toeplitz_matrix_bit_len L + 7) div 8"
    "toeplitz_matrix_words L = (n - 1) div 32 + l_words L + 1"
    "commitment_len L = message_byte_len L + 32"
  using assms by (auto simp: compute_sizes_def Let_def ceil_div_size_8 ceil_div_size_32
      HM_BINDING_SECURITY_BITS_def SHA256_DIGEST_LENGTH_def split: if_splits)

lemma bits_in_words: "(b + 7) div 8 \<le> 4 * w" if "b \<le> 32 * w" for b w :: nat
proof -
  have "(b + 7) div 8 \<le> (4 * w * 8 + 7) div 8" using that by (intro div_le_mono) simp
  also have "\<dots> = 4 * w" by simp
  finally show ?thesis .
qed

lemma layout_fits:
  assumes "compute_sizes n = Some L"
  shows "opening_len L \<le> 4 * l_words L" "toeplitz_matrix_len L \<le> 4 * toeplitz_matrix_words L"
    "0 < opening_len L" "0 < message_byte_len L" "0 < toeplitz_matrix_len L"
    "length A = toeplitz_matrix_words L \<Longrightarrow> diagonal_ok n (l_words L) A"
    "message_byte_len L \<le> commitment_len L"
proof -
  note d = compute_sizesD[OF assms]
  have lw: "l_bits L \<le> 32 * l_words L"
    using div_mult_mod_eq[of "l_bits L + 31" 32] mod_less_divisor[of 32 "l_bits L + 31"] d(6)
    by linarith
  then show "opening_len L \<le> 4 * l_words L" unfolding d(5) by (rule bits_in_words)
  have "n - 1 \<le> 32 * ((n - 1) div 32) + 31"
    using div_mult_mod_eq[of "n - 1" 32] mod_less_divisor[of 32 "n - 1"] by linarith
  then have "toeplitz_matrix_bit_len L \<le> 32 * toeplitz_matrix_words L"
    using lw d(1,4,7,9) by simp
  then show "toeplitz_matrix_len L \<le> 4 * toeplitz_matrix_words L"
    unfolding d(8) by (rule bits_in_words)
  show "0 < opening_len L" "0 < message_byte_len L" "0 < toeplitz_matrix_len L"
    using d(1) by (simp_all add: d(3,4,5,7,8) div_greater_zero_iff)
  show "diagonal_ok n (l_words L) A" if "length A = toeplitz_matrix_words L"
    using that by (simp add: diagonal_ok_def d(9))
  show "message_byte_len L \<le> commitment_len L" by (simp add: d(10))
qed

section \<open>Word arrays that hold a byte string\<close>

definition pad_words :: "nat \<Rightarrow> byte list \<Rightarrow> u32 list" where
  "pad_words w bs = le_words (bs @ replicate (4 * w - length bs) 0)"

lemma length_pad_words [simp]: "length bs \<le> 4 * w \<Longrightarrow> length (pad_words w bs) = w"
  by (simp add: pad_words_def)

lemma le_bytes_pad_words:
  "length bs \<le> 4 * w \<Longrightarrow> le_bytes (pad_words w bs) = bs @ replicate (4 * w - length bs) 0"
  unfolding pad_words_def by (rule le_bytes_words[of _ w]) simp

lemma take_pad_words [simp]:
  "length bs \<le> 4 * w \<Longrightarrow> length bs = k \<Longrightarrow> take k (le_bytes (pad_words w bs)) = bs"
  by (simp add: le_bytes_pad_words)

lemma memcpy_pad_words:
  assumes "length bs \<le> 4 * w" and "length cs = length bs"
  shows "memcpy (le_bytes (pad_words w bs)) cs = cs @ replicate (4 * w - length cs) 0"
  using assms by (simp add: memcpy_def le_bytes_pad_words)

lemma zero_words: "replicate w 0 = pad_words w (replicate k 0)" if "k \<le> 4 * w"
proof -
  have "store_u32_le 0 = replicate 4 0" by (simp add: store_u32_le_def numeral_eq_Suc)
  then have "le_bytes (replicate w 0) = replicate (4 * w) 0"
    by (induction w) (simp_all add: le_bytes_def replicate_add[symmetric])
  then have "le_words (replicate (4 * w) 0) = replicate w 0" by (metis le_words_bytes)
  then show ?thesis using that by (simp add: pad_words_def replicate_add[symmetric])
qed

definition mask_bytes :: "nat \<Rightarrow> byte list \<Rightarrow> byte list" where
  "mask_bytes n bs = bs[(n + 7) div 8 - 1 := bs ! ((n + 7) div 8 - 1) AND last_byte_mask n]"

lemma canonical_mask_bytes:
  "0 < n \<Longrightarrow> length bs = (n + 7) div 8 \<Longrightarrow> canonical n (mask_bytes n bs)"
  unfolding canonical_def mask_bytes_def by (simp add: last_byte_masked del: One_nat_def)

lemma mask_append:
  assumes "length cs = (n + 7) div 8" and "0 < n"
  shows "(cs @ ds)[(n + 7) div 8 - 1 := (cs @ ds) ! ((n + 7) div 8 - 1) AND last_byte_mask n]
     = mask_bytes n cs @ ds"
proof -
  have "(n + 7) div 8 - 1 < length cs" using assms by simp
  then show ?thesis by (simp add: mask_bytes_def nth_append list_update_append)
qed

lemma length_mask_bytes [simp]: "length (mask_bytes n bs) = length bs"
  by (simp add: mask_bytes_def)

lemma canonical_zero: "canonical n (replicate ((n + 7) div 8) 0)"
  by (simp add: canonical_def bbit_def less_mult_imp_div_less mult.commute)

section \<open>Valid contexts\<close>

definition holds :: "u32 list \<Rightarrow> nat \<Rightarrow> nat \<Rightarrow> byte list \<Rightarrow> bool" where
  "holds ws w n bs \<longleftrightarrow> canonical n bs \<and> length bs \<le> 4 * w \<and> ws = pad_words w bs"

definition valid_ctx :: "hm_context_t \<Rightarrow> bool" where
  "valid_ctx c \<longleftrightarrow> (let L = layout c in
     compute_sizes (message_bit_len c) = Some L \<and>
     (\<exists>M. holds (ctx_A c) (toeplitz_matrix_words L) (toeplitz_matrix_bit_len L) M) \<and>
     (\<exists>R. length R = opening_len L \<and> ctx_r_words c = pad_words (l_words L) R))"

text \<open>The scratch vector of a valid context may hold any bytes, only its padding is zero.\<close>

lemma holds_length: "holds ws w n bs \<Longrightarrow> length ws = w \<and> length bs = (n + 7) div 8"
  by (auto simp: holds_def canonical_def)

text \<open>Overwriting the bytes of a held string by others of the same length.\<close>

lemma holds_memcpy:
  assumes "holds ws w n bs" and "length cs = (n + 7) div 8"
  shows "memcpy (le_bytes ws) cs = cs @ replicate (4 * w - length cs) 0"
  using assms memcpy_pad_words[of bs w cs] by (auto simp: holds_def canonical_def)

lemma holds_overwrite:
  assumes "holds ws w n bs" and "canonical n cs"
  shows "holds (le_words (memcpy (le_bytes ws) cs)) w n cs"
    and "le_words (memcpy (le_bytes ws) cs) = pad_words w cs"
  using assms holds_memcpy[OF assms(1), of cs]
  by (auto simp: holds_def canonical_def pad_words_def)

lemma holds_zero: "(n + 7) div 8 \<le> 4 * w \<Longrightarrow> holds (replicate w 0) w n (replicate ((n + 7) div 8) 0)"
  by (simp add: holds_def canonical_zero zero_words[symmetric])

lemma valid_ctxD:
  assumes "valid_ctx c"
  shows "compute_sizes (message_bit_len c) = Some (layout c)"
    "diagonal_ok (message_bit_len c) (l_words (layout c)) (ctx_A c)"
    "length (ctx_r_words c) = l_words (layout c)"
proof -
  show s: "compute_sizes (message_bit_len c) = Some (layout c)"
    using assms by (simp add: valid_ctx_def Let_def)
  show "diagonal_ok (message_bit_len c) (l_words (layout c)) (ctx_A c)"
    "length (ctx_r_words c) = l_words (layout c)"
    using assms layout_fits(1,6)[OF s] holds_length by (auto simp: valid_ctx_def Let_def)
qed

text \<open>Every call overwrites the scratch vector before it reads it.\<close>

lemma scratch_memcpy:
  assumes "valid_ctx c" and "length bs = opening_len (layout c)"
  shows "memcpy (le_bytes (ctx_r_words c)) bs = bs @ replicate (4 * l_words (layout c) - length bs) 0"
    and "le_words (memcpy (le_bytes (ctx_r_words c)) bs) = pad_words (l_words (layout c)) bs"
proof -
  obtain R where R: "length R = opening_len (layout c)" "ctx_r_words c = pad_words (l_words (layout c)) R"
    using assms(1) by (auto simp: valid_ctx_def Let_def)
  have "length R \<le> 4 * l_words (layout c)" using layout_fits(1)[OF valid_ctxD(1)[OF assms(1)]] R(1) by simp
  then show m: "memcpy (le_bytes (ctx_r_words c)) bs = bs @ replicate (4 * l_words (layout c) - length bs) 0"
    using memcpy_pad_words[of R "l_words (layout c)" bs] R assms(2) by simp
  show "le_words (memcpy (le_bytes (ctx_r_words c)) bs) = pad_words (l_words (layout c)) bs"
    by (simp add: m pad_words_def)
qed

section \<open>What a commitment means\<close>

text \<open>
  op opens cm to the first n bits of m: both strings are canonical, cm ends in
  the digest of op, and its first n bits are the Toeplitz hash of op plus m.
\<close>

definition hm_relation :: "(byte list \<Rightarrow> byte list option) \<Rightarrow> nat \<Rightarrow> u32 list \<Rightarrow> byte list \<Rightarrow>
    byte list \<Rightarrow> byte list \<Rightarrow> bool" where
  "hm_relation sha n A m cm op \<longleftrightarrow> (case compute_sizes n of None \<Rightarrow> False | Some L \<Rightarrow>
     canonical (l_bits L) op \<and> length cm = commitment_len L \<and>
     canonical n (take (message_byte_len L) cm) \<and>
     sha op = Some (drop (message_byte_len L) cm) \<and>
     (\<forall>i<n. bbit cm i = (hash_bit n A (pad_words (l_words L) op) (l_words L) i \<noteq> bbit m i)))"

lemma hm_relationD:
  assumes "hm_relation sha n A m cm op"
  obtains L where "compute_sizes n = Some L" "canonical (l_bits L) op" "length cm = commitment_len L"
    "canonical n (take (message_byte_len L) cm)" "sha op = Some (drop (message_byte_len L) cm)"
    "\<And>i. i < n \<Longrightarrow> bbit cm i = (hash_bit n A (pad_words (l_words L) op) (l_words L) i \<noteq> bbit m i)"
  using assms by (auto simp: hm_relation_def split: option.splits)

text \<open>Two openings of one commitment to different bits are a collision of the digest.\<close>

lemma hm_relation_binding:
  assumes "hm_relation sha n A m cm op" and "hm_relation sha n A m' cm op'"
  shows "(\<forall>i<n. bbit m i = bbit m' i) \<or> (op \<noteq> op' \<and> sha op = sha op' \<and> sha op \<noteq> None)"
  using assms by (auto elim!: hm_relationD)

lemma hm_verify_decides:
  assumes c: "valid_ctx c" and m: "message_byte_len (layout c) \<le> length m"
  shows "fst (hm_verify sha (Some c) (Some m) (Some cm) (Some op)) = Inr () \<longleftrightarrow>
     hm_relation sha (message_bit_len c) (ctx_A c) m cm op"
proof -
  let ?L = "layout c" and ?n = "message_bit_len c"
  note s = valid_ctxD[OF c] and d = compute_sizesD[OF valid_ctxD(1)[OF c]]
    and f = layout_fits[OF valid_ctxD(1)[OF c]]
  show ?thesis
  proof (cases "length cm = commitment_len ?L \<and> length op = opening_len ?L")
    case False
    then show ?thesis
      using s(1) d(5) by (auto simp: hm_verify_def hm_relation_def Let_def canonical_def)
  next
    case True
    have cano: "op ! (length op - 1) AND NOT (last_byte_mask (l_bits ?L)) = 0 \<longleftrightarrow> canonical (l_bits ?L) op"
      using True d(4,5) by (intro last_byte_canonical) simp_all
    have t: "length (take (message_byte_len ?L) cm) = (?n + 7) div 8" using True d(3) f(7) by simp
    have "take (message_byte_len ?L) cm ! (message_byte_len ?L - 1) = cm ! (message_byte_len ?L - 1)"
      using f(4) by simp
    then have canc: "cm ! (message_byte_len ?L - 1) AND NOT (last_byte_mask ?n) = 0
        \<longleftrightarrow> canonical ?n (take (message_byte_len ?L) cm)"
      using last_byte_canonical[OF d(1) t] t d(3) by simp
    have dig: "take SHA256_DIGEST_LENGTH (drop (message_byte_len ?L) cm) = drop (message_byte_len ?L) cm"
      using True d(10) by (simp add: SHA256_DIGEST_LENGTH_def)
    show ?thesis
    proof (cases "canonical (l_bits ?L) op \<and> canonical ?n (take (message_byte_len ?L) cm)
        \<and> sha op = Some (drop (message_byte_len ?L) cm)")
      case False
      then show ?thesis
        using True cano canc dig s(1)
        by (auto simp: hm_verify_def hm_relation_def Let_def split: option.splits)
    next
      case ok: True
      have r: "le_words (memcpy (le_bytes (ctx_r_words c)) op) = pad_words (l_words ?L) op"
        using scratch_memcpy(2)[OF c] True by simp
      have "length (pad_words (l_words ?L) op) = l_words ?L" using True f(1) by simp
      then have "universal_hash_verify_message m ?n cm (ctx_A c) (pad_words (l_words ?L) op) (l_words ?L)
        = (if \<forall>i<?n. (hash_bit ?n (ctx_A c) (pad_words (l_words ?L) op) (l_words ?L) i \<noteq> bbit cm i) = bbit m i
           then Inr () else Inl Rejected)"
        using True f(7) m d(3) s(2) by (intro verify_message_spec) simp_all
      then have "fst (hm_verify sha (Some c) (Some m) (Some cm) (Some op)) = Inr () \<longleftrightarrow>
        (\<forall>i<?n. (hash_bit ?n (ctx_A c) (pad_words (l_words ?L) op) (l_words ?L) i \<noteq> bbit cm i) = bbit m i)"
        using True ok cano canc dig by (simp add: hm_verify_def Let_def r)
      then show ?thesis
        using ok True s(1) by (auto simp: hm_relation_def)
    qed
  qed
qed

text \<open>After a call the context is as before, except for a new scratch vector.\<close>

lemma valid_ctx_pad:
  "valid_ctx c \<Longrightarrow> length op = opening_len (layout c) \<Longrightarrow> valid_ctx (c\<lparr>ctx_r_words := pad_words (l_words (layout c)) op\<rparr>)"
  by (auto simp: valid_ctx_def Let_def)

lemma valid_ctx_r:
  assumes "valid_ctx c" and "length op = opening_len (layout c)"
  shows "valid_ctx (c\<lparr>ctx_r_words := le_words (memcpy (le_bytes (ctx_r_words c)) op)\<rparr>)"
  using valid_ctx_pad[OF assms] scratch_memcpy(2)[OF assms] by simp

definition same_matrix :: "hm_context_t \<Rightarrow> hm_context_t \<Rightarrow> bool" where
  "same_matrix c d \<longleftrightarrow> message_bit_len c = message_bit_len d \<and> ctx_A c = ctx_A d"

lemma hm_verify_ctx:
  assumes "valid_ctx c"
  shows "\<exists>c'. snd (hm_verify sha (Some c) m cm op) = Some c' \<and> valid_ctx c' \<and> same_matrix c c'"
proof (cases "m = None \<or> cm = None \<or> op = None")
  case True
  then show ?thesis using assms
    by (intro exI[of _ c]) (auto simp: hm_verify_def same_matrix_def split: option.splits)
next
  case False
  then obtain m' cm' op' where e: "m = Some m'" "cm = Some cm'" "op = Some op'" by auto
  have "valid_ctx (c\<lparr>ctx_r_words := le_words (memcpy (le_bytes (ctx_r_words c)) op')\<rparr>)"
    if "length op' = opening_len (layout c)" by (rule valid_ctx_r[OF assms that])
  then show ?thesis
    using assms by (auto simp: hm_verify_def e same_matrix_def Let_def split: option.splits)
qed

section \<open>Committing\<close>

text \<open>RAND\_bytes writes at most the bytes that it is asked for, whether it succeeds or not.\<close>

definition rand_ok :: "rand_bytes \<Rightarrow> bool" where
  "rand_ok rand \<longleftrightarrow> (\<forall>n. case rand n of Inl bs \<Rightarrow> length bs = n | Inr bs \<Rightarrow> length bs = n)"

lemma rand_okD:
  assumes "rand_ok rand"
  shows "rand n = Inl bs \<Longrightarrow> length bs = n" "rand n = Inr bs \<Longrightarrow> length bs = n"
proof -
  have "case rand n of Inl bs \<Rightarrow> length bs = n | Inr bs \<Rightarrow> length bs = n" using assms by (simp add: rand_ok_def)
  then show "rand n = Inl bs \<Longrightarrow> length bs = n" "rand n = Inr bs \<Longrightarrow> length bs = n" by simp_all
qed

definition sha_ok :: "(byte list \<Rightarrow> byte list option) \<Rightarrow> bool" where
  "sha_ok sha \<longleftrightarrow> (\<forall>x d. sha x = Some d \<longrightarrow> length d = 32)"

text \<open>hm\_commit up to the digest: the opening o is drawn and masked, cb holds the hash.\<close>

lemma hm_commit_unfold:
  assumes c: "valid_ctx c" and m: "message_byte_len (layout c) \<le> length m"
    and cap: "commitment_len (layout c) \<le> length cm" "opening_len (layout c) \<le> length op"
    and rnd: "rand (opening_len (layout c)) = Inr bytes" "length bytes = opening_len (layout c)"
  defines "oo \<equiv> mask_bytes (l_bits (layout c)) bytes"
  obtains cb where
    "\<And>sha. hm_commit sha rand (Some c) (Some m) (Some cm) (Some op) = (case sha oo of
        None \<Rightarrow> (Inl HashFailure, Some (c\<lparr>ctx_r_words := pad_words (l_words (layout c)) oo\<rparr>))
      | Some d \<Rightarrow> (Inr (take (message_byte_len (layout c)) cb @ memcpy (drop (message_byte_len (layout c)) cb) d,
            memcpy op oo), Some (c\<lparr>ctx_r_words := pad_words (l_words (layout c)) oo\<rparr>)))"
    "length cb = length cm" "drop (message_byte_len (layout c)) cb = drop (message_byte_len (layout c)) cm"
    "\<And>i. i < 8 * message_byte_len (layout c) \<Longrightarrow> bbit cb i = (i < message_bit_len c \<and>
       (hash_bit (message_bit_len c) (ctx_A c) (pad_words (l_words (layout c)) oo) (l_words (layout c)) i
         \<noteq> bbit m i))"
    "canonical (l_bits (layout c)) oo" "valid_ctx (c\<lparr>ctx_r_words := pad_words (l_words (layout c)) oo\<rparr>)"
proof -
  let ?L = "layout c" and ?n = "message_bit_len c"
  note s = valid_ctxD[OF c] and d = compute_sizesD[OF valid_ctxD(1)[OF c]]
    and f = layout_fits[OF valid_ctxD(1)[OF c]]
  have lb: "0 < l_bits ?L" using d(4) by simp
  have o: "canonical (l_bits ?L) oo" using rnd(2) d(5) lb by (simp add: oo_def canonical_mask_bytes)
  have lo: "length oo = opening_len ?L" using rnd(2) by (simp add: oo_def)
  define r where "r = oo @ replicate (4 * l_words ?L - opening_len ?L) (0::byte)"
  have r: "(memcpy (le_bytes (ctx_r_words c)) bytes)[opening_len ?L - 1 :=
      memcpy (le_bytes (ctx_r_words c)) bytes ! (opening_len ?L - 1) AND last_byte_mask (l_bits ?L)] = r"
    using scratch_memcpy(1)[OF c rnd(2)] rnd(2) d(5) lb mask_append[of bytes "l_bits ?L"]
    by (simp add: r_def oo_def del: One_nat_def)
  have rw: "le_words r = pad_words (l_words ?L) oo" using lo by (simp add: r_def pad_words_def)
  have tr: "take (opening_len ?L) r = oo" using lo by (simp add: r_def)
  have len: "length (pad_words (l_words ?L) oo) = l_words ?L" using lo f(1) by simp
  have "(?n + 7) div 8 \<le> length cm" using cap(1) f(7) d(3) by simp
  from compute_b_spec[OF s(2) _ _ this, of "pad_words (l_words ?L) oo" m] len m d(3)
  obtain cb where cb: "universal_hash_compute_b cm (ctx_A c) (pad_words (l_words ?L) oo) (l_words ?L) m ?n = Inr cb"
    "length cb = length cm" "drop (message_byte_len ?L) cb = drop (message_byte_len ?L) cm"
    "\<And>i. i < 8 * message_byte_len ?L \<Longrightarrow>
      bbit cb i = (i < ?n \<and> (hash_bit ?n (ctx_A c) (pad_words (l_words ?L) oo) (l_words ?L) i \<noteq> bbit m i))"
    by auto
  have "valid_ctx (c\<lparr>ctx_r_words := pad_words (l_words ?L) oo\<rparr>)"
    by (rule valid_ctx_pad[OF c lo])
  moreover have "hm_commit sha rand (Some c) (Some m) (Some cm) (Some op) = (case sha oo of
        None \<Rightarrow> (Inl HashFailure, Some (c\<lparr>ctx_r_words := pad_words (l_words ?L) oo\<rparr>))
      | Some d \<Rightarrow> (Inr (take (message_byte_len ?L) cb @ memcpy (drop (message_byte_len ?L) cb) d,
            memcpy op oo), Some (c\<lparr>ctx_r_words := pad_words (l_words ?L) oo\<rparr>)))" for sha
    using cap rnd(1) cb(1)
    by (simp add: hm_commit_def Let_def r tr rw del: One_nat_def split: option.split)
  ultimately show ?thesis using that[OF _ cb(2,3,4) o] by blast
qed

lemma hm_commit_run:
  assumes c: "valid_ctx c" and m: "message_byte_len (layout c) \<le> length m"
    and cap: "commitment_len (layout c) \<le> length cm" "opening_len (layout c) \<le> length op"
    and rnd: "rand (opening_len (layout c)) = Inr bytes" "length bytes = opening_len (layout c)"
    and sha: "sha (mask_bytes (l_bits (layout c)) bytes) = Some dg" "length dg = 32"
  obtains cm' op' c' where "hm_commit sha rand (Some c) (Some m) (Some cm) (Some op) = (Inr (cm', op'), Some c')"
    "valid_ctx c'" "same_matrix c c'" "length cm' = length cm" "length op' = length op"
    "take (opening_len (layout c)) op' = mask_bytes (l_bits (layout c)) bytes"
    "drop (opening_len (layout c)) op' = drop (opening_len (layout c)) op"
    "drop (commitment_len (layout c)) cm' = drop (commitment_len (layout c)) cm"
    "hm_relation sha (message_bit_len c) (ctx_A c) m
       (take (commitment_len (layout c)) cm') (take (opening_len (layout c)) op')"
proof -
  let ?L = "layout c" and ?n = "message_bit_len c"
  let ?o = "mask_bytes (l_bits ?L) bytes"
  note d = compute_sizesD[OF valid_ctxD(1)[OF c]] and f = layout_fits[OF valid_ctxD(1)[OF c]]
  have lo: "length ?o = opening_len ?L" using rnd(2) by simp
  obtain cb where run: "hm_commit sha rand (Some c) (Some m) (Some cm) (Some op) =
      (Inr (take (message_byte_len ?L) cb @ memcpy (drop (message_byte_len ?L) cb) dg, memcpy op ?o),
       Some (c\<lparr>ctx_r_words := pad_words (l_words ?L) ?o\<rparr>))"
    and cb: "length cb = length cm" "drop (message_byte_len ?L) cb = drop (message_byte_len ?L) cm"
    "\<And>i. i < 8 * message_byte_len ?L \<Longrightarrow>
      bbit cb i = (i < ?n \<and> (hash_bit ?n (ctx_A c) (pad_words (l_words ?L) ?o) (l_words ?L) i \<noteq> bbit m i))"
    and o: "canonical (l_bits ?L) ?o" and v: "valid_ctx (c\<lparr>ctx_r_words := pad_words (l_words ?L) ?o\<rparr>)"
    by (rule hm_commit_unfold[where rand = rand, OF c m cap rnd], rule that[rotated 1], assumption+, simp add: sha(1))
  define cm' where "cm' = take (message_byte_len ?L) cb @ memcpy (drop (message_byte_len ?L) cb) dg"
  define op' where "op' = memcpy op ?o"
  have lcb: "message_byte_len ?L \<le> length cb" using cb(1) cap(1) f(7) by simp
  have cl: "commitment_len ?L = message_byte_len ?L + length dg" using d(10) sha(2) by simp
  have tc: "take (commitment_len ?L) cm' = take (message_byte_len ?L) cb @ dg"
    using lcb by (simp add: cm'_def cl memcpy_def)
  have bits: "bbit (take (message_byte_len ?L) cb @ dg) i = bbit cb i" if "i < 8 * message_byte_len ?L" for i
    using that lcb by (simp add: bbit_append bbit_take)
  have n8: "?n \<le> 8 * message_byte_len ?L"
    using d(3) div_mult_mod_eq[of "?n + 7" 8] mod_less_divisor[of 8 "?n + 7"] by linarith
  have rel: "hm_relation sha ?n (ctx_A c) m (take (commitment_len ?L) cm') ?o"
    unfolding hm_relation_def tc valid_ctxD(1)[OF c] option.case
  proof (intro conjI allI impI)
    show "canonical ?n (take (message_byte_len ?L) (take (message_byte_len ?L) cb @ dg))"
      using lcb d(3) cb(3) by (simp add: canonical_def bbit_take)
    show "bbit (take (message_byte_len ?L) cb @ dg) i =
        (hash_bit ?n (ctx_A c) (pad_words (l_words ?L) ?o) (l_words ?L) i \<noteq> bbit m i)" if "i < ?n" for i
      using bits[of i] cb(3)[of i] n8 that by simp
  qed (use o sha(1) lcb cl in simp_all)
  show ?thesis
  proof (rule that[OF run[folded cm'_def op'_def] v])
    show "take (opening_len ?L) op' = ?o" using lo by (simp add: op'_def)
    then show "hm_relation sha ?n (ctx_A c) m (take (commitment_len ?L) cm') (take (opening_len ?L) op')"
      using rel by simp
    show "drop (commitment_len ?L) cm' = drop (commitment_len ?L) cm"
      using lcb cb(2) by (simp add: cm'_def cl memcpy_def) (metis drop_drop add.commute)
  qed (use cap lo sha(2) lcb cb(1) cl in \<open>simp_all add: same_matrix_def op'_def cm'_def memcpy_def\<close>)
qed

lemma hm_commit_success:
  assumes c: "valid_ctx c" "message_byte_len (layout c) \<le> length m" and r: "rand_ok rand" and s: "sha_ok sha"
    and run: "hm_commit sha rand (Some c) (Some m) (Some cm) (Some op) = (Inr (cm', op'), c')"
  shows "hm_relation sha (message_bit_len c) (ctx_A c) m
       (take (commitment_len (layout c)) cm') (take (opening_len (layout c)) op')
     \<and> length cm' = length cm \<and> length op' = length op
     \<and> drop (commitment_len (layout c)) cm' = drop (commitment_len (layout c)) cm
     \<and> drop (opening_len (layout c)) op' = drop (opening_len (layout c)) op"
proof -
  have cap: "commitment_len (layout c) \<le> length cm" "opening_len (layout c) \<le> length op"
    using run by (auto simp: hm_commit_def Let_def split: if_splits)
  obtain bytes where b: "rand (opening_len (layout c)) = Inr bytes" "length bytes = opening_len (layout c)"
    using run cap rand_okD(2)[OF r] by (auto simp: hm_commit_def Let_def split: option.splits sum.splits)
  have "sha (mask_bytes (l_bits (layout c)) bytes) \<noteq> None"
  proof (rule hm_commit_unfold[where rand = rand, OF c cap b], goal_cases)
    case (1 cb)
    from 1(1)[of sha] run show ?case by (auto split: option.splits)
  qed
  then obtain dg where dg: "sha (mask_bytes (l_bits (layout c)) bytes) = Some dg" "length dg = 32"
    using s by (auto simp: sha_ok_def)
  show ?thesis
    by (rule hm_commit_run[where rand = rand and sha = sha, OF c cap b dg]) (use run in simp)
qed

text \<open>The masked bytes in the scratch vector, with the padding behind them.\<close>

lemma scratch_masked:
  assumes c: "valid_ctx c" and len: "length bytes = opening_len (layout c)"
  shows "(memcpy (le_bytes (ctx_r_words c)) bytes)
      [opening_len (layout c) - 1 := memcpy (le_bytes (ctx_r_words c)) bytes ! (opening_len (layout c) - 1)
         AND last_byte_mask (l_bits (layout c))] =
     mask_bytes (l_bits (layout c)) bytes @ replicate (4 * l_words (layout c) - length bytes) 0"
  using scratch_memcpy(1)[OF c len] compute_sizesD(4,5)[OF valid_ctxD(1)[OF c]] len
    mask_append[of bytes "l_bits (layout c)"] by (simp del: One_nat_def)

lemma hm_commit_ctx:
  assumes c: "valid_ctx c" and r: "rand_ok rand"
  shows "\<exists>c'. snd (hm_commit sha rand (Some c) m cm op) = Some c' \<and> valid_ctx c' \<and> same_matrix c c'"
proof -
  let ?L = "layout c"
  have v: "valid_ctx (c\<lparr>ctx_r_words := le_words ((memcpy (le_bytes (ctx_r_words c)) bytes)
      [opening_len ?L - 1 := memcpy (le_bytes (ctx_r_words c)) bytes ! (opening_len ?L - 1)
         AND last_byte_mask (l_bits ?L)])\<rparr>)" if "rand (opening_len ?L) = Inr bytes" for bytes
    using scratch_masked[OF c rand_okD(2)[OF r that]] rand_okD(2)[OF r that]
      valid_ctx_pad[OF c, of "mask_bytes (l_bits ?L) bytes"] by (simp add: pad_words_def del: One_nat_def)
  have "valid_ctx (c\<lparr>ctx_r_words := le_words (memcpy (le_bytes (ctx_r_words c)) left)\<rparr>)"
    if "rand (opening_len ?L) = Inl left" for left by (rule valid_ctx_r[OF c rand_okD(1)[OF r that]])
  with v show ?thesis
    using c by (auto simp: hm_commit_def same_matrix_def Let_def split: option.splits sum.splits)
qed

text \<open>What a call returns does not depend on what earlier calls left in the scratch vector.\<close>

lemma calls_ignore_scratch:
  assumes c: "valid_ctx c" and e: "valid_ctx e" and s: "same_matrix c e" and r: "rand_ok rand"
  shows "fst (hm_commit sha rand (Some e) m cm op) = fst (hm_commit sha rand (Some c) m cm op)"
    "fst (hm_verify sha (Some e) m cm op) = fst (hm_verify sha (Some c) m cm op)"
proof -
  have n: "message_bit_len e = message_bit_len c" "ctx_A e = ctx_A c" using s by (simp_all add: same_matrix_def)
  have L: "layout e = layout c" using valid_ctxD(1)[OF c] valid_ctxD(1)[OF e] n(1) by simp
  note m = scratch_memcpy[OF c] scratch_memcpy[OF e, unfolded L] scratch_masked[OF c] scratch_masked[OF e, unfolded L]
  show "fst (hm_verify sha (Some e) m cm op) = fst (hm_verify sha (Some c) m cm op)"
    by (cases "\<exists>m' cm' op'. m = Some m' \<and> cm = Some cm' \<and> op = Some op' \<and> length op' = opening_len (layout c)")
       (auto simp: hm_verify_def Let_def L n m split: option.splits)
  show "fst (hm_commit sha rand (Some e) m cm op) = fst (hm_commit sha rand (Some c) m cm op)"
  proof (cases "rand (opening_len (layout c))")
    case (Inl left)
    then show ?thesis by (auto simp: hm_commit_def Let_def L split: option.splits)
  next
    case (Inr bytes)
    from m(5,6)[OF rand_okD(2)[OF r Inr]] show ?thesis
      by (simp add: hm_commit_def Let_def L n Inr del: One_nat_def split: option.splits sum.splits)
  qed
qed

text \<open>Neither call leaves its buffers.\<close>

lemma hm_verify_in_bounds:
  assumes c: "valid_ctx c" and m: "message_byte_len (layout c) \<le> length m"
  shows "fst (hm_verify sha (Some c) (Some m) (Some cm) (Some op)) \<noteq> Inl OutOfBounds"
proof -
  let ?L = "layout c" and ?n = "message_bit_len c"
  note s = valid_ctxD[OF c] and d = compute_sizesD[OF valid_ctxD(1)[OF c]]
    and f = layout_fits[OF valid_ctxD(1)[OF c]]
  have "universal_hash_verify_message m ?n cm (ctx_A c)
      (le_words (memcpy (le_bytes (ctx_r_words c)) op)) (l_words ?L) \<noteq> Inl OutOfBounds"
    if "length cm = commitment_len ?L" "length op = opening_len ?L"
  proof -
    have "memcpy (le_bytes (ctx_r_words c)) op = op @ replicate (4 * l_words ?L - length op) 0"
      using scratch_memcpy(1)[OF c that(2)] by simp
    then have "length (le_words (memcpy (le_bytes (ctx_r_words c)) op)) = l_words ?L"
      using that f(1) by simp
    then show ?thesis
      using verify_message_spec[OF s(2), of "le_words (memcpy (le_bytes (ctx_r_words c)) op)" m cm]
        that d(3) f(7) m by auto
  qed
  then show ?thesis
    by (auto simp: hm_verify_def Let_def split: option.splits)
qed

lemma hm_commit_in_bounds:
  assumes c: "valid_ctx c" "message_byte_len (layout c) \<le> length m" and r: "rand_ok rand"
  shows "fst (hm_commit sha rand (Some c) (Some m) (Some cm) (Some op)) \<noteq> Inl OutOfBounds"
proof (cases "commitment_len (layout c) \<le> length cm \<and> opening_len (layout c) \<le> length op
    \<and> (\<exists>bytes. rand (opening_len (layout c)) = Inr bytes)")
  case False
  then show ?thesis by (auto simp: hm_commit_def Let_def split: option.splits sum.splits)
next
  case True
  then obtain bytes where b: "rand (opening_len (layout c)) = Inr bytes"
    "length bytes = opening_len (layout c)" using rand_okD(2)[OF r] by auto
  show ?thesis
  proof (rule hm_commit_unfold[where rand = rand, OF c True[THEN conjunct1]
        True[THEN conjunct2, THEN conjunct1] b], goal_cases)
    case (1 cb)
    show ?case using 1(1)[of sha] by (auto split: option.splits)
  qed
qed

section \<open>Creating and freeing contexts\<close>

text \<open>What a constructor returns: a context that owns three new blocks, or no new block.\<close>

definition ctx_result :: "nat set \<Rightarrow> heap \<Rightarrow> hm_context_t option \<times> int \<Rightarrow> bool" where
  "ctx_result base h p \<longleftrightarrow> (case fst p of
     None \<Rightarrow> snd p = -1 \<and> owns h base []
   | Some c \<Rightarrow> snd p = 0 \<and> owns h base [r_block c, A_block c, ctx_block c]
       \<and> r_block c \<noteq> None \<and> A_block c \<noteq> None \<and> ctx_block c \<noteq> None)"

lemma hm_context_free_run:
  assumes "owns h base ([r_block c, A_block c, ctx_block c] @ ps)"
  obtains h' where "hm_context_free (Some c) h = Inr ((), h')" "owns h' base ps"
    "may_alloc h' = may_alloc h"
proof -
  have "(if r_block c \<noteq> None then free_block (r_block c) else ret ()) = free_block (r_block c)"
    by (auto simp: free_block_def ret_def)
  moreover from free_all_owns[OF assms] obtain h' where "free_all [r_block c, A_block c, ctx_block c] h = Inr ((), h')"
    "owns h' base ps" "may_alloc h' = may_alloc h" by metis
  moreover have "bnd m ret = m" for m :: "(heap, unit) prog"
    by (auto simp: bnd_def ret_def fun_eq_iff split: sum.splits)
  ultimately show ?thesis using that by (simp add: hm_context_free_def)
qed

text \<open>A context with both arrays zero, before the matrix is filled in.\<close>

definition zero_ctx :: "nat \<Rightarrow> hm_context_t \<Rightarrow> bool" where
  "zero_ctx n c \<longleftrightarrow> message_bit_len c = n \<and> compute_sizes n = Some (layout c) \<and>
     ctx_A c = replicate (toeplitz_matrix_words (layout c)) 0 \<and>
     ctx_r_words c = replicate (l_words (layout c)) 0"

lemma context_allocate_run:
  assumes "owns h base []"
  obtains p h' where "context_allocate n out h = Inr (p, h')" "ctx_result base h' p"
    "may_alloc h' = may_alloc h"
    "\<And>c. fst p = Some c \<Longrightarrow> zero_ctx n c"
proof (cases "out \<and> compute_sizes n \<noteq> None")
  case False
  then have "context_allocate n out h = Inr ((None, -1), h)"
    by (auto simp: context_allocate_def)
  from that[OF this] assms show ?thesis by (simp add: ctx_result_def)
next
  case True
  then obtain L where L: "compute_sizes n = Some L" and out by auto
  from owns_malloc[OF assms] obtain p h1 where 1: "malloc h = Inr (p, h1)" "owns h1 base [p]"
    "may_alloc h1 = may_alloc h" by metis
  show ?thesis
  proof (cases p)
    case None
    then have "context_allocate n out h = Inr ((None, -1), h1)"
      using 1 L \<open>out\<close> by (simp add: context_allocate_def)
    from that[OF this] 1 None show ?thesis by (simp add: ctx_result_def owns_def)
  next
    case (Some b)
    from owns_malloc[OF 1(2)] obtain a h2 where 2: "malloc h1 = Inr (a, h2)" "owns h2 base [a, p]"
      "may_alloc h2 = may_alloc h1" by metis
    from owns_malloc[OF 2(2)] obtain r h3 where 3: "malloc h2 = Inr (r, h3)" "owns h3 base [r, a, p]"
      "may_alloc h3 = may_alloc h2" by metis
    define c where "c = \<lparr>message_bit_len = n, layout = L,
        ctx_A = replicate (toeplitz_matrix_words L) (0::u32), ctx_r_words = replicate (l_words L) 0,
        ctx_block = Some b, A_block = a, r_block = r\<rparr>"
    show ?thesis
    proof (cases "a = None \<or> r = None")
      case True
      have "owns h3 base ([r_block c, A_block c, ctx_block c] @ [])"
        using 3(2) Some by (simp add: c_def)
      from hm_context_free_run[OF this] obtain h4 where 4: "hm_context_free (Some c) h3 = Inr ((), h4)"
        "owns h4 base []" "may_alloc h4 = may_alloc h3" by metis
      then have "context_allocate n out h = Inr ((None, -1), h4)"
        using 1 2 3 L \<open>out\<close> Some True by (simp add: context_allocate_def Let_def c_def)
      from that[OF this] 1 2 3 4 show ?thesis by (simp add: ctx_result_def)
    next
      case False
      then obtain a' r' where ar: "a = Some a'" "r = Some r'" by auto
      have "context_allocate n out h = Inr ((Some c, 0), h3)"
        using 1 2 3 L \<open>out\<close> Some ar by (simp add: context_allocate_def Let_def c_def)
      from that[OF this] 1 2 3 ar L show ?thesis
        by (simp add: ctx_result_def c_def Some zero_ctx_def)
    qed
  qed
qed

lemma valid_new_context:
  assumes "compute_sizes n = Some (layout c)" "message_bit_len c = n"
    "holds (ctx_A c) (toeplitz_matrix_words (layout c)) (toeplitz_matrix_bit_len (layout c)) M"
    "ctx_r_words c = replicate (l_words (layout c)) 0"
  shows "valid_ctx c"
proof -
  have "replicate (l_words (layout c)) 0 = pad_words (l_words (layout c)) (replicate (opening_len (layout c)) 0)"
    by (rule zero_words[OF layout_fits(1)[OF assms(1)]])
  moreover have "length (replicate (opening_len (layout c)) 0) = opening_len (layout c)" by simp
  ultimately show ?thesis using assms unfolding valid_ctx_def Let_def by metis
qed

lemma zero_matrix_write:
  assumes "compute_sizes n = Some L" and "canonical (toeplitz_matrix_bit_len L) M"
  shows "holds (le_words (memcpy (le_bytes (replicate (toeplitz_matrix_words L) 0)) M))
     (toeplitz_matrix_words L) (toeplitz_matrix_bit_len L) M"
proof -
  have "(toeplitz_matrix_bit_len L + 7) div 8 \<le> 4 * toeplitz_matrix_words L"
    using layout_fits(2)[OF assms(1)] compute_sizesD(8)[OF assms(1)] by simp
  from holds_overwrite(1)[OF holds_zero[OF this] assms(2)] show ?thesis .
qed

lemma hm_context_create_run:
  assumes "owns h base []" and "rand_ok rand"
  obtains p h' where "hm_context_create rand n out h = Inr (p, h')" "ctx_result base h' p"
    "\<And>c. fst p = Some c \<Longrightarrow> message_bit_len c = n \<and> valid_ctx c"
proof -
  from context_allocate_run[OF assms(1)] obtain q h1 where q: "context_allocate n out h = Inr (q, h1)"
    "ctx_result base h1 q" and f: "\<And>c. fst q = Some c \<Longrightarrow> zero_ctx n c" by metis
  show ?thesis
  proof (cases "fst q")
    case None
    then have "hm_context_create rand n out h = Inr ((None, -1), h1)"
      using q(1) by (cases q) (simp add: hm_context_create_def)
    from that[OF this] q(2) None show ?thesis by (simp add: ctx_result_def)
  next
    case (Some c)
    then have qc: "q = (Some c, 0)" using q(2) by (cases q) (simp add: ctx_result_def)
    let ?L = "layout c"
    note d = compute_sizesD[of n ?L] and fc = f[OF Some, unfolded zero_ctx_def]
    show ?thesis
    proof (cases "rand (toeplitz_matrix_len ?L)")
      case (Inl left)
      have "owns h1 base ([r_block c, A_block c, ctx_block c] @ [])"
        using q(2) qc by (simp add: ctx_result_def)
      from hm_context_free_run[OF this] obtain h2 where
        "hm_context_free (Some c) h1 = Inr ((), h2)" "owns h2 base []" by metis
      then have "hm_context_create rand n out h = Inr ((None, -1), h2)" "owns h2 base []"
        using q(1) qc Inl by (simp_all add: hm_context_create_def Let_def)
      from that[OF this(1)] this(2) show ?thesis by (simp add: ctx_result_def)
    next
      case (Inr bytes)
      then have len: "length bytes = toeplitz_matrix_len ?L" by (rule rand_okD(2)[OF assms(2)])
      let ?M = "mask_bytes (toeplitz_matrix_bit_len ?L) bytes"
      have cM: "canonical (toeplitz_matrix_bit_len ?L) ?M"
        using len d fc by (intro canonical_mask_bytes) auto
      have z: "holds (ctx_A c) (toeplitz_matrix_words ?L) (toeplitz_matrix_bit_len ?L)
          (replicate ((toeplitz_matrix_bit_len ?L + 7) div 8) 0)"
        using fc layout_fits(2)[of n ?L] d(8) by (auto intro!: holds_zero)
      define c' where "c' = c\<lparr>ctx_A := le_words (memcpy (le_bytes (ctx_A c)) ?M)\<rparr>"
      have "(memcpy (le_bytes (ctx_A c)) bytes)[toeplitz_matrix_len ?L - 1 :=
          memcpy (le_bytes (ctx_A c)) bytes ! (toeplitz_matrix_len ?L - 1)
          AND last_byte_mask (toeplitz_matrix_bit_len ?L)] = memcpy (le_bytes (ctx_A c)) ?M"
        using holds_memcpy[OF z, of bytes] holds_memcpy[OF z, of ?M] len d(7,8) fc
          mask_append[of bytes "toeplitz_matrix_bit_len ?L"] by (simp del: One_nat_def)
      then have run: "hm_context_create rand n out h = Inr ((Some c', 0), h1)"
        using q(1) qc Inr by (simp add: hm_context_create_def Let_def c'_def del: One_nat_def)
      have "valid_ctx c'"
        using fc zero_matrix_write[OF _ cM, of n] by (intro valid_new_context[of n]) (auto simp: c'_def)
      with that[OF run] q(2) qc fc show ?thesis by (simp add: ctx_result_def c'_def)
    qed
  qed
qed

lemma hm_context_from_matrix_run:
  assumes "owns h base []"
  obtains p h' where "hm_context_from_matrix n (Some M) out h = Inr (p, h')" "ctx_result base h' p"
    "\<And>c. fst p = Some c \<Longrightarrow> message_bit_len c = n \<and> valid_ctx c \<and>
       canonical (toeplitz_matrix_bit_len (layout c)) M \<and>
       ctx_A c = pad_words (toeplitz_matrix_words (layout c)) M"
proof (cases "\<exists>L. out \<and> compute_sizes n = Some L \<and> length M = toeplitz_matrix_len L \<and>
    canonical (toeplitz_matrix_bit_len L) M")
  case False
  have "hm_context_from_matrix n (Some M) out h = Inr ((None, -1), h)"
  proof (cases "compute_sizes n")
    case None
    then show ?thesis by (simp add: hm_context_from_matrix_def)
  next
    case (Some L)
    note d = compute_sizesD[OF Some]
    have "M ! (length M - 1) AND NOT (last_byte_mask (toeplitz_matrix_bit_len L)) = 0 \<longleftrightarrow>
        canonical (toeplitz_matrix_bit_len L) M" if "length M = toeplitz_matrix_len L"
      using that d(7,8) by (intro last_byte_canonical) simp_all
    with False Some show ?thesis by (auto simp: hm_context_from_matrix_def)
  qed
  from that[OF this] assms show ?thesis by (simp add: ctx_result_def)
next
  case True
  then obtain L where L: "out" "compute_sizes n = Some L" "length M = toeplitz_matrix_len L"
    "canonical (toeplitz_matrix_bit_len L) M" by auto
  have last: "M ! (length M - 1) AND NOT (last_byte_mask (toeplitz_matrix_bit_len L)) = 0"
    using last_byte_canonical[of "toeplitz_matrix_bit_len L" M] L compute_sizesD[OF L(2)] by simp
  from context_allocate_run[OF assms] obtain q h1 where q: "context_allocate n out h = Inr (q, h1)"
    "ctx_result base h1 q" and f: "\<And>c. fst q = Some c \<Longrightarrow> zero_ctx n c" by metis
  show ?thesis
  proof (cases "fst q")
    case None
    then have "hm_context_from_matrix n (Some M) out h = Inr ((None, -1), h1)"
      using q L last by (cases q) (simp add: hm_context_from_matrix_def)
    from that[OF this] q(2) None show ?thesis by (simp add: ctx_result_def)
  next
    case (Some c)
    then have qc: "q = (Some c, 0)" using q(2) by (cases q) (simp add: ctx_result_def)
    note fc = f[OF Some, unfolded zero_ctx_def]
    define c' where "c' = c\<lparr>ctx_A := le_words (memcpy (le_bytes (ctx_A c)) M)\<rparr>"
    have run: "hm_context_from_matrix n (Some M) out h = Inr ((Some c', 0), h1)"
      using q qc L last by (simp add: hm_context_from_matrix_def c'_def)
    have h: "holds (ctx_A c') (toeplitz_matrix_words (layout c)) (toeplitz_matrix_bit_len (layout c)) M"
      using fc L zero_matrix_write[OF L(2,4)] by (simp add: c'_def)
    then have "valid_ctx c'" using fc by (intro valid_new_context[of n]) (auto simp: c'_def)
    with that[OF run] q(2) qc fc L h show ?thesis by (simp add: ctx_result_def c'_def holds_def)
  qed
qed

section \<open>Export\<close>

lemma export_run:
  assumes "valid_ctx c" and "toeplitz_matrix_len (layout c) \<le> length out"
  obtains M where "hm_context_export_matrix (Some c) (Some out) = Inr (memcpy out M)"
    "canonical (toeplitz_matrix_bit_len (layout c)) M" "length M = toeplitz_matrix_len (layout c)"
    "ctx_A c = pad_words (toeplitz_matrix_words (layout c)) M"
proof -
  obtain M where M: "holds (ctx_A c) (toeplitz_matrix_words (layout c)) (toeplitz_matrix_bit_len (layout c)) M"
    using assms(1) by (auto simp: valid_ctx_def Let_def)
  have "length M = toeplitz_matrix_len (layout c)"
    using holds_length[OF M] compute_sizesD(8)[OF valid_ctxD(1)[OF assms(1)]] by simp
  moreover from this have "take (toeplitz_matrix_len (layout c)) (le_bytes (ctx_A c)) = M"
    using M by (simp add: holds_def)
  ultimately show ?thesis
    using that[of M] M assms(2) by (simp add: hm_context_export_matrix_def holds_def)
qed

end
