(* ===== verification/HM_Scheme.thy ===== *)
theory HM_Scheme
  imports HM_Plain_Correct
begin

text \<open>
  The contract of include/hm\_plain.h as a locale, its interpretation on
  hm\_commit and hm\_verify, and its client examples/commit\_batch.c: a sender
  commits to a list of messages in one context, a receiver with a context of
  the same matrix verifies them.
\<close>

section \<open>Batches\<close>

text \<open>One context through all calls of a loop; the loop stops at the first failure.\<close>

primrec commit_batch :: "('r \<Rightarrow> 'k \<Rightarrow> 'm \<Rightarrow> ('c \<times> 'o) option \<times> 'k) \<Rightarrow> 'r list \<Rightarrow> 'k \<Rightarrow> 'm list \<Rightarrow>
    ('c \<times> 'o) list option \<times> 'k" where
  "commit_batch f rs k [] = (Some [], k)"
| "commit_batch f rs k (m # ms) = (case f (hd rs) k m of
     (None, k') \<Rightarrow> (None, k')
   | (Some co, k') \<Rightarrow> (case commit_batch f (tl rs) k' ms of
       (None, k'') \<Rightarrow> (None, k'') | (Some cos, k'') \<Rightarrow> (Some (co # cos), k'')))"

primrec verify_batch :: "('k \<Rightarrow> 'm \<Rightarrow> 'c \<Rightarrow> 'o \<Rightarrow> bool \<times> 'k) \<Rightarrow> 'k \<Rightarrow> ('m \<times> 'c \<times> 'o) list \<Rightarrow>
    bool \<times> 'k" where
  "verify_batch f k [] = (True, k)"
| "verify_batch f k (x # xs) = (case f k (fst x) (fst (snd x)) (snd (snd x)) of
     (False, k') \<Rightarrow> (False, k') | (True, k') \<Rightarrow> verify_batch f k' xs)"

section \<open>The interface of a commitment scheme with a reusable context\<close>

locale commitment_scheme =
  fixes valid :: "'k \<Rightarrow> bool" and same :: "'k \<Rightarrow> 'k \<Rightarrow> bool"
    and fits :: "'k \<Rightarrow> 'm \<Rightarrow> bool" and agree :: "'k \<Rightarrow> 'm \<Rightarrow> 'm \<Rightarrow> bool"
    and good :: "'r \<Rightarrow> bool"
    and commit :: "'r \<Rightarrow> 'k \<Rightarrow> 'm \<Rightarrow> ('c \<times> 'o) option \<times> 'k"
    and verify :: "'k \<Rightarrow> 'm \<Rightarrow> 'c \<Rightarrow> 'o \<Rightarrow> bool \<times> 'k"
    and collision :: "'o \<Rightarrow> 'o \<Rightarrow> bool"
  assumes same_refl: "same k k"
    and same_sym: "same k l \<Longrightarrow> same l k"
    and same_trans: "same k l \<Longrightarrow> same l j \<Longrightarrow> same k j"
    and same_fits: "valid k \<Longrightarrow> valid l \<Longrightarrow> same k l \<Longrightarrow> fits k m \<Longrightarrow> fits l m"
    and commit_keeps: "valid k \<Longrightarrow> good r \<Longrightarrow>
      valid (snd (commit r k m)) \<and> same k (snd (commit r k m))"
    and verify_keeps: "valid k \<Longrightarrow> valid (snd (verify k m c p)) \<and> same k (snd (verify k m c p))"
    and complete: "valid k \<Longrightarrow> valid l \<Longrightarrow> same k l \<Longrightarrow> good r \<Longrightarrow> fits k m \<Longrightarrow>
      fst (commit r k m) = Some (c, p) \<Longrightarrow> fst (verify l m c p)"
    and binding: "valid k \<Longrightarrow> valid l \<Longrightarrow> same k l \<Longrightarrow> fits k m \<Longrightarrow> fits l m' \<Longrightarrow>
      fst (verify k m c p) \<Longrightarrow> fst (verify l m' c q) \<Longrightarrow> agree k m m' \<or> collision p q"
begin

lemma commit_batch_opens:
  assumes "valid k" "\<forall>r\<in>set rs. good r" "length ms \<le> length rs" "\<forall>m\<in>set ms. fits k m"
    and "commit_batch commit rs k ms = (Some cos, k')" "valid l" "same k l"
  shows "list_all2 (\<lambda>m co. \<forall>l. valid l \<longrightarrow> same k l \<longrightarrow> fst (verify l m (fst co) (snd co))) ms cos
     \<and> valid k' \<and> same k k'"
  using assms
proof (induction ms arbitrary: rs k cos)
  case Nil
  then show ?case by (auto intro: same_refl)
next
  case (Cons m ms)
  obtain r rs' where rs: "rs = r # rs'" using Cons.prems(3) by (cases rs) auto
  obtain co k1 cos' where c: "commit r k m = (Some co, k1)"
    "commit_batch commit rs' k1 ms = (Some cos', k')" "cos = co # cos'"
    using Cons.prems(5) by (auto simp: rs split: prod.splits option.splits)
  have g: "good r" using Cons.prems(2) by (simp add: rs)
  have k1: "valid k1" "same k k1" using commit_keeps[OF Cons.prems(1) g, of m] c(1) by auto
  have "\<forall>m\<in>set ms. fits k1 m" using Cons.prems(1,4) same_fits k1 by auto
  moreover have "same k1 l" using k1(2) Cons.prems(7) same_sym same_trans by blast
  ultimately have IH: "list_all2 (\<lambda>m co. \<forall>l. valid l \<longrightarrow> same k1 l \<longrightarrow>
      fst (verify l m (fst co) (snd co))) ms cos' \<and> valid k' \<and> same k1 k'"
    using Cons.IH[OF k1(1) _ _ _ c(2) Cons.prems(6)] Cons.prems(2,3) by (simp add: rs)
  have "fst (verify l m (fst co) (snd co))" if "valid l" "same k l" for l
    using complete[OF Cons.prems(1) that g _ , of m "fst co" "snd co"] Cons.prems(4) c(1) by simp
  moreover have "list_all2 (\<lambda>m co. \<forall>l. valid l \<longrightarrow> same k l \<longrightarrow> fst (verify l m (fst co) (snd co))) ms cos'"
    by (rule list_all2_mono[OF conjunct1[OF IH]]) (use k1(2) same_sym same_trans in blast)
  ultimately show ?case using IH c(3) k1(2) same_trans by auto
qed

lemma verify_batch_accepts:
  assumes "valid l" and "\<And>x l'. x \<in> set xs \<Longrightarrow> valid l' \<Longrightarrow> same l l' \<Longrightarrow>
      fst (verify l' (fst x) (fst (snd x)) (snd (snd x)))"
  shows "fst (verify_batch verify l xs)"
  using assms
proof (induction xs arbitrary: l)
  case (Cons x xs)
  have 1: "fst (verify l (fst x) (fst (snd x)) (snd (snd x)))"
    using Cons.prems same_refl by simp
  define l1 where "l1 = snd (verify l (fst x) (fst (snd x)) (snd (snd x)))"
  have l1: "valid l1" "same l l1" using verify_keeps[OF Cons.prems(1)] by (simp_all add: l1_def)
  have "fst (verify_batch verify l1 xs)"
    by (rule Cons.IH[OF l1(1)]) (use Cons.prems(2) l1(2) same_trans in auto)
  with 1 show ?case by (cases "verify l (fst x) (fst (snd x)) (snd (snd x))") (auto simp: l1_def)
qed simp

lemma batch_complete:
  assumes "valid k" "\<forall>r\<in>set rs. good r" "length ms \<le> length rs" "\<forall>m\<in>set ms. fits k m"
    and "commit_batch commit rs k ms = (Some cos, k')" "valid l" "same k l"
  shows "fst (verify_batch verify l (zip ms cos))"
proof (rule verify_batch_accepts[OF assms(6)])
  fix x l' assume x: "x \<in> set (zip ms cos)" and l': "valid l'" "same l l'"
  have "same k l'" using assms(7) l'(2) same_trans by blast
  with commit_batch_opens[OF assms] x l'(1)
  show "fst (verify l' (fst x) (fst (snd x)) (snd (snd x)))"
    by (auto simp: list_all2_iff)
qed

text \<open>No opening of a commitment to m opens it to another message without a collision.\<close>

lemma commit_binds:
  assumes "valid k" "valid l" "same k l" "good r" "fits k m" "fits l m'"
    and "fst (commit r k m) = Some (c, p)" "fst (verify l m' c q)"
  shows "agree k m m' \<or> collision p q"
  using binding[OF assms(1,2,3,5,6) complete[OF assms(1,1) same_refl assms(4,5,7)] assms(8)] .

end

section \<open>The library is a commitment scheme\<close>

text \<open>One call of each function with buffers of exactly the sizes that hm\_commit\_get\_sizes reports.\<close>

definition commit_call :: "(byte list \<Rightarrow> byte list option) \<Rightarrow> rand_bytes \<Rightarrow>
    hm_context_t \<Rightarrow> byte list \<Rightarrow> (byte list \<times> byte list) option \<times> hm_context_t" where
  "commit_call sha rand c m =
    (case hm_commit sha rand (Some c) (Some m) (Some (replicate (commitment_len (layout c)) 0))
            (Some (replicate (opening_len (layout c)) 0)) of
       (Inr co, Some c') \<Rightarrow> (Some co, c')
     | (Inr co, None) \<Rightarrow> (None, c)
     | (Inl f, Some c') \<Rightarrow> (None, c')
     | (Inl f, None) \<Rightarrow> (None, c))"

definition verify_call :: "(byte list \<Rightarrow> byte list option) \<Rightarrow> hm_context_t \<Rightarrow> byte list \<Rightarrow> byte list \<Rightarrow>
    byte list \<Rightarrow> bool \<times> hm_context_t" where
  "verify_call sha c m cm op =
    (case hm_verify sha (Some c) (Some m) (Some cm) (Some op) of
       (r, Some c') \<Rightarrow> (r = Inr (), c') | (r, None) \<Rightarrow> (False, c))"

definition msg_fits :: "hm_context_t \<Rightarrow> byte list \<Rightarrow> bool" where
  "msg_fits c m \<longleftrightarrow> message_byte_len (layout c) \<le> length m"

definition msg_agree :: "hm_context_t \<Rightarrow> byte list \<Rightarrow> byte list \<Rightarrow> bool" where
  "msg_agree c m m' \<longleftrightarrow> (\<forall>i<message_bit_len c. bbit m i = bbit m' i)"

definition sha_collision :: "(byte list \<Rightarrow> byte list option) \<Rightarrow> byte list \<Rightarrow> byte list \<Rightarrow> bool" where
  "sha_collision sha x y \<longleftrightarrow> x \<noteq> y \<and> sha x = sha y \<and> sha x \<noteq> None"

lemma verify_call_iff:
  assumes "valid_ctx c" "msg_fits c m"
  shows "fst (verify_call sha c m cm op) \<longleftrightarrow> hm_relation sha (message_bit_len c) (ctx_A c) m cm op"
  using hm_verify_decides[OF assms(1) assms(2)[unfolded msg_fits_def], of sha cm op]
    hm_verify_ctx[OF assms(1), of sha "Some m" "Some cm" "Some op"]
  by (auto simp: verify_call_def split: prod.splits option.splits)

lemma verify_call_keeps:
  assumes "valid_ctx c"
  shows "valid_ctx (snd (verify_call sha c m cm op)) \<and> same_matrix c (snd (verify_call sha c m cm op))"
  using hm_verify_ctx[OF assms, of sha "Some m" "Some cm" "Some op"]
  by (auto simp: verify_call_def split: prod.splits option.splits)

lemma commit_call_keeps:
  assumes "valid_ctx c" "rand_ok rand"
  shows "valid_ctx (snd (commit_call sha rand c m)) \<and> same_matrix c (snd (commit_call sha rand c m))"
  using hm_commit_ctx[OF assms, of sha "Some m" "Some (replicate (commitment_len (layout c)) 0)"
      "Some (replicate (opening_len (layout c)) 0)"]
  by (auto simp: commit_call_def split: prod.splits option.splits sum.splits)

lemma commit_call_relation:
  assumes "valid_ctx c" "msg_fits c m" "rand_ok rand" "sha_ok sha"
    and "fst (commit_call sha rand c m) = Some (cm, op)"
  shows "hm_relation sha (message_bit_len c) (ctx_A c) m cm op"
proof -
  let ?r = "hm_commit sha rand (Some c) (Some m) (Some (replicate (commitment_len (layout c)) 0))
      (Some (replicate (opening_len (layout c)) 0))"
  obtain c' where "?r = (Inr (cm, op), c')"
    using assms(5) by (auto simp: commit_call_def split: prod.splits option.splits sum.splits)
  from hm_commit_success[OF assms(1) assms(2)[unfolded msg_fits_def] assms(3,4) this]
  have "length cm = commitment_len (layout c)" "length op = opening_len (layout c)"
    "hm_relation sha (message_bit_len c) (ctx_A c) m
       (take (commitment_len (layout c)) cm) (take (opening_len (layout c)) op)"
    by (simp, simp, elim conjE)
  then show ?thesis by simp
qed

lemma same_matrix_layout:
  "valid_ctx c \<Longrightarrow> valid_ctx d \<Longrightarrow> same_matrix c d \<Longrightarrow> layout c = layout d"
  using valid_ctxD(1)[of c] valid_ctxD(1)[of d] by (simp add: same_matrix_def)

interpretation plain: commitment_scheme valid_ctx same_matrix msg_fits msg_agree
  "\<lambda>r. rand_ok r \<and> sha_ok sha" "commit_call sha" "verify_call sha" "sha_collision sha" for sha
proof unfold_locales
  fix c d and m m' cm p q :: "byte list"
  show "msg_agree c m m' \<or> sha_collision sha p q"
    if "valid_ctx c" "valid_ctx d" "same_matrix c d" "msg_fits c m" "msg_fits d m'"
      "fst (verify_call sha c m cm p)" "fst (verify_call sha d m' cm q)"
  proof -
    have "hm_relation sha (message_bit_len c) (ctx_A c) m cm p"
      "hm_relation sha (message_bit_len c) (ctx_A c) m' cm q"
      using that by (simp_all add: verify_call_iff same_matrix_def)
    from hm_relation_binding[OF this] show ?thesis
      by (simp add: msg_agree_def sha_collision_def)
  qed
  show "fst (verify_call sha d m cm p)"
    if "valid_ctx c" "valid_ctx d" "same_matrix c d" "rand_ok r \<and> sha_ok sha" "msg_fits c m"
      "fst (commit_call sha r c m) = Some (cm, p)" for r
  proof -
    have "msg_fits d m" using that same_matrix_layout by (simp add: msg_fits_def)
    with that show ?thesis
      using commit_call_relation[of c m r sha cm p] by (simp add: verify_call_iff same_matrix_def)
  qed
  show "valid_ctx c \<Longrightarrow> valid_ctx d \<Longrightarrow> same_matrix c d \<Longrightarrow> msg_fits c m \<Longrightarrow> msg_fits d m"
    using same_matrix_layout by (simp add: msg_fits_def)
  show "same_matrix c c" by (simp add: same_matrix_def)
  show "same_matrix c d \<Longrightarrow> same_matrix d c" by (simp add: same_matrix_def)
  show "same_matrix c d \<Longrightarrow> same_matrix d j \<Longrightarrow> same_matrix c j" for j by (simp add: same_matrix_def)
  show "valid_ctx c \<Longrightarrow> rand_ok r \<and> sha_ok sha \<Longrightarrow> valid_ctx (snd (commit_call sha r c m)) \<and>
      same_matrix c (snd (commit_call sha r c m))" for r
    by (rule commit_call_keeps) simp_all
  show "valid_ctx c \<Longrightarrow> valid_ctx (snd (verify_call sha c m cm p)) \<and>
      same_matrix c (snd (verify_call sha c m cm p))"
    by (rule verify_call_keeps)
qed


section \<open>A concrete context\<close>

definition demo_sha :: "byte list \<Rightarrow> byte list option" where
  "demo_sha x = Some (take 32 (x @ replicate 32 0))"

definition demo_rand :: rand_bytes where
  "demo_rand n = Inr (replicate n 5)"

definition demo_heap :: heap where
  "demo_heap = \<lparr>live = [], requests = 0, may_alloc = (\<lambda>_. True)\<rparr>"

definition demo_ctx :: hm_context_t where
  "demo_ctx = \<lparr>message_bit_len = 2, layout = the (compute_sizes 2),
     ctx_A = replicate (toeplitz_matrix_words (the (compute_sizes 2))) 0,
     ctx_r_words = replicate (l_words (the (compute_sizes 2))) 0,
     ctx_block = Some 0, A_block = Some 1, r_block = Some 2\<rparr>"

lemma demo_sizes:
  "compute_sizes 2 = Some (layout demo_ctx)" "message_byte_len (layout demo_ctx) = 1"
  "opening_len (layout demo_ctx) = 129" "commitment_len (layout demo_ctx) = 33"
proof -
  show s: "compute_sizes 2 = Some (layout demo_ctx)"
    by (simp add: demo_ctx_def compute_sizes_def MAX_MSG_BITLEN_def Let_def)
  show "message_byte_len (layout demo_ctx) = 1" "opening_len (layout demo_ctx) = 129"
    "commitment_len (layout demo_ctx) = 33"
    using compute_sizesD[OF s] by simp_all
qed

lemma demo_fields:
  "message_bit_len demo_ctx = 2"
  "ctx_A demo_ctx = replicate (toeplitz_matrix_words (layout demo_ctx)) 0"
  "ctx_r_words demo_ctx = replicate (l_words (layout demo_ctx)) 0"
  by (simp_all add: demo_ctx_def)

lemma demo_ok: "sha_ok demo_sha" "rand_ok demo_rand" "heap_ok demo_heap" "valid_ctx demo_ctx"
proof -
  show "sha_ok demo_sha" "rand_ok demo_rand" "heap_ok demo_heap"
    by (simp_all add: sha_ok_def demo_sha_def rand_ok_def demo_rand_def heap_ok_def demo_heap_def
        min_def)
  have "(toeplitz_matrix_bit_len (layout demo_ctx) + 7) div 8 \<le> 4 * toeplitz_matrix_words (layout demo_ctx)"
    using layout_fits(2)[OF demo_sizes(1)] compute_sizesD(8)[OF demo_sizes(1)] by simp
  from holds_zero[OF this] show "valid_ctx demo_ctx"
    by (intro valid_new_context[OF demo_sizes(1) demo_fields(1) _ demo_fields(3)])
       (simp only: demo_fields(2))
qed

text \<open>A commitment in any valid context for two bits.\<close>

lemma two_bit_commit:
  assumes c: "valid_ctx c" "message_bit_len c = 2"
  obtains cm op c' where "hm_commit demo_sha demo_rand (Some c) (Some [1])
      (Some (replicate 33 0)) (Some (replicate 129 0)) = (Inr (cm, op), Some c')"
    "hm_relation demo_sha 2 (ctx_A c) [1] cm op" "valid_ctx c'" "same_matrix c c'"
proof -
  have L: "layout c = layout demo_ctx"
    using valid_ctxD(1)[OF c(1)] c(2) demo_sizes(1) by simp
  let ?b = "replicate (opening_len (layout c)) 5"
  show ?thesis
  proof (rule hm_commit_run[where c = c and m = "[1]" and cm = "replicate 33 0"
        and op = "replicate 129 0" and rand = demo_rand and bytes = ?b and sha = demo_sha
        and dg = "the (demo_sha (mask_bytes (l_bits (layout c)) ?b))", rotated -1], goal_cases)
    case (1 cm op c')
    then show ?case
      using that[of cm op c'] by (simp add: L demo_sizes(2-) c(2))
  qed (simp_all add: c L demo_sizes(2-), simp_all add: demo_rand_def demo_sha_def min_def)
qed

lemma demo_commit:
  obtains cm op c' where "hm_commit demo_sha demo_rand (Some demo_ctx) (Some [1])
      (Some (replicate 33 0)) (Some (replicate 129 0)) = (Inr (cm, op), Some c')"
    "hm_relation demo_sha 2 (ctx_A demo_ctx) [1] cm op"
  by (rule two_bit_commit[OF demo_ok(4) demo_fields(1)]) blast

section \<open>Properties\<close>

text \<open>C16: hm_verify decides the commitment relation.  In a valid context, for a message that
  has all its bytes, it returns 0 exactly when opening and masked message are canonical bit
  strings of the right lengths, the commitment ends in the SHA-256 digest of the opening, and
  its first bits are the Toeplitz hash of the opening plus the message; it never leaves a buffer.\<close>

theorem hm_verify_iff:
  assumes "valid_ctx c" and "message_byte_len (layout c) \<le> length m"
  shows "(fst (hm_verify sha (Some c) (Some m) (Some cm) (Some op)) = Inr () \<longleftrightarrow>
       hm_relation sha (message_bit_len c) (ctx_A c) m cm op)
     \<and> fst (hm_verify sha (Some c) (Some m) (Some cm) (Some op)) \<noteq> Inl OutOfBounds"
  using hm_verify_decides[OF assms] hm_verify_in_bounds[OF assms] by blast

lemma hm_verify_iff_witness:
  "\<exists>cm op. fst (hm_verify demo_sha (Some demo_ctx) (Some [1]) (Some cm) (Some op)) = Inr () \<and>
     fst (hm_verify demo_sha (Some demo_ctx) (Some [0]) (Some cm) (Some op)) \<noteq> Inr ()"
proof -
  obtain cm op where r: "hm_relation demo_sha 2 (ctx_A demo_ctx) [1] cm op"
    by (rule demo_commit)
  have "bbit [1] 0 \<noteq> bbit [0] 0" by (simp add: bbit_def)
  moreover have "(0::nat) < 2" by simp
  ultimately have "\<not> hm_relation demo_sha 2 (ctx_A demo_ctx) [0] cm op"
    using hm_relation_binding[OF r, of "[0]" op] by blast
  with r show ?thesis
    using hm_verify_iff[OF demo_ok(4), of "[1]" demo_sha cm op]
      hm_verify_iff[OF demo_ok(4), of "[0]" demo_sha cm op]
    by (auto simp: demo_sizes demo_fields(1))
qed

text \<open>C17: A successful hm_commit writes a commitment and an opening that satisfy the commitment
  relation for the message, exactly in the first bytes of the two buffers that the layout
  reports, and keeps every byte behind them.\<close>

theorem hm_commit_correct:
  assumes "valid_ctx c" and "message_byte_len (layout c) \<le> length m" and "rand_ok rand" and "sha_ok sha"
    and "hm_commit sha rand (Some c) (Some m) (Some cm) (Some op) = (Inr (cm', op'), c')"
  shows "hm_relation sha (message_bit_len c) (ctx_A c) m
       (take (commitment_len (layout c)) cm') (take (opening_len (layout c)) op')
     \<and> length cm' = length cm \<and> length op' = length op
     \<and> drop (commitment_len (layout c)) cm' = drop (commitment_len (layout c)) cm
     \<and> drop (opening_len (layout c)) op' = drop (opening_len (layout c)) op"
  using assms by (rule hm_commit_success)

lemma hm_commit_correct_witness:
  "\<exists>cm op c'. hm_commit demo_sha demo_rand (Some demo_ctx) (Some [1]) (Some (replicate 33 0))
      (Some (replicate 129 0)) = (Inr (cm, op), c') \<and>
     hm_relation demo_sha 2 (ctx_A demo_ctx) [1] (take 33 cm) (take 129 op)"
proof (rule demo_commit)
  fix cm op c'
  assume "hm_commit demo_sha demo_rand (Some demo_ctx) (Some [1])
      (Some (replicate 33 0)) (Some (replicate 129 0)) = (Inr (cm, op), Some c')"
  with hm_commit_correct[OF demo_ok(4) _ demo_ok(2,1) this] show ?thesis
    by (auto simp: demo_sizes demo_fields(1))
qed

text \<open>C20: Binding of the plain scheme.  If contexts with the same matrix accept one commitment
  with two openings for two messages, then the messages agree in all committed bits, or the two
  openings are a collision of SHA-256.\<close>

theorem hm_plain_binding:
  assumes "valid_ctx c" "valid_ctx d" "same_matrix c d"
    and "message_byte_len (layout c) \<le> length m" "message_byte_len (layout d) \<le> length m'"
    and "fst (hm_verify sha (Some c) (Some m) (Some cm) (Some op)) = Inr ()"
    and "fst (hm_verify sha (Some d) (Some m') (Some cm) (Some op')) = Inr ()"
  shows "(\<forall>i<message_bit_len c. bbit m i = bbit m' i) \<or> op \<noteq> op' \<and> sha op = sha op'"
proof -
  have "fst (verify_call sha c m cm op)" "fst (verify_call sha d m' cm op')"
    using assms by (auto simp: verify_call_iff msg_fits_def hm_verify_decides)
  with plain.binding[OF assms(1-3), of m m' sha cm op op'] assms(4,5) show ?thesis
    by (auto simp: msg_fits_def msg_agree_def sha_collision_def)
qed

lemma hm_plain_binding_witness:
  "\<exists>cm op. fst (hm_verify demo_sha (Some demo_ctx) (Some [1]) (Some cm) (Some op)) = Inr () \<and>
     ((\<forall>i<2. bbit [1] i = bbit [1, 7] i) \<or> op \<noteq> op \<and> demo_sha op = demo_sha op)"
proof -
  obtain cm op where r: "hm_relation demo_sha 2 (ctx_A demo_ctx) [1] cm op"
    by (rule demo_commit)
  moreover have "bbit [1, 7] i = bbit [1] i" if "i < 2" for i
    using that by (simp add: bbit_def)
  then have "hm_relation demo_sha 2 (ctx_A demo_ctx) [1, 7] cm op"
    using r by (auto simp: hm_relation_def split: option.splits)
  ultimately have a: "fst (hm_verify demo_sha (Some demo_ctx) (Some [1]) (Some cm) (Some op)) = Inr ()"
    "fst (hm_verify demo_sha (Some demo_ctx) (Some [1, 7]) (Some cm) (Some op)) = Inr ()"
    by (simp_all add: hm_verify_decides demo_ok demo_sizes demo_fields(1))
  from hm_plain_binding[OF demo_ok(4,4) _ _ _ a] a show ?thesis
    by (auto simp: same_matrix_def demo_sizes demo_fields(1))
qed

text \<open>C24: No call of hm_commit or hm_verify depends on the earlier ones.  Every branch, failures
  included, leaves a valid context with the same matrix: if RAND_bytes fails, the scratch vector
  holds whatever the call left in it, and only the padding behind it is known to be zero.  In two
  valid contexts with one matrix, whatever their scratch vectors hold, hm_commit with the same
  random bytes and hm_verify return the same.\<close>

theorem hm_calls_keep_context:
  assumes "valid_ctx c" and "rand_ok rand"
  shows "(\<exists>c'. snd (hm_commit sha rand (Some c) m cm op) = Some c' \<and> valid_ctx c' \<and> same_matrix c c')
     \<and> (\<exists>c'. snd (hm_verify sha (Some c) m cm op) = Some c' \<and> valid_ctx c' \<and> same_matrix c c')
     \<and> (\<forall>e. valid_ctx e \<and> same_matrix c e \<longrightarrow>
          fst (hm_commit sha rand (Some e) m cm op) = fst (hm_commit sha rand (Some c) m cm op) \<and>
          fst (hm_verify sha (Some e) m cm op) = fst (hm_verify sha (Some c) m cm op))"
  using hm_commit_ctx[OF assms] hm_verify_ctx[OF assms(1)] calls_ignore_scratch[OF assms(1) _ _ assms(2)] by blast

text \<open>A draw that fails after it has written all ones.\<close>

lemma hm_calls_keep_context_witness:
  "(\<exists>c'. snd (hm_commit demo_sha (\<lambda>n. Inl (replicate n 0xFF)) (Some demo_ctx) (Some [1]) (Some (replicate 33 0))
         (Some (replicate 129 0))) = Some c' \<and> valid_ctx c' \<and> same_matrix demo_ctx c' \<and>
       fst (hm_verify demo_sha (Some c') (Some [1]) (Some [0]) None) =
       fst (hm_verify demo_sha (Some demo_ctx) (Some [1]) (Some [0]) None))"
proof -
  have r: "rand_ok (\<lambda>n. Inl (replicate n 0xFF))" by (simp add: rand_ok_def)
  from hm_calls_keep_context[OF demo_ok(4) r, of demo_sha "Some [1]" "Some (replicate 33 0)" "Some (replicate 129 0)"]
    hm_calls_keep_context[OF demo_ok(4) r, of demo_sha "Some [1]" "Some [0]" None]
  show ?thesis by blast
qed

text \<open>C32: The sizes of a layout, for every supported message length.  The opening and the matrix
  description fit their word arrays, every window of the last row lies inside the matrix, the
  commitment holds the masked message and the digest, and every length that the code casts to int
  or multiplies by 4 stays below 2^31.\<close>

theorem compute_sizes_bounds:
  assumes "compute_sizes n = Some L"
  shows "0 < n \<and> n \<le> 10000000 \<and> l_bits L = 4 * 256 + 2 * n + 4 \<and>
     opening_len L \<le> 4 * l_words L \<and> toeplitz_matrix_len L \<le> 4 * toeplitz_matrix_words L \<and>
     (n - 1) div 32 + (l_words L - 1) + 1 < toeplitz_matrix_words L \<and>
     commitment_len L = (n + 7) div 8 + 32 \<and> 4 * toeplitz_matrix_words L < 2 ^ 31"
proof -
  note d = compute_sizesD[OF assms] and f = layout_fits[OF assms]
  have n: "n \<le> 10000000" using d(2) by (simp add: MAX_MSG_BITLEN_def)
  have w: "0 < l_words L" using d(4,6) by (simp add: div_greater_zero_iff)
  have "l_words L \<le> (2 * 10000000 + 1028 + 31) div 32"
    unfolding d(6) d(4) using n by (intro div_le_mono) simp
  moreover have "(n - 1) div 32 \<le> 10000000 div 32" using n by (intro div_le_mono) simp
  ultimately have "4 * toeplitz_matrix_words L < 2 ^ 31" unfolding d(9) by simp
  then show ?thesis using d f n w by simp
qed

lemma compute_sizes_bounds_witness:
  "\<exists>L. compute_sizes 10000000 = Some L \<and> 4 * toeplitz_matrix_words L < 2 ^ 31"
proof -
  obtain L where "compute_sizes 10000000 = Some L"
    by (simp add: compute_sizes_def MAX_MSG_BITLEN_def Let_def)
  with compute_sizes_bounds[OF this] show ?thesis by blast
qed


section \<open>Contexts from creation to release\<close>

lemma owns_here: "heap_ok h \<Longrightarrow> owns h (set (live h)) []"
  by (simp add: owns_Nil)

text \<open>What the caller of a constructor can rely on: -1 and no new block, or 0 and a context whose
  release leaves the blocks of base.\<close>

definition released :: "nat set \<Rightarrow> hm_context_t option \<times> int \<Rightarrow> heap \<Rightarrow> bool" where
  "released base p h \<longleftrightarrow> (case fst p of None \<Rightarrow> snd p = -1 \<and> set (live h) = base
     | Some c \<Rightarrow> snd p = 0 \<and> (\<exists>h'. hm_context_free (Some c) h = Inr ((), h') \<and> set (live h') = base))"

lemma ctx_result_free:
  assumes "ctx_result base h p"
  shows "released base p h"
proof (cases "fst p")
  case None
  with assms show ?thesis by (simp add: ctx_result_def owns_Nil released_def)
next
  case (Some c)
  then have "owns h base ([r_block c, A_block c, ctx_block c] @ [])" "snd p = 0"
    using assms by (simp_all add: ctx_result_def)
  moreover from hm_context_free_run[OF this(1)] obtain h' where
    "hm_context_free (Some c) h = Inr ((), h')" "owns h' base []" by metis
  ultimately show ?thesis using Some by (auto simp: owns_Nil released_def)
qed

text \<open>C25: Contexts neither leak nor are freed twice.  Whatever allocations fail and whether or not
  RAND_bytes fails, hm_context_create and hm_context_from_matrix return 0 with a context whose
  release by hm_context_free gives back exactly the blocks of the call, or -1 with no block
  allocated; no free of an unallocated block occurs.\<close>

theorem hm_context_no_leak:
  assumes "heap_ok h" and "rand_ok rand"
  shows "(\<exists>p h1. hm_context_create rand n out h = Inr (p, h1) \<and> released (set (live h)) p h1)
     \<and> (\<exists>p h1. hm_context_from_matrix n (Some M) out h = Inr (p, h1) \<and> released (set (live h)) p h1)"
proof -
  obtain p h1 where "hm_context_create rand n out h = Inr (p, h1)" "ctx_result (set (live h)) h1 p"
    using hm_context_create_run[OF owns_here[OF assms(1)] assms(2)] by metis
  moreover obtain q h2 where "hm_context_from_matrix n (Some M) out h = Inr (q, h2)"
    "ctx_result (set (live h)) h2 q"
    using hm_context_from_matrix_run[OF owns_here[OF assms(1)]] by metis
  ultimately show ?thesis using ctx_result_free by blast
qed

lemma hm_context_no_leak_witness:
  "\<exists>p h1. hm_context_create demo_rand 2 True (demo_heap\<lparr>may_alloc := \<lambda>k. k \<noteq> 1\<rparr>) = Inr (p, h1) \<and>
     released {} p h1"
proof -
  have "heap_ok (demo_heap\<lparr>may_alloc := \<lambda>k. k \<noteq> 1\<rparr>)" "set (live (demo_heap\<lparr>may_alloc := \<lambda>k. k \<noteq> 1\<rparr>)) = {}"
    by (simp_all add: heap_ok_def demo_heap_def)
  with hm_context_no_leak[OF this(1) demo_ok(2), of 2 True] show ?thesis by metis
qed

text \<open>The matrix description determines the matrix.\<close>

lemma from_matrix_of_export:
  assumes c: "valid_ctx c" and exp: "hm_context_export_matrix (Some c) (Some out) = Inr M"
    and len: "length out = toeplitz_matrix_len (layout c)" and "heap_ok h"
    and run: "hm_context_from_matrix (message_bit_len c) (Some M) b h = Inr ((Some d, rc), h')"
  shows "valid_ctx d \<and> same_matrix c d"
proof -
  have "toeplitz_matrix_len (layout c) \<le> length out" using len by simp
  from export_run[OF c this] obtain N where N: "hm_context_export_matrix (Some c) (Some out) = Inr (memcpy out N)"
    "length N = toeplitz_matrix_len (layout c)" "ctx_A c = pad_words (toeplitz_matrix_words (layout c)) N"
    by metis
  have M: "M = N" using N exp len by (simp add: memcpy_def)
  obtain p h1 where "hm_context_from_matrix (message_bit_len c) (Some M) b h = Inr (p, h1)"
    "\<And>c'. fst p = Some c' \<Longrightarrow> message_bit_len c' = message_bit_len c \<and> valid_ctx c' \<and>
       canonical (toeplitz_matrix_bit_len (layout c')) M \<and>
       ctx_A c' = pad_words (toeplitz_matrix_words (layout c')) M"
    using hm_context_from_matrix_run[OF owns_here[OF \<open>heap_ok h\<close>]] by metis
  then have d: "message_bit_len d = message_bit_len c" "valid_ctx d"
    "ctx_A d = pad_words (toeplitz_matrix_words (layout d)) M"
    using run by auto
  have "layout d = layout c" using valid_ctxD(1)[OF c] valid_ctxD(1)[OF d(2)] d(1) by simp
  then show ?thesis using d M N(3) by (simp add: same_matrix_def)
qed

text \<open>C23: A batch from sender to receiver.  The sender creates a context with a random matrix,
  commits to a list of messages and exports the matrix; the receiver imports it and verifies
  every message against its commitment and opening: if the sender's calls succeed, every
  verification succeeds, whatever randomness was drawn.\<close>

theorem batch_roundtrip:
  assumes "heap_ok h" and "rand_ok r0" and "\<forall>r\<in>set rs. rand_ok r" and "sha_ok sha"
    and "length ms \<le> length rs" and "\<forall>m\<in>set ms. (n + 7) div 8 \<le> length m"
    and "hm_context_create r0 n True h = Inr ((Some c, 0), h1)"
    and "commit_batch (commit_call sha) rs c ms = (Some cos, c')"
    and "hm_context_export_matrix (Some c') (Some (replicate (toeplitz_matrix_len (layout c')) 0)) = Inr M"
    and "heap_ok h2" and "hm_context_from_matrix n (Some M) True h2 = Inr ((Some d, 0), h3)"
  shows "fst (verify_batch (verify_call sha) d (zip ms cos))"
proof -
  obtain p h' where "hm_context_create r0 n True h = Inr (p, h')"
    "\<And>c. fst p = Some c \<Longrightarrow> message_bit_len c = n \<and> valid_ctx c"
    using hm_context_create_run[OF owns_here[OF assms(1)] assms(2)] by metis
  with assms(7) have c: "message_bit_len c = n" "valid_ctx c" by auto
  have fits: "\<forall>m\<in>set ms. msg_fits c m"
    using assms(6) compute_sizesD(3)[OF valid_ctxD(1)[OF c(2)]] c(1) by (simp add: msg_fits_def)
  have good: "\<forall>r\<in>set rs. rand_ok r \<and> sha_ok sha" using assms(3,4) by simp
  have c': "valid_ctx c'" "same_matrix c c'"
    using plain.commit_batch_opens[OF c(2) good assms(5) fits assms(8) c(2) plain.same_refl] by auto
  have n': "message_bit_len c' = n" using c' c(1) by (simp add: same_matrix_def)
  have "valid_ctx d \<and> same_matrix c' d"
    by (rule from_matrix_of_export[OF c'(1) assms(9) _ assms(10)])
       (use assms(11) n' in \<open>simp_all\<close>)
  then have d: "valid_ctx d" "same_matrix c d" using c'(2) by (auto simp: same_matrix_def)
  show ?thesis
    by (rule plain.batch_complete[OF c(2) good assms(5) fits assms(8) d])
qed

lemma batch_roundtrip_witness:
  "\<exists>d cos. length cos = 1 \<and> fst (verify_batch (verify_call demo_sha) d (zip [[1]] cos))"
proof -
  have "\<exists>c h1. hm_context_create demo_rand 2 True demo_heap = Inr ((Some c, 0), h1)"
    using demo_sizes(1) by (simp add: hm_context_create_def context_allocate_def malloc_def
        demo_heap_def demo_rand_def Let_def bnd_def ret_def)
  then obtain c h1 where create: "hm_context_create demo_rand 2 True demo_heap = Inr ((Some c, 0), h1)"
    by blast
  obtain p h' where "hm_context_create demo_rand 2 True demo_heap = Inr (p, h')"
    "\<And>c. fst p = Some c \<Longrightarrow> message_bit_len c = 2 \<and> valid_ctx c"
    using hm_context_create_run[OF owns_here[OF demo_ok(3)] demo_ok(2)] by metis
  with create have c: "valid_ctx c" "message_bit_len c = 2" by auto
  have L: "layout c = layout demo_ctx" using valid_ctxD(1)[OF c(1)] c(2) demo_sizes(1) by simp
  obtain cm op c' where commit: "hm_commit demo_sha demo_rand (Some c) (Some [1])
      (Some (replicate 33 0)) (Some (replicate 129 0)) = (Inr (cm, op), Some c')"
    "valid_ctx c'" "same_matrix c c'" by (rule two_bit_commit[OF c])
  then have batch: "commit_batch (commit_call demo_sha) [demo_rand] c [[1]] = (Some [(cm, op)], c')"
    by (simp add: commit_call_def L demo_sizes)
  have L': "layout c' = layout demo_ctx"
    using same_matrix_layout[OF c(1) commit(2,3)] L by simp
  let ?out = "replicate (toeplitz_matrix_len (layout c')) 0"
  obtain M where M: "hm_context_export_matrix (Some c') (Some ?out) = Inr (memcpy ?out M)"
    "canonical (toeplitz_matrix_bit_len (layout c')) M" "length M = toeplitz_matrix_len (layout c')"
    using export_run[OF commit(2), of ?out] by auto
  then have exp: "hm_context_export_matrix (Some c') (Some ?out) = Inr M" by (simp add: memcpy_def)
  have "M ! (length M - 1) AND NOT (last_byte_mask (toeplitz_matrix_bit_len (layout demo_ctx))) = 0"
    using last_byte_canonical[of "toeplitz_matrix_bit_len (layout demo_ctx)" M] M L'
      compute_sizesD(7,8)[OF demo_sizes(1)] by simp
  then have "\<exists>d h3. hm_context_from_matrix 2 (Some M) True demo_heap = Inr ((Some d, 0), h3)"
    using demo_sizes(1) M(3) L' by (simp add: hm_context_from_matrix_def context_allocate_def malloc_def
        demo_heap_def Let_def bnd_def ret_def)
  then obtain d h3 where imp: "hm_context_from_matrix 2 (Some M) True demo_heap = Inr ((Some d, 0), h3)"
    by blast
  from batch_roundtrip[OF demo_ok(3,2) _ demo_ok(1) _ _ create batch exp demo_ok(3) imp] demo_ok(2)
  show ?thesis by (intro exI[of _ d] exI[of _ "[(cm, op)]"]) simp
qed

end
