(* ===== verification/Example_Batch.thy ===== *)
theory Example_Batch
  imports HM_Scheme
begin

unbundle bit_operations_syntax

text \<open>
  examples/commit\_batch.c and examples/commit\_batch.cpp as whole programs: the
  sizes, the three arrays, the two contexts, the loops and every way out.  The
  C program jumps to one cleanup label, the C++ program leaves scopes whose
  destructors release what was constructed.  Printing is left out, and the
  arrays hold zeros before the calls overwrite them.
\<close>

section \<open>The shared middle: both contexts and both loops\<close>

definition COUNT :: nat where
  "COUNT = 100"

definition batch_messages :: "byte list list" where
  "batch_messages = map (\<lambda>i. [of_nat i AND 3]) [0..<COUNT]"

text \<open>
  From the creation of the sender's context to the last verification.  finish
  is the way out; recv0 is what the variable of the receiver holds before it
  is initialised.
\<close>

definition batch_exchange :: "(byte list \<Rightarrow> byte list option) \<Rightarrow> rand_bytes \<Rightarrow>
    rand_bytes list \<Rightarrow> hm_context_t option \<Rightarrow> hm_commit_sizes_t \<Rightarrow>
    (hm_context_t option \<Rightarrow> hm_context_t option \<Rightarrow> int \<Rightarrow> (heap, int) prog) \<Rightarrow> (heap, int) prog" where
  "batch_exchange sha rand rs recv0 sizes finish =
    bnd (hm_context_create rand 2 True) (\<lambda>(sender, rc).
    (case sender of None \<Rightarrow> finish recv0 None 1 | Some s \<Rightarrow>
    if rc \<noteq> 0 then finish recv0 (Some s) 1 else
    (case commit_batch (commit_call sha) rs s batch_messages of
      (None, s) \<Rightarrow> finish recv0 (Some s) 1
    | (Some cos, s) \<Rightarrow>
      (case hm_context_export_matrix (Some s) (Some (replicate (out_toeplitz_matrix_len sizes) 0)) of
         Inl f \<Rightarrow> finish recv0 (Some s) 1
       | Inr matrix \<Rightarrow>
         bnd (hm_context_from_matrix 2 (Some matrix) True) (\<lambda>(receiver, rc).
         (case receiver of None \<Rightarrow> finish None (Some s) 1 | Some r \<Rightarrow>
         if rc \<noteq> 0 then finish (Some r) (Some s) 1 else
         (case verify_batch (verify_call sha) r (zip batch_messages cos) of
           (False, r) \<Rightarrow> finish (Some r) (Some s) 1
         | (True, r) \<Rightarrow> finish (Some r) (Some s) 0)))))))"

section \<open>The C program\<close>

text \<open>The label cleanup.\<close>

definition batch_cleanup :: "nat option \<Rightarrow> nat option \<Rightarrow> nat option \<Rightarrow> hm_context_t option \<Rightarrow>
    hm_context_t option \<Rightarrow> int \<Rightarrow> (heap, int) prog" where
  "batch_cleanup matrix commitments openings receiver sender rc =
    bnd (hm_context_free receiver) (\<lambda>_. bnd (hm_context_free sender) (\<lambda>_.
    bnd (free_block matrix) (\<lambda>_. bnd (free_block commitments) (\<lambda>_.
    bnd (free_block openings) (\<lambda>_. ret rc)))))"

text \<open>junk\_s and junk\_r are what the two context variables hold before their declarations are reached.\<close>

definition commit_batch_main :: "(byte list \<Rightarrow> byte list option) \<Rightarrow> rand_bytes \<Rightarrow>
    rand_bytes list \<Rightarrow> hm_context_t option \<Rightarrow> hm_context_t option \<Rightarrow> (heap, int) prog" where
  "commit_batch_main sha rand rs junk_s junk_r =
    (case hm_commit_get_sizes 2
        (Some \<lparr>out_commitment_len = 0, out_opening_len = 0, out_toeplitz_matrix_len = 0\<rparr>) of
       (None, rc) \<Rightarrow> batch_cleanup None None None junk_r junk_s 1
     | (Some sizes, rc) \<Rightarrow>
       if rc \<noteq> 0 then batch_cleanup None None None junk_r junk_s 1 else
       bnd malloc (\<lambda>matrix. bnd malloc (\<lambda>commitments. bnd malloc (\<lambda>openings.
       if matrix = None \<or> commitments = None \<or> openings = None
       then batch_cleanup matrix commitments openings junk_r None 1
       else batch_exchange sha rand rs junk_r sizes (batch_cleanup matrix commitments openings)))))"

section \<open>The C++ program\<close>

text \<open>A std::vector; the exception of a failed allocation is not caught.\<close>

definition vector :: "(nat option \<Rightarrow> (heap, int) prog) \<Rightarrow> (heap, int) prog" where
  "vector rest = bnd malloc (\<lambda>p. if p = None then throw NoMemory else rest p)"

text \<open>return: the destructors run in the reverse order of construction.\<close>

definition leave_scope :: "nat option \<Rightarrow> nat option \<Rightarrow> nat option \<Rightarrow> hm_context_t option \<Rightarrow>
    hm_context_t option \<Rightarrow> int \<Rightarrow> (heap, int) prog" where
  "leave_scope matrix commitments openings receiver sender rc =
    bnd (hm_context_free receiver) (\<lambda>_. bnd (hm_context_free sender) (\<lambda>_.
    bnd (free_block openings) (\<lambda>_. bnd (free_block commitments) (\<lambda>_.
    bnd (free_block matrix) (\<lambda>_. ret rc)))))"

definition commit_batch_cpp_main :: "(byte list \<Rightarrow> byte list option) \<Rightarrow> rand_bytes \<Rightarrow>
    rand_bytes list \<Rightarrow> (heap, int) prog" where
  "commit_batch_cpp_main sha rand rs =
    (case hm_commit_get_sizes 2
        (Some \<lparr>out_commitment_len = 0, out_opening_len = 0, out_toeplitz_matrix_len = 0\<rparr>) of
       (None, rc) \<Rightarrow> ret 1
     | (Some sizes, rc) \<Rightarrow>
       if rc \<noteq> 0 then ret 1 else
       vector (\<lambda>matrix. vector (\<lambda>commitments. vector (\<lambda>openings.
       batch_exchange sha rand rs None sizes (leave_scope matrix commitments openings)))))"

section \<open>What the exchange leaves to the way out\<close>

definition ctx_blocks :: "hm_context_t option \<Rightarrow> nat option list" where
  "ctx_blocks c = (case c of None \<Rightarrow> [] | Some c \<Rightarrow> [r_block c, A_block c, ctx_block c])"

text \<open>The calls of the loops keep the blocks of their context.\<close>

lemma commit_call_blocks: "ctx_blocks (Some (snd (commit_call sha rand c m))) = ctx_blocks (Some c)"
  by (auto simp: commit_call_def hm_commit_def ctx_blocks_def Let_def split: option.splits sum.splits prod.splits)

lemma verify_call_blocks: "ctx_blocks (Some (snd (verify_call sha c m cm op))) = ctx_blocks (Some c)"
  by (auto simp: verify_call_def hm_verify_def ctx_blocks_def Let_def split: option.splits prod.splits)

lemma commit_batch_blocks:
  "commit_batch (commit_call sha) rs c ms = (r, c') \<Longrightarrow> ctx_blocks (Some c') = ctx_blocks (Some c)"
proof (induction ms arbitrary: rs c r c')
  case (Cons m ms)
  obtain q c1 where q: "commit_call sha (hd rs) c m = (q, c1)" by (cases "commit_call sha (hd rs) c m")
  then have "ctx_blocks (Some c1) = ctx_blocks (Some c)" using commit_call_blocks[of sha "hd rs" c m] by simp
  with Cons q show ?case by (fastforce split: option.splits prod.splits)
qed simp

lemma verify_batch_blocks:
  "verify_batch (verify_call sha) c xs = (r, c') \<Longrightarrow> ctx_blocks (Some c') = ctx_blocks (Some c)"
proof (induction xs arbitrary: c r c')
  case (Cons x xs)
  let ?v = "verify_call sha c (fst x) (fst (snd x)) (snd (snd x))"
  obtain q c1 where q: "?v = (q, c1)" by (cases ?v)
  then have "ctx_blocks (Some c1) = ctx_blocks (Some c)"
    using verify_call_blocks[of sha c "fst x" "fst (snd x)" "snd (snd x)"] by simp
  with Cons q show ?case by (fastforce split: bool.splits)
qed simp

lemma owns_split: "owns h base ps \<Longrightarrow> owns h (base \<union> blocks ps) []"
  by (simp add: owns_def)

lemma owns_join:
  assumes "owns h (base \<union> blocks ps) qs" and "base \<inter> blocks ps = {}" "distinct (filter (\<lambda>p. p \<noteq> None) ps)"
  shows "owns h base (qs @ ps)"
proof -
  have "set (filter (\<lambda>p. p \<noteq> None) qs) \<inter> set (filter (\<lambda>p. p \<noteq> None) ps) = {}"
    using assms(1) by (auto simp: owns_def blocks_def)
  with assms show ?thesis by (auto simp: owns_def)
qed

text \<open>When every request and every random call succeeds, so do the calls of the library.\<close>

lemma create_succeeds:
  assumes "\<forall>k. may_alloc h k" and "compute_sizes n = Some L" "rand (toeplitz_matrix_len L) = Inr bs"
  shows "\<exists>c h1. hm_context_create rand n True h = Inr ((Some c, 0), h1) \<and> may_alloc h1 = may_alloc h"
  using assms by (simp add: hm_context_create_def context_allocate_def malloc_def Let_def bnd_def ret_def)

lemma from_matrix_succeeds:
  assumes "\<forall>k. may_alloc h k" and "compute_sizes n = Some L" "length M = toeplitz_matrix_len L"
    and "canonical (toeplitz_matrix_bit_len L) M"
  shows "\<exists>d h1. hm_context_from_matrix n (Some M) True h = Inr ((Some d, 0), h1)"
proof -
  have "M ! (length M - 1) AND NOT (last_byte_mask (toeplitz_matrix_bit_len L)) = 0"
    using last_byte_canonical[of "toeplitz_matrix_bit_len L" M] assms(3,4) compute_sizesD(7,8)[OF assms(2)] by simp
  with assms show ?thesis
    by (simp add: hm_context_from_matrix_def context_allocate_def malloc_def Let_def bnd_def ret_def)
qed

definition draws :: "rand_bytes \<Rightarrow> bool" where
  "draws rand \<longleftrightarrow> (\<forall>n. \<exists>bytes. rand n = Inr bytes)"

lemma commit_call_succeeds:
  assumes "valid_ctx c" "msg_fits c m" "rand_ok rand" "draws rand" "sha_ok sha" "\<forall>x. sha x \<noteq> None"
  shows "fst (commit_call sha rand c m) \<noteq> None"
proof -
  let ?L = "layout c"
  obtain bytes where b: "rand (opening_len ?L) = Inr bytes" using assms(4) by (auto simp: draws_def)
  obtain dg where d: "sha (mask_bytes (l_bits ?L) bytes) = Some dg" using assms(6) by blast
  have "length bytes = opening_len ?L" "length dg = 32" using rand_okD(2)[OF assms(3) b] assms(5) d by (auto simp: sha_ok_def)
  note run = hm_commit_run[where rand = rand and sha = sha and cm = "replicate (commitment_len ?L) 0"
      and op = "replicate (opening_len ?L) 0", OF assms(1) assms(2)[unfolded msg_fits_def] _ _ b this(1) d this(2)]
  have "\<exists>cm op c'. hm_commit sha rand (Some c) (Some m) (Some (replicate (commitment_len ?L) 0))
      (Some (replicate (opening_len ?L) 0)) = (Inr (cm, op), Some c')"
    by (rule run) (simp, simp, blast)
  then show ?thesis by (auto simp: commit_call_def)
qed

lemma commit_batch_succeeds:
  assumes "valid_ctx c" "\<forall>m\<in>set ms. msg_fits c m" "\<forall>r\<in>set rs. rand_ok r \<and> draws r" "length ms \<le> length rs"
    and "sha_ok sha" "\<forall>x. sha x \<noteq> None"
  shows "fst (commit_batch (commit_call sha) rs c ms) \<noteq> None"
  using assms(1-4)
proof (induction ms arbitrary: rs c)
  case (Cons m ms)
  obtain r rs' where rs: "rs = r # rs'" using Cons.prems(4) by (cases rs) auto
  have r: "rand_ok r" "draws r" using Cons.prems(3) by (simp_all add: rs)
  have "msg_fits c m" using Cons.prems(2) by simp
  from commit_call_succeeds[OF Cons.prems(1) this r assms(5,6)]
  obtain co c1 where co: "commit_call sha r c m = (Some co, c1)"
    by (cases "commit_call sha r c m") (simp, blast)
  have c1: "valid_ctx c1" "same_matrix c c1" using commit_call_keeps[OF Cons.prems(1) r(1), of sha m] co by auto
  have "\<forall>m\<in>set ms. msg_fits c1 m" using Cons.prems(2) same_matrix_layout[OF Cons.prems(1) c1] by (simp add: msg_fits_def)
  from Cons.IH[OF c1(1) this, of rs'] Cons.prems(3,4)
  have "fst (commit_batch (commit_call sha) rs' c1 ms) \<noteq> None" by (simp add: rs)
  then show ?case by (auto simp: rs co split: option.splits prod.splits)
qed simp

lemma messages_fit:
  assumes "valid_ctx c" "message_bit_len c = 2"
  shows "\<forall>m\<in>set batch_messages. msg_fits c m" "layout c = layout demo_ctx"
proof -
  show L: "layout c = layout demo_ctx" using valid_ctxD(1)[OF assms(1)] assms(2) demo_sizes(1) by simp
  show "\<forall>m\<in>set batch_messages. msg_fits c m"
    by (simp add: msg_fits_def L demo_sizes(2) batch_messages_def)
qed

definition nothing_fails :: "(byte list \<Rightarrow> byte list option) \<Rightarrow> rand_bytes \<Rightarrow>
    rand_bytes list \<Rightarrow> heap \<Rightarrow> bool" where
  "nothing_fails sha rand rs h \<longleftrightarrow> (\<forall>k. may_alloc h k) \<and> draws rand \<and> (\<forall>r\<in>set rs. draws r) \<and> (\<forall>x. sha x \<noteq> None)"

text \<open>The program reaches its way out with the contexts' blocks and, if nothing failed, code 0.\<close>

definition leaves :: "nat set \<Rightarrow> bool \<Rightarrow> (hm_context_t option \<Rightarrow> hm_context_t option \<Rightarrow> int \<Rightarrow> (heap, int) prog) \<Rightarrow>
    fault + int \<times> heap \<Rightarrow> bool" where
  "leaves base fine finish res \<longleftrightarrow> (\<exists>receiver sender rc h. res = finish receiver sender rc h \<and>
     owns h base (ctx_blocks receiver @ ctx_blocks sender) \<and> (rc = 0 \<or> rc = 1) \<and> (fine \<longrightarrow> rc = 0))"

lemma leavesI:
  "owns h base (ctx_blocks receiver @ ctx_blocks sender) \<Longrightarrow> rc = 0 \<or> rc = 1 \<Longrightarrow> (fine \<Longrightarrow> rc = 0) \<Longrightarrow>
   leaves base fine finish (finish receiver sender rc h)"
  unfolding leaves_def by blast

text \<open>After the sender's loop: export, import and the receiver's loop.\<close>

lemma exchange_receives:
  assumes s: "valid_ctx c" "message_bit_len c = 2" and good: "\<forall>r\<in>set rs. rand_ok r \<and> sha_ok sha" "COUNT \<le> length rs"
    and batch: "commit_batch (commit_call sha) rs c batch_messages = (Some cos, c')"
    and own: "owns h base (ctx_blocks (Some c))"
    and len: "out_toeplitz_matrix_len sizes = toeplitz_matrix_len (layout demo_ctx)"
  shows "\<exists>M. hm_context_export_matrix (Some c') (Some (replicate (out_toeplitz_matrix_len sizes) 0)) = Inr M \<and>
     (\<exists>q h'. hm_context_from_matrix 2 (Some M) True h = Inr (q, h') \<and>
        (case fst q of None \<Rightarrow> (\<exists>k. \<not> may_alloc h k) \<and> owns h' base (ctx_blocks (Some c'))
         | Some r \<Rightarrow> snd q = 0 \<and> fst (verify_batch (verify_call sha) r (zip batch_messages cos)) \<and>
             owns h' base (ctx_blocks (Some r) @ ctx_blocks (Some c'))))"
proof -
  note fits = messages_fit(1)[OF s]
  have l: "length batch_messages \<le> length rs" using good(2) by (simp add: batch_messages_def)
  from plain.commit_batch_opens[OF s(1) good(1) l fits batch s(1) plain.same_refl]
  have c': "valid_ctx c'" "same_matrix c c'" by simp_all
  have n': "message_bit_len c' = 2" using c'(2) s(2) by (simp add: same_matrix_def)
  note L = messages_fit(2)[OF c'(1) n']
  let ?out = "replicate (out_toeplitz_matrix_len sizes) 0"
  have cap: "toeplitz_matrix_len (layout c') \<le> length ?out" by (simp add: L len)
  from export_run[OF c'(1) cap] obtain M where M: "hm_context_export_matrix (Some c') (Some ?out) = Inr (memcpy ?out M)"
    "canonical (toeplitz_matrix_bit_len (layout c')) M" "length M = toeplitz_matrix_len (layout c')" by metis
  then have exp: "hm_context_export_matrix (Some c') (Some ?out) = Inr M" by (simp add: memcpy_def L len)
  have blk: "ctx_blocks (Some c') = ctx_blocks (Some c)" by (rule commit_batch_blocks[OF batch])
  let ?base = "base \<union> blocks (ctx_blocks (Some c))"
  from hm_context_from_matrix_run[OF owns_split[OF own], of 2 M True] obtain q h' where
    q: "hm_context_from_matrix 2 (Some M) True h = Inr (q, h')" "ctx_result ?base h' q" by metis
  have join: "owns h' base (qs @ ctx_blocks (Some c'))" if "owns h' ?base qs" for qs
    unfolding blk by (rule owns_join[OF that]) (use own in \<open>simp_all add: owns_def\<close>)
  show ?thesis
  proof (cases "fst q")
    case None
    then have o: "owns h' ?base []" using q(2) by (simp add: ctx_result_def)
    have a: "\<exists>k. \<not> may_alloc h k"
    proof (rule ccontr)
      assume "\<not> (\<exists>k. \<not> may_alloc h k)"
      then have "\<forall>k. may_alloc h k" by simp
      from from_matrix_succeeds[OF this demo_sizes(1) M(3,2)[unfolded L]] q(1) None show False by auto
    qed
    show ?thesis
      by (intro exI conjI, rule exp, rule q(1)) (use None join[OF o] a in simp)
  next
    case (Some r)
    then have qr: "q = (Some r, 0)" "owns h' ?base (ctx_blocks (Some r))"
      using q(2) by (cases q, simp_all add: ctx_result_def ctx_blocks_def)
    have ok: "heap_ok h" using own by (simp add: owns_def)
    have "valid_ctx r \<and> same_matrix c' r"
      by (rule from_matrix_of_export[where b = True, OF c'(1) exp _ ok]) (use q(1) qr n' in \<open>simp_all add: L len\<close>)
    then have "valid_ctx r" "same_matrix c r" using c'(2) by (auto simp: same_matrix_def)
    note v = plain.batch_complete[OF s(1) good(1) l fits batch this]
    show ?thesis
      by (intro exI conjI, rule exp, rule q(1)) (use qr join[OF qr(2)] v in simp)
  qed
qed

text \<open>After the creation of the sender's context.\<close>

lemma exchange_sends:
  assumes create: "hm_context_create rand 2 True h = Inr ((Some s, 0), h1)"
    and heap: "nothing_fails sha rand rs h \<Longrightarrow> may_alloc h1 = may_alloc h"
    and ps: "owns h1 base (ctx_blocks (Some s))" "message_bit_len s = 2" "valid_ctx s"
    and rand: "\<forall>r\<in>set rs. rand_ok r" "sha_ok sha" "COUNT \<le> length rs"
    and len: "out_toeplitz_matrix_len sizes = toeplitz_matrix_len (layout demo_ctx)"
  shows "leaves base (nothing_fails sha rand rs h) finish (batch_exchange sha rand rs None sizes finish h)"
proof -
  have good: "\<forall>r\<in>set rs. rand_ok r \<and> sha_ok sha" using rand by simp
  obtain r s' where b: "commit_batch (commit_call sha) rs s batch_messages = (r, s')" by fastforce
  note blk = commit_batch_blocks[OF b]
  show ?thesis
  proof (cases r)
    case None
    have "\<not> nothing_fails sha rand rs h"
      using commit_batch_succeeds[OF ps(3) messages_fit(1)[OF ps(3,2)], of rs sha] rand b None
      by (auto simp: nothing_fails_def batch_messages_def)
    moreover have "batch_exchange sha rand rs None sizes finish h = finish None (Some s') 1 h1"
      using create b None by (simp add: batch_exchange_def)
    ultimately show ?thesis using ps(1) blk by (auto intro!: leavesI simp: ctx_blocks_def)
  next
    case (Some cos)
    from exchange_receives[OF ps(3,2) good rand(3) b[unfolded Some] ps(1) len] obtain M q h2 where
      M: "hm_context_export_matrix (Some s') (Some (replicate (out_toeplitz_matrix_len sizes) 0)) = Inr M"
      and q: "hm_context_from_matrix 2 (Some M) True h1 = Inr (q, h2)"
      and r: "case fst q of None \<Rightarrow> (\<exists>k. \<not> may_alloc h1 k) \<and> owns h2 base (ctx_blocks (Some s'))
       | Some r \<Rightarrow> snd q = 0 \<and> fst (verify_batch (verify_call sha) r (zip batch_messages cos)) \<and>
           owns h2 base (ctx_blocks (Some r) @ ctx_blocks (Some s'))" by blast
    show ?thesis
    proof (cases "fst q")
      case None
      have "\<not> nothing_fails sha rand rs h"
      proof
        assume fine: "nothing_fails sha rand rs h"
        from heap[OF this] fine r None show False by (simp add: nothing_fails_def)
      qed
      moreover have "batch_exchange sha rand rs None sizes finish h = finish None (Some s') 1 h2"
        using create b Some M q None by (cases q) (simp add: batch_exchange_def)
      ultimately show ?thesis using r None by (auto intro!: leavesI simp: ctx_blocks_def)
    next
      case (Some rc)
      obtain rc' where v: "verify_batch (verify_call sha) rc (zip batch_messages cos) = (True, rc')"
        using r Some by (cases "verify_batch (verify_call sha) rc (zip batch_messages cos)") auto
      have "batch_exchange sha rand rs None sizes finish h = finish (Some rc') (Some s') 0 h2"
        using create b \<open>r = Some cos\<close> M q r Some v by (cases q) (simp add: batch_exchange_def)
      then show ?thesis
        using r Some verify_batch_blocks[OF v] by (auto intro!: leavesI)
    qed
  qed
qed

lemma exchange_leaves:
  assumes own: "owns h base []" and rand: "rand_ok rand" "\<forall>r\<in>set rs. rand_ok r" "sha_ok sha" "COUNT \<le> length rs"
    and len: "out_toeplitz_matrix_len sizes = toeplitz_matrix_len (layout demo_ctx)"
  shows "leaves base (nothing_fails sha rand rs h) finish (batch_exchange sha rand rs None sizes finish h)"
proof -
  from hm_context_create_run[OF own rand(1), of 2 True] obtain p h1 where
    p: "hm_context_create rand 2 True h = Inr (p, h1)" "ctx_result base h1 p"
    "\<And>c. fst p = Some c \<Longrightarrow> message_bit_len c = 2 \<and> valid_ctx c" by metis
  have create: "\<exists>c. p = (Some c, 0)" "may_alloc h1 = may_alloc h" if "nothing_fails sha rand rs h"
  proof -
    have "draws rand" using that by (simp add: nothing_fails_def)
    then obtain bs where "rand (toeplitz_matrix_len (layout demo_ctx)) = Inr bs" unfolding draws_def by blast
    with create_succeeds[where rand = rand and h = h, OF _ demo_sizes(1) this] that p(1)
    show "\<exists>c. p = (Some c, 0)" "may_alloc h1 = may_alloc h" by (auto simp: nothing_fails_def)
  qed
  show ?thesis
  proof (cases "fst p")
    case None
    then have "batch_exchange sha rand rs None sizes finish h = finish None None 1 h1"
      using p(1) by (cases p) (simp add: batch_exchange_def)
    then show ?thesis
      using None p(2) create(1) by (auto intro!: leavesI simp: ctx_result_def ctx_blocks_def)
  next
    case (Some s)
    then have ps: "p = (Some s, 0)" "owns h1 base (ctx_blocks (Some s))" "message_bit_len s = 2" "valid_ctx s"
      using p(2,3) by (cases p, auto simp: ctx_result_def ctx_blocks_def)
    have "hm_context_create rand 2 True h = Inr ((Some s, 0), h1)" using p(1) ps(1) by simp
    from exchange_sends[OF this create(2) ps(2-4) rand(2-4) len] show ?thesis .
  qed
qed

section \<open>Properties\<close>

lemma sizes_of_two_bits:
  obtains sizes where "hm_commit_get_sizes 2 (Some z) = (Some sizes, 0)"
    "out_toeplitz_matrix_len sizes = toeplitz_matrix_len (layout demo_ctx)"
  using demo_sizes(1) by (simp add: hm_commit_get_sizes_def)

text \<open>Three requests, of which some may fail, before the exchange.\<close>

lemma three_mallocs:
  assumes "owns h base []"
  obtains m h1 c h2 p h3 where "malloc h = Inr (m, h1)" "malloc h1 = Inr (c, h2)" "malloc h2 = Inr (p, h3)"
    "owns h3 base [p, c, m]" "may_alloc h3 = may_alloc h"
    "(\<forall>k. may_alloc h k) \<longrightarrow> m \<noteq> None \<and> c \<noteq> None \<and> p \<noteq> None"
proof -
  have ok: "p \<noteq> None" if "malloc h = Inr (p, h')" "\<forall>k. may_alloc h k" for h h' p
    using that by (auto simp: malloc_def Let_def)
  from assms obtain m h1 where m: "malloc h = Inr (m, h1)" "owns h1 base [m]" "may_alloc h1 = may_alloc h"
    by (rule owns_malloc)
  from m(2) obtain c h2 where c: "malloc h1 = Inr (c, h2)" "owns h2 base [c, m]" "may_alloc h2 = may_alloc h1"
    by (rule owns_malloc)
  from c(2) obtain p h3 where p: "malloc h2 = Inr (p, h3)" "owns h3 base [p, c, m]" "may_alloc h3 = may_alloc h2"
    by (rule owns_malloc)
  show ?thesis
    by (rule that[OF m(1) c(1) p(1,2)]) (use m c p ok in auto)
qed

lemma ctx_free_run:
  assumes "owns h base (ctx_blocks c @ ps)"
  obtains h' where "hm_context_free c h = Inr ((), h')" "owns h' base ps"
proof (cases c)
  case None
  then show ?thesis using assms that by (simp add: hm_context_free_def ctx_blocks_def ret_def)
next
  case (Some d)
  then show ?thesis
    using assms that hm_context_free_run[of h base d ps] by (auto simp: ctx_blocks_def)
qed

text \<open>Both ways out release the contexts and the three arrays.\<close>

lemma ways_out:
  assumes "owns h base (ctx_blocks receiver @ ctx_blocks sender @ [p, c, m])"
  shows "\<exists>h'. batch_cleanup m c p receiver sender rc h = Inr (rc, h') \<and> set (live h') = base"
    "\<exists>h'. leave_scope m c p receiver sender rc h = Inr (rc, h') \<and> set (live h') = base"
proof -
  from assms obtain h1 where r: "hm_context_free receiver h = Inr ((), h1)" "owns h1 base (ctx_blocks sender @ [p, c, m])"
    by (rule ctx_free_run)
  from r(2) obtain h2 where s: "hm_context_free sender h1 = Inr ((), h2)" and o: "owns h2 base ([p, c, m] @ [])"
    by (rule ctx_free_run) simp
  from free_all_owns[OF o] obtain h3 where "free_all [p, c, m] h2 = Inr ((), h3)" "owns h3 base []" by metis
  then show "\<exists>h'. leave_scope m c p receiver sender rc h = Inr (rc, h') \<and> set (live h') = base"
    using r(1) s by (auto simp: leave_scope_def bnd_Inr_iff ret_def owns_Nil)
  have "owns h2 base ([m, c, p] @ [])" by (rule owns_perm[OF _ o]) simp
  from free_all_owns[OF this] obtain h3 where "free_all [m, c, p] h2 = Inr ((), h3)" "owns h3 base []" by metis
  then show "\<exists>h'. batch_cleanup m c p receiver sender rc h = Inr (rc, h') \<and> set (live h') = base"
    using r(1) s by (auto simp: batch_cleanup_def bnd_Inr_iff ret_def owns_Nil)
qed

text \<open>The exchange inside the three arrays.\<close>

lemma exchange_in_arrays:
  assumes own: "owns h base [p, c, m]" and rand: "rand_ok rand" "\<forall>r\<in>set rs. rand_ok r" "sha_ok sha" "COUNT \<le> length rs"
    and len: "out_toeplitz_matrix_len sizes = toeplitz_matrix_len (layout demo_ctx)"
  obtains receiver sender rc h' where "batch_exchange sha rand rs None sizes finish h = finish receiver sender rc h'"
    "owns h' base (ctx_blocks receiver @ ctx_blocks sender @ [p, c, m])" "rc = 0 \<or> rc = 1"
    "nothing_fails sha rand rs h \<Longrightarrow> rc = 0"
proof -
  from exchange_leaves[OF owns_split[OF own] rand len, of finish] obtain receiver sender rc h' where
    x: "batch_exchange sha rand rs None sizes finish h = finish receiver sender rc h'"
    "owns h' (base \<union> blocks [p, c, m]) (ctx_blocks receiver @ ctx_blocks sender)" "rc = 0 \<or> rc = 1"
    "nothing_fails sha rand rs h \<longrightarrow> rc = 0" unfolding leaves_def by blast
  have "owns h' base ((ctx_blocks receiver @ ctx_blocks sender) @ [p, c, m])"
    by (rule owns_join[OF x(2)]) (use own in \<open>simp_all only: owns_def\<close>)
  with x that show ?thesis by simp
qed

text \<open>C18: examples/commit\_batch.c from start to exit.  If the variables of its contexts hold NULL
  before they are initialised, then whatever allocations, random calls or digests fail, main exits
  with 0 or 1, frees every block exactly once and leaves no block behind; when nothing fails it
  exits with 0, so the receiver accepts all hundred commitments.\<close>

theorem commit_batch_main_correct:
  assumes "heap_ok h" and "rand_ok rand" "\<forall>r\<in>set rs. rand_ok r" "sha_ok sha" "COUNT \<le> length rs"
  shows "\<exists>rc h'. commit_batch_main sha rand rs None None h = Inr (rc, h') \<and> (rc = 0 \<or> rc = 1) \<and>
     set (live h') = set (live h) \<and> (nothing_fails sha rand rs h \<longrightarrow> rc = 0)"
proof -
  let ?base = "set (live h)"
  obtain sizes where z: "hm_commit_get_sizes 2
      (Some \<lparr>out_commitment_len = 0, out_opening_len = 0, out_toeplitz_matrix_len = 0\<rparr>) = (Some sizes, 0)"
    "out_toeplitz_matrix_len sizes = toeplitz_matrix_len (layout demo_ctx)" by (rule sizes_of_two_bits)
  from owns_here[OF assms(1)] obtain m h1 c h2 p h3 where a: "malloc h = Inr (m, h1)" "malloc h1 = Inr (c, h2)"
    "malloc h2 = Inr (p, h3)" "owns h3 ?base [p, c, m]" "may_alloc h3 = may_alloc h"
    "(\<forall>k. may_alloc h k) \<longrightarrow> m \<noteq> None \<and> c \<noteq> None \<and> p \<noteq> None" by (rule three_mallocs)
  have fine: "nothing_fails sha rand rs h3 = nothing_fails sha rand rs h" using a(5) by (simp add: nothing_fails_def)
  have main: "commit_batch_main sha rand rs None None h = (if m = None \<or> c = None \<or> p = None
      then batch_cleanup m c p None None 1 h3
      else batch_exchange sha rand rs None sizes (batch_cleanup m c p) h3)"
    using a(1-3) z(1) by (simp add: commit_batch_main_def)
  show ?thesis
  proof (cases "m = None \<or> c = None \<or> p = None")
    case True
    have "owns h3 ?base (ctx_blocks None @ ctx_blocks None @ [p, c, m])" using a(4) by (simp add: ctx_blocks_def)
    from ways_out(1)[OF this, of 1] True a(6) show ?thesis unfolding main by (auto simp: nothing_fails_def)
  next
    case False
    from exchange_in_arrays[OF a(4) assms(2-5) z(2), of "batch_cleanup m c p"] obtain receiver sender rc h' where
      x: "batch_exchange sha rand rs None sizes (batch_cleanup m c p) h3 = batch_cleanup m c p receiver sender rc h'"
      "owns h' ?base (ctx_blocks receiver @ ctx_blocks sender @ [p, c, m])" "rc = 0 \<or> rc = 1"
      "nothing_fails sha rand rs h3 \<Longrightarrow> rc = 0" by blast
    from ways_out(1)[OF x(2), of rc] x(1,3,4) False fine show ?thesis unfolding main by auto
  qed
qed

lemma demo_nothing_fails:
  "nothing_fails demo_sha demo_rand (replicate 100 demo_rand) demo_heap" "COUNT \<le> length (replicate 100 demo_rand)"
  by (simp_all add: nothing_fails_def demo_heap_def draws_def demo_rand_def demo_sha_def COUNT_def)

lemma commit_batch_main_correct_witness:
  "\<exists>h'. commit_batch_main demo_sha demo_rand (replicate 100 demo_rand) None None demo_heap = Inr (0, h') \<and> live h' = []"
  using commit_batch_main_correct[OF demo_ok(3,2) _ demo_ok(1) demo_nothing_fails(2)] demo_ok(2) demo_nothing_fails(1)
  by (auto simp: demo_heap_def)

text \<open>C39: examples/commit\_batch.cpp from start to exit.  Whatever allocations, random calls or digests
  fail, main ends with the uncaught exception of a std::vector or exits with 0 or 1 after its
  destructors freed every block exactly once; when nothing fails it exits with 0.\<close>

theorem commit_batch_cpp_main_correct:
  assumes "heap_ok h" and "rand_ok rand" "\<forall>r\<in>set rs. rand_ok r" "sha_ok sha" "COUNT \<le> length rs"
  shows "case commit_batch_cpp_main sha rand rs h of
       Inl f \<Rightarrow> f = NoMemory \<and> \<not> nothing_fails sha rand rs h
     | Inr (rc, h') \<Rightarrow> (rc = 0 \<or> rc = 1) \<and> set (live h') = set (live h) \<and> (nothing_fails sha rand rs h \<longrightarrow> rc = 0)"
proof -
  let ?base = "set (live h)"
  obtain sizes where z: "hm_commit_get_sizes 2
      (Some \<lparr>out_commitment_len = 0, out_opening_len = 0, out_toeplitz_matrix_len = 0\<rparr>) = (Some sizes, 0)"
    "out_toeplitz_matrix_len sizes = toeplitz_matrix_len (layout demo_ctx)" by (rule sizes_of_two_bits)
  from owns_here[OF assms(1)] obtain m h1 c h2 p h3 where a: "malloc h = Inr (m, h1)" "malloc h1 = Inr (c, h2)"
    "malloc h2 = Inr (p, h3)" "owns h3 ?base [p, c, m]" "may_alloc h3 = may_alloc h"
    "(\<forall>k. may_alloc h k) \<longrightarrow> m \<noteq> None \<and> c \<noteq> None \<and> p \<noteq> None" by (rule three_mallocs)
  have fine: "nothing_fails sha rand rs h3 = nothing_fails sha rand rs h" using a(5) by (simp add: nothing_fails_def)
  have main: "commit_batch_cpp_main sha rand rs h = (if m = None \<or> c = None \<or> p = None then Inl NoMemory
      else batch_exchange sha rand rs None sizes (leave_scope m c p) h3)"
    using a(1-3) z(1) by (simp add: commit_batch_cpp_main_def vector_def)
  show ?thesis
  proof (cases "m = None \<or> c = None \<or> p = None")
    case True
    with a(6) show ?thesis unfolding main by (auto simp: nothing_fails_def)
  next
    case False
    from exchange_in_arrays[OF a(4) assms(2-5) z(2), of "leave_scope m c p"] obtain receiver sender rc h' where
      x: "batch_exchange sha rand rs None sizes (leave_scope m c p) h3 = leave_scope m c p receiver sender rc h'"
      "owns h' ?base (ctx_blocks receiver @ ctx_blocks sender @ [p, c, m])" "rc = 0 \<or> rc = 1"
      "nothing_fails sha rand rs h3 \<Longrightarrow> rc = 0" by blast
    from ways_out(2)[OF x(2), of rc] x(1,3,4) False fine show ?thesis unfolding main by auto
  qed
qed

lemma commit_batch_cpp_main_correct_witness:
  "\<exists>h'. commit_batch_cpp_main demo_sha demo_rand (replicate 100 demo_rand) demo_heap = Inr (0, h') \<and> live h' = []"
  using commit_batch_cpp_main_correct[OF demo_ok(3,2) _ demo_ok(1) demo_nothing_fails(2)] demo_ok(2) demo_nothing_fails(1)
  by (auto simp: demo_heap_def split: sum.splits)

text \<open>C40: examples/commit\_batch.c frees a pointer that it never initialised.  When the allocation of the
  matrix fails, main jumps to its cleanup label over the declaration of receiver\_ctx: if the stack
  held a pointer there to a context that was released before, the call of hm\_context\_free is a
  free of an invalid pointer.\<close>

theorem commit_batch_main_uninitialised:
  assumes "\<not> may_alloc h (requests h)" and "r_block junk = Some q" "q \<notin> set (live h)" "q < requests h"
  shows "commit_batch_main sha rand rs junk_s (Some junk) h = Inl BadFree"
  using assms demo_sizes(1)
  by (simp add: commit_batch_main_def hm_commit_get_sizes_def malloc_def batch_cleanup_def
      hm_context_free_def free_block_def bnd_def Let_def split: if_splits)

lemma commit_batch_main_uninitialised_witness:
  "commit_batch_main demo_sha demo_rand [] None (Some (demo_ctx\<lparr>r_block := Some 7\<rparr>))
     (demo_heap\<lparr>requests := 8, may_alloc := (\<lambda>k. k \<noteq> 8)\<rparr>) = Inl BadFree"
  by (rule commit_batch_main_uninitialised[where q = 7]) (simp_all add: demo_heap_def)

end
