(* ===== verification/MPC_Tape.thy ===== *)
theory MPC_Tape
  imports HM_Shared
begin

unbundle bit_operations_syntax

text \<open>
  What every gate of src/mpc_arithmetic.c shares: the counters randCount and
  countY, the random tapes, the openings the prover appends to the three views
  and the verifier reads back, and the two judgements in which the circuits
  are verified.  honest says that a prover program and the verifier programs
  of the three challenges agree; extracts says what three accepting verifier
  programs imply about the values shared.
\<close>

section \<open>Counters, tapes and views\<close>

record counters =
  rand_count :: nat
  count_y :: nat

record pstate =
  cnt :: counters
  y_views :: "u32 list arr3"

definition getRandom32 :: "byte list \<Rightarrow> nat \<Rightarrow> fault + u32" where
  "getRandom32 randomness randCount =
     (if randCount + 4 \<le> length randomness
      then Inr (load_u32_le (take 4 (drop randCount randomness))) else Inl OutOfBounds)"

text \<open>uint32\_t r[3] = ...; *randCount += 4;\<close>

definition draw3 :: "byte list arr3 \<Rightarrow> (pstate, u32 arr3) prog" where
  "draw3 rnd = (\<lambda>s.
     let rc = rand_count (cnt s) in
     case getRandom32 (at0 rnd) rc of Inl f \<Rightarrow> Inl f | Inr r0 \<Rightarrow>
     (case getRandom32 (at1 rnd) rc of Inl f \<Rightarrow> Inl f | Inr r1 \<Rightarrow>
     (case getRandom32 (at2 rnd) rc of Inl f \<Rightarrow> Inl f | Inr r2 \<Rightarrow>
       Inr (Arr3 r0 r1 r2, s\<lparr>cnt := (cnt s)\<lparr>rand_count := rc + 4\<rparr>\<rparr>))))"

definition draw2 :: "byte list arr2 \<Rightarrow> (counters, u32 arr2) prog" where
  "draw2 rnd = (\<lambda>s.
     let rc = rand_count s in
     case getRandom32 (fst2 rnd) rc of Inl f \<Rightarrow> Inl f | Inr r0 \<Rightarrow>
     (case getRandom32 (snd2 rnd) rc of Inl f \<Rightarrow> Inl f | Inr r1 \<Rightarrow>
       Inr (Arr2 r0 r1, s\<lparr>rand_count := rc + 4\<rparr>)))"

text \<open>y\_views[j][*countY] = c[j] for the three parties, then *countY += 1.\<close>

definition push3 :: "u32 arr3 \<Rightarrow> (pstate, unit) prog" where
  "push3 c = (\<lambda>s.
     let n = count_y (cnt s); y = y_views s in
     if n < length (at0 y) \<and> n < length (at1 y) \<and> n < length (at2 y)
     then Inr ((), s\<lparr>cnt := (cnt s)\<lparr>count_y := n + 1\<rparr>,
                     y_views := zip3 (\<lambda>ys v. ys[n := v]) y c\<rparr>)
     else Inl OutOfBounds)"

text \<open>ve->y[*countY] and ve1->y[*countY].\<close>

definition read2 :: "View \<Rightarrow> View \<Rightarrow> (counters, u32 arr2) prog" where
  "read2 v v1 = (\<lambda>s.
     let n = count_y s in
     if n < length (view_y v) \<and> n < length (view_y v1)
     then Inr (Arr2 (view_y v ! n) (view_y v1 ! n), s) else Inl OutOfBounds)"

definition next_y :: "(counters, unit) prog" where
  "next_y = (\<lambda>s. Inr ((), s\<lparr>count_y := count_y s + 1\<rparr>))"

section \<open>Honest runs\<close>

definition room :: "byte list arr3 \<Rightarrow> nat \<Rightarrow> pstate \<Rightarrow> bool" where
  "room rnd n s \<longleftrightarrow> (\<forall>e<3. rand_count (cnt s) + 4 * n \<le> length (sel3 rnd e)
     \<and> count_y (cnt s) + n \<le> length (sel3 (y_views s) e))"

definition advance :: "nat \<Rightarrow> counters \<Rightarrow> counters" where
  "advance n c = \<lparr>rand_count = rand_count c + 4 * n, count_y = count_y c + n\<rparr>"

text \<open>n gates later: the counters moved by n, the openings written before are kept.\<close>

definition moved :: "nat \<Rightarrow> pstate \<Rightarrow> pstate \<Rightarrow> bool" where
  "moved n s t \<longleftrightarrow> cnt t = advance n (cnt s) \<and>
     (\<forall>e<3. length (sel3 (y_views t) e) = length (sel3 (y_views s) e) \<and>
        (\<forall>i<count_y (cnt s). sel3 (y_views t) e ! i = sel3 (y_views s) e ! i))"

text \<open>The views F that are opened later hold what the prover has written so far.\<close>

definition agrees :: "pstate \<Rightarrow> View arr3 \<Rightarrow> bool" where
  "agrees s F \<longleftrightarrow> (\<forall>e<3. length (view_y (sel3 F e)) = length (sel3 (y_views s) e) \<and>
     (\<forall>i<count_y (cnt s). view_y (sel3 F e) ! i = sel3 (y_views s) e ! i))"

definition honest :: "byte list arr3 \<Rightarrow> nat \<Rightarrow> ('a \<Rightarrow> bool) \<Rightarrow> (nat \<Rightarrow> 'a \<Rightarrow> 'b) \<Rightarrow>
    (pstate, 'a) prog \<Rightarrow> (nat \<Rightarrow> View arr3 \<Rightarrow> (counters, 'b) prog) \<Rightarrow> bool" where
  "honest rnd n Q D p v \<longleftrightarrow> (\<forall>s. room rnd n s \<longrightarrow>
     (\<exists>z t. p s = Inr (z, t) \<and> Q z \<and> moved n s t \<and>
        (\<forall>e F. e < 3 \<longrightarrow> agrees t F \<longrightarrow> v e F (cnt s) = Inr (D e z, cnt t))))"

lemma honestI:
  assumes "\<And>s. room rnd n s \<Longrightarrow> \<exists>z t. p s = Inr (z, t) \<and> Q z \<and> moved n s t \<and>
        (\<forall>e F. e < 3 \<longrightarrow> agrees t F \<longrightarrow> v e F (cnt s) = Inr (D e z, cnt t))"
  shows "honest rnd n Q D p v"
  using assms by (simp add: honest_def)

lemma honestE:
  assumes "honest rnd n Q D p v" and "room rnd n s"
  obtains z t where "p s = Inr (z, t)" "Q z" "moved n s t"
    "\<And>e F. e < 3 \<Longrightarrow> agrees t F \<Longrightarrow> v e F (cnt s) = Inr (D e z, cnt t)"
  using assms unfolding honest_def by blast

lemma advance_0 [simp]: "advance 0 c = c"
  by (simp add: advance_def)

lemma advance_add: "advance m (advance n c) = advance (n + m) c"
  by (simp add: advance_def)

lemma room_split: "room rnd (n + m) s \<Longrightarrow> room rnd n s"
  by (auto simp: room_def)

lemma room_moved: "room rnd (n + m) s \<Longrightarrow> moved n s t \<Longrightarrow> room rnd m t"
  by (fastforce simp: room_def moved_def advance_def)

lemma moved_refl [simp]: "moved 0 s s"
  by (simp add: moved_def)

lemma moved_trans: "moved n s t \<Longrightarrow> moved m t u \<Longrightarrow> moved (n + m) s u"
  by (fastforce simp: moved_def advance_def)

lemma agrees_back: "moved n s t \<Longrightarrow> agrees t F \<Longrightarrow> agrees s F"
  by (fastforce simp: agrees_def moved_def advance_def)

lemma honest_ret: "Q z \<Longrightarrow> honest rnd 0 Q D (ret z) (\<lambda>e F. ret (D e z))"
  by (rule honestI) simp

lemma honest_bnd:
  assumes p: "honest rnd n Q D p v"
    and f: "\<And>z. Q z \<Longrightarrow> honest rnd m R E (f z) (\<lambda>e F. g e F (D e z))"
  shows "honest rnd (n + m) R E (bnd p f) (\<lambda>e F. bnd (v e F) (g e F))"
proof (rule honestI)
  fix s assume room: "room rnd (n + m) s"
  from p room_split[OF room] obtain z t where z: "p s = Inr (z, t)" "Q z" "moved n s t"
    and vz: "\<And>e F. e < 3 \<Longrightarrow> agrees t F \<Longrightarrow> v e F (cnt s) = Inr (D e z, cnt t)"
    by (rule honestE) blast
  from f[OF z(2)] room_moved[OF room z(3)]
  obtain w u where w: "f z t = Inr (w, u)" "R w" "moved m t u"
    and gw: "\<And>e F. e < 3 \<Longrightarrow> agrees u F \<Longrightarrow> g e F (D e z) (cnt t) = Inr (E e w, cnt u)"
    by (rule honestE) blast
  have "bnd (v e F) (g e F) (cnt s) = Inr (E e w, cnt u)" if "e < 3" "agrees u F" for e F
    using vz[OF that(1) agrees_back[OF w(3) that(2)]] gw[OF that] by simp
  with z w moved_trans[OF z(3) w(3)]
  show "\<exists>w u. bnd p f s = Inr (w, u) \<and> R w \<and> moved (n + m) s u \<and>
     (\<forall>e F. e < 3 \<longrightarrow> agrees u F \<longrightarrow> bnd (v e F) (g e F) (cnt s) = Inr (E e w, cnt u))"
    by auto
qed

lemma honest_weaken:
  assumes "honest rnd n Q D p v" and "\<And>z. Q z \<Longrightarrow> R z"
  shows "honest rnd n R D p v"
  using assms unfolding honest_def by blast

lemma honest_ret_eq:
  assumes "Q z" and "\<And>e. e < 3 \<Longrightarrow> w e = D e z"
  shows "honest rnd 0 Q D (ret z) (\<lambda>e F. ret (w e))"
  using assms by (intro honestI) simp

lemma honest_count: "honest rnd n Q D p v \<Longrightarrow> n = m \<Longrightarrow> honest rnd m Q D p v"
  by simp

text \<open>Returning a value computed from the last result needs no further step.\<close>

lemma honest_let:
  assumes "honest rnd n Q D p v" and "\<And>z. Q z \<Longrightarrow> R (h z)"
    and "\<And>e z. e < 3 \<Longrightarrow> Q z \<Longrightarrow> g e (D e z) = E e (h z)"
  shows "honest rnd n R E (bnd p (\<lambda>z. ret (h z))) (\<lambda>e F. bnd (v e F) (\<lambda>z. ret (g e z)))"
proof (rule honestI)
  fix s assume room: "room rnd n s"
  from assms(1) room obtain z t where z: "p s = Inr (z, t)" "Q z" "moved n s t"
    and vz: "\<And>e F. e < 3 \<Longrightarrow> agrees t F \<Longrightarrow> v e F (cnt s) = Inr (D e z, cnt t)"
    by (rule honestE) blast
  then show "\<exists>w u. bnd p (\<lambda>z. ret (h z)) s = Inr (w, u) \<and> R w \<and> moved n s u \<and>
     (\<forall>e F. e < 3 \<longrightarrow> agrees u F \<longrightarrow>
        bnd (v e F) (\<lambda>z. ret (g e z)) (cnt s) = Inr (E e w, cnt u))"
    using assms(2,3) by auto
qed

lemma honest_loop:
  assumes "\<And>i a. i < length is \<Longrightarrow> Q i a \<Longrightarrow>
      honest rnd n (Q (Suc i)) D (f (is ! i) a) (\<lambda>e F. g e F (is ! i) (D e a))"
    and "Q 0 a"
  shows "honest rnd (n * length is) (Q (length is)) D (loop f is a)
      (\<lambda>e F. loop (g e F) is (D e a))"
  using assms
proof (induction "is" arbitrary: Q a)
  case Nil
  then have "honest rnd 0 (Q 0) D (ret a) (\<lambda>e F. ret (D e a))"
    by (intro honest_ret)
  then show ?case by (simp del: ret_run)
next
  case (Cons i "is")
  have 1: "honest rnd n (Q 1) D (f i a) (\<lambda>e F. g e F i (D e a))"
    using Cons.prems(1)[of 0 a] Cons.prems(2) by simp
  have 2: "honest rnd (n * length is) (Q (Suc (length is))) D (loop f is b)
      (\<lambda>e F. loop (g e F) is (D e b))" if "Q 1 b" for b
    using Cons.IH[of "\<lambda>k. Q (Suc k)" b] Cons.prems(1)[of "Suc _"] that by fastforce
  show ?case
    using honest_bnd[where D = D and E = D and f = "loop f is"
        and g = "\<lambda>e F. loop (g e F) is", OF 1 2] by simp
qed

text \<open>The loop for (j = lo; j < hi; j++).\<close>

lemma honest_for:
  assumes "\<And>j a. lo \<le> j \<Longrightarrow> j < hi \<Longrightarrow> Q j a \<Longrightarrow>
      honest rnd n (Q (Suc j)) D (f j a) (\<lambda>e F. g e F j (D e a))"
    and "Q lo a" and "lo \<le> hi"
  shows "honest rnd (n * (hi - lo)) (Q hi) D (loop f [lo..<hi] a)
      (\<lambda>e F. loop (g e F) [lo..<hi] (D e a))"
proof -
  have "honest rnd (n * length [lo..<hi]) (Q (lo + length [lo..<hi])) D (loop f [lo..<hi] a)
      (\<lambda>e F. loop (g e F) [lo..<hi] (D e a))"
    by (rule honest_loop[where Q = "\<lambda>i. Q (lo + i)"]) (use assms(1,2) in simp_all)
  with assms(3) show ?thesis by simp
qed

section \<open>Accepting verifiers\<close>

definition at_gate :: "nat \<Rightarrow> counters" where
  "at_gate k = \<lparr>rand_count = 4 * k, count_y = k\<rparr>"

definition extracts :: "nat \<Rightarrow> nat \<Rightarrow> ('a \<Rightarrow> bool) \<Rightarrow> (nat \<Rightarrow> 'a \<Rightarrow> 'b) \<Rightarrow>
    (nat \<Rightarrow> (counters, 'b) prog) \<Rightarrow> bool" where
  "extracts k n Q D v \<longleftrightarrow> (\<forall>z s. (\<forall>e<3. v e (at_gate k) = Inr (z e, s e)) \<longrightarrow>
     (\<exists>Z. Q Z \<and> (\<forall>e<3. z e = D e Z \<and> s e = at_gate (k + n))))"

lemma extractsI:
  assumes "\<And>z s. (\<And>e. e < 3 \<Longrightarrow> v e (at_gate k) = Inr (z e, s e)) \<Longrightarrow>
     \<exists>Z. Q Z \<and> (\<forall>e<3. z e = D e Z \<and> s e = at_gate (k + n))"
  shows "extracts k n Q D v"
  using assms by (simp add: extracts_def)

lemma extractsE:
  assumes "extracts k n Q D v" and "\<And>e. e < 3 \<Longrightarrow> v e (at_gate k) = Inr (z e, s e)"
  obtains Z where "Q Z" "\<And>e. e < 3 \<Longrightarrow> z e = D e Z" "\<And>e. e < 3 \<Longrightarrow> s e = at_gate (k + n)"
  using assms unfolding extracts_def by blast

lemma extracts_ret: "Q Z \<Longrightarrow> extracts k 0 Q D (\<lambda>e. ret (D e Z))"
  by (rule extractsI) auto

lemma extracts_bnd:
  assumes v: "extracts k n Q D v"
    and g: "\<And>Z. Q Z \<Longrightarrow> extracts (k + n) m R E (\<lambda>e. g e (D e Z))"
  shows "extracts k (n + m) R E (\<lambda>e. bnd (v e) (g e))"
proof (rule extractsI)
  fix w u assume run: "\<And>e. e < 3 \<Longrightarrow> bnd (v e) (g e) (at_gate k) = Inr (w e, u e)"
  then have "\<forall>e. \<exists>z t. e < 3 \<longrightarrow> v e (at_gate k) = Inr (z, t) \<and> g e z t = Inr (w e, u e)"
    by (auto simp: bnd_Inr_iff)
  then obtain z t where vz: "\<And>e. e < 3 \<Longrightarrow> v e (at_gate k) = Inr (z e, t e)"
    and gz: "\<And>e. e < 3 \<Longrightarrow> g e (z e) (t e) = Inr (w e, u e)"
    by metis
  from v vz obtain Z where Z: "Q Z" "\<And>e. e < 3 \<Longrightarrow> z e = D e Z"
    "\<And>e. e < 3 \<Longrightarrow> t e = at_gate (k + n)"
    by (rule extractsE) blast+
  have "\<And>e. e < 3 \<Longrightarrow> g e (D e Z) (at_gate (k + n)) = Inr (w e, u e)"
    using gz Z by simp
  from extractsE[OF g[OF Z(1)] this] obtain W where "R W"
    "\<And>e. e < 3 \<Longrightarrow> w e = E e W" "\<And>e. e < 3 \<Longrightarrow> u e = at_gate (k + n + m)"
    by blast
  then show "\<exists>W. R W \<and> (\<forall>e<3. w e = E e W \<and> u e = at_gate (k + (n + m)))"
    by (auto simp: add.assoc)
qed

lemma extracts_weaken:
  assumes "extracts k n Q D v" and "\<And>z. Q z \<Longrightarrow> R z"
  shows "extracts k n R D v"
  using assms unfolding extracts_def by blast

lemma extracts_ret_eq:
  assumes "Q Z" and "\<And>e. e < 3 \<Longrightarrow> w e = D e Z"
  shows "extracts k 0 Q D (\<lambda>e. ret (w e))"
  using assms by (intro extractsI) auto

lemma extracts_count: "extracts k n Q D v \<Longrightarrow> n = m \<Longrightarrow> extracts k m Q D v"
  by simp

lemma extracts_let:
  assumes "extracts k n Q D v" and "\<And>z. Q z \<Longrightarrow> R (h z)"
    and "\<And>e z. e < 3 \<Longrightarrow> Q z \<Longrightarrow> g e (D e z) = E e (h z)"
  shows "extracts k n R E (\<lambda>e. bnd (v e) (\<lambda>z. ret (g e z)))"
proof (rule extractsI)
  fix w u
  assume run: "\<And>e. e < 3 \<Longrightarrow> bnd (v e) (\<lambda>z. ret (g e z)) (at_gate k) = Inr (w e, u e)"
  then have "\<forall>e. \<exists>z. e < 3 \<longrightarrow> v e (at_gate k) = Inr (z, u e) \<and> w e = g e z"
    by (auto simp: bnd_Inr_iff) metis
  then obtain z where vz: "\<And>e. e < 3 \<Longrightarrow> v e (at_gate k) = Inr (z e, u e)"
    and wz: "\<And>e. e < 3 \<Longrightarrow> w e = g e (z e)"
    by metis
  from extractsE[OF assms(1) vz] obtain Z where "Q Z" "\<And>e. e < 3 \<Longrightarrow> z e = D e Z"
    "\<And>e. e < 3 \<Longrightarrow> u e = at_gate (k + n)"
    by blast
  then show "\<exists>W. R W \<and> (\<forall>e<3. w e = E e W \<and> u e = at_gate (k + n))"
    using assms(2,3) wz by (intro exI[of _ "h Z"]) simp
qed

lemma extracts_loop:
  assumes "\<And>i a. i < length is \<Longrightarrow> Q i a \<Longrightarrow>
      extracts (k + n * i) n (Q (Suc i)) D (\<lambda>e. g e (is ! i) (D e a))"
    and "Q 0 a"
  shows "extracts k (n * length is) (Q (length is)) D (\<lambda>e. loop (g e) is (D e a))"
  using assms
proof (induction "is" arbitrary: Q a k)
  case Nil
  then have "extracts k 0 (Q 0) D (\<lambda>e. ret (D e a))"
    by (intro extracts_ret)
  then show ?case by (simp del: ret_run)
next
  case (Cons i "is")
  have 1: "extracts k n (Q 1) D (\<lambda>e. g e i (D e a))"
    using Cons.prems(1)[of 0 a] Cons.prems(2) by simp
  have 2: "extracts (k + n) (n * length is) (Q (Suc (length is))) D
      (\<lambda>e. loop (g e) is (D e b))" if "Q 1 b" for b
  proof (rule Cons.IH[of "\<lambda>k. Q (Suc k)"])
    show "extracts (k + n + n * j) n (Q (Suc (Suc j))) D (\<lambda>e. g e (is ! j) (D e a))"
      if "j < length is" "Q (Suc j) a" for j a
      using Cons.prems(1)[of "Suc j" a] that by (simp add: add.assoc)
  qed (use that in simp)
  show ?case
    using extracts_bnd[where D = D and E = D and g = "\<lambda>e. loop (g e) is", OF 1 2]
    by simp
qed

lemma extracts_for:
  assumes "\<And>j a. lo \<le> j \<Longrightarrow> j < hi \<Longrightarrow> Q j a \<Longrightarrow>
      extracts (k + n * (j - lo)) n (Q (Suc j)) D (\<lambda>e. g e j (D e a))"
    and "Q lo a" and "lo \<le> hi"
  shows "extracts k (n * (hi - lo)) (Q hi) D (\<lambda>e. loop (g e) [lo..<hi] (D e a))"
proof -
  have "extracts k (n * length [lo..<hi]) (Q (lo + length [lo..<hi])) D
      (\<lambda>e. loop (g e) [lo..<hi] (D e a))"
  proof (rule extracts_loop[where Q = "\<lambda>i. Q (lo + i)"])
    show "extracts (k + n * i) n (Q (lo + Suc i)) D (\<lambda>e. g e ([lo..<hi] ! i) (D e b))"
      if "i < length [lo..<hi]" "Q (lo + i) b" for i b
      using assms(1)[of "lo + i" b] that by simp
  qed (use assms(2) in simp)
  with assms(3) show ?thesis by simp
qed

end
