(* ===== verification/MPC_Arith.thy ===== *)
theory MPC_Arith
  imports MPC_Tape
begin

unbundle bit_operations_syntax

text \<open>
  src/mpc_arithmetic.h and src/mpc_arithmetic.c: the local operations on
  shares, the AND and ADD gates of the prover and of the verifier, and the
  CH and MAJ gates built from AND.  The locale mpc_gate is the interface of a
  two-input gate; it is interpreted for AND and for ADD.
\<close>

section \<open>Operations on shares that need no interaction\<close>

definition mpc_parity :: "u32 arr3 \<Rightarrow> u32 arr3" where
  "mpc_parity x = map_arr3 builtin_parity x"

definition mpc_parity2 :: "u32 arr2 \<Rightarrow> u32 arr2" where
  "mpc_parity2 x = map_arr2 builtin_parity x"

definition mpc_ANDK :: "u32 arr3 \<Rightarrow> u32 \<Rightarrow> u32 arr3" where
  "mpc_ANDK x y = map_arr3 (\<lambda>v. v AND y) x"

definition mpc_ANDK2 :: "u32 arr2 \<Rightarrow> u32 \<Rightarrow> u32 arr2" where
  "mpc_ANDK2 x y = map_arr2 (\<lambda>v. v AND y) x"

text \<open>Only z[0] is assigned.\<close>

definition mpc_XORK :: "u32 arr3 \<Rightarrow> u32 \<Rightarrow> u32 arr3 \<Rightarrow> u32 arr3" where
  "mpc_XORK x y z = Arr3 (at0 x XOR y) (at1 z) (at2 z)"

definition mpc_XORK2 :: "u32 arr2 \<Rightarrow> u32 \<Rightarrow> u32 arr2 \<Rightarrow> u32 arr2" where
  "mpc_XORK2 x y z = Arr2 (fst2 x XOR y) (snd2 z)"

definition mpc_XOR2_const :: "u32 arr2 \<Rightarrow> u32 arr2 \<Rightarrow> u32 arr2" where
  "mpc_XOR2_const x y = zip2 (XOR) x y"

definition mpc_XOR :: "u32 arr3 \<Rightarrow> u32 arr3 \<Rightarrow> u32 arr3" where
  "mpc_XOR x y = zip3 (XOR) x y"

definition mpc_XOR2 :: "u32 arr2 \<Rightarrow> u32 arr2 \<Rightarrow> u32 arr2" where
  "mpc_XOR2 x y = zip2 (XOR) x y"

definition mpc_NEGATE2 :: "u32 arr2 \<Rightarrow> u32 arr2" where
  "mpc_NEGATE2 x = map_arr2 NOT x"

definition mpc_NEGATE :: "u32 arr3 \<Rightarrow> u32 arr3" where
  "mpc_NEGATE x = map_arr3 NOT x"

definition mpc_RIGHTROTATE :: "u32 arr3 \<Rightarrow> nat \<Rightarrow> u32 arr3" where
  "mpc_RIGHTROTATE x i = map_arr3 (\<lambda>v. RIGHTROTATE v i) x"

definition mpc_RIGHTSHIFT :: "u32 arr3 \<Rightarrow> nat \<Rightarrow> u32 arr3" where
  "mpc_RIGHTSHIFT x i = map_arr3 (drop_bit i) x"

definition mpc_SETBIT :: "u32 arr3 \<Rightarrow> u32 arr3 \<Rightarrow> nat \<Rightarrow> u32 arr3" where
  "mpc_SETBIT x b i = zip3 (\<lambda>v c. SETBIT v i c) x b"

definition mpc_GETBIT :: "u32 arr3 \<Rightarrow> nat \<Rightarrow> u32 arr3" where
  "mpc_GETBIT y i = map_arr3 (\<lambda>v. GETBIT v i) y"

definition mpc_RIGHTROTATE2 :: "u32 arr2 \<Rightarrow> nat \<Rightarrow> u32 arr2" where
  "mpc_RIGHTROTATE2 x i = map_arr2 (\<lambda>v. RIGHTROTATE v i) x"

definition mpc_RIGHTSHIFT2 :: "u32 arr2 \<Rightarrow> nat \<Rightarrow> u32 arr2" where
  "mpc_RIGHTSHIFT2 x i = map_arr2 (drop_bit i) x"

section \<open>The AND gate\<close>

definition mpc_AND :: "u32 arr3 \<Rightarrow> u32 arr3 \<Rightarrow> byte list arr3 \<Rightarrow> (pstate, u32 arr3) prog" where
  "mpc_AND x y rnd = bnd (draw3 rnd) (\<lambda>r.
     let t = Arr3
       ((at0 x AND at1 y) XOR (at1 x AND at0 y) XOR (at0 x AND at0 y) XOR at0 r XOR at1 r)
       ((at1 x AND at2 y) XOR (at2 x AND at1 y) XOR (at1 x AND at1 y) XOR at1 r XOR at2 r)
       ((at2 x AND at0 y) XOR (at0 x AND at2 y) XOR (at2 x AND at2 y) XOR at2 r XOR at0 r)
     in bnd (push3 t) (\<lambda>_. ret t))"

definition mpc_AND_verify :: "u32 arr2 \<Rightarrow> u32 arr2 \<Rightarrow> View \<Rightarrow> View \<Rightarrow> byte list arr2 \<Rightarrow>
    (counters, u32 arr2) prog" where
  "mpc_AND_verify x y ve ve1 rnd = bnd (draw2 rnd) (\<lambda>r.
     let t = (fst2 x AND snd2 y) XOR (snd2 x AND fst2 y) XOR (fst2 x AND fst2 y)
             XOR fst2 r XOR snd2 r
     in bnd (read2 ve ve1) (\<lambda>v.
        if fst2 v \<noteq> t then throw Rejected
        else bnd next_y (\<lambda>_. ret (Arr2 t (snd2 v)))))"

section \<open>The ADD gate\<close>

text \<open>One iteration of the carry loop; a, b and t are uint8\_t.\<close>

definition add_step :: "u32 arr3 \<Rightarrow> u32 arr3 \<Rightarrow> u32 arr3 \<Rightarrow> u32 arr3 \<Rightarrow> nat \<Rightarrow> u32 arr3" where
  "add_step x y r c i =
    (let a = map_arr3 (\<lambda>v. ucast (GETBIT v i) :: byte) (zip3 (XOR) x c);
         b = map_arr3 (\<lambda>v. ucast (GETBIT v i) :: byte) (zip3 (XOR) y c);
         t0 = (at0 a AND at1 b) XOR (at1 a AND at0 b) XOR ucast (GETBIT (at1 r) i);
         c0 = SETBIT (at0 c) (i + 1) (ucast (t0 XOR (at0 a AND at0 b))
                XOR GETBIT (at0 c) i XOR GETBIT (at0 r) i);
         t1 = (at1 a AND at2 b) XOR (at2 a AND at1 b) XOR ucast (GETBIT (at2 r) i);
         c1 = SETBIT (at1 c) (i + 1) (ucast (t1 XOR (at1 a AND at1 b))
                XOR GETBIT (at1 c) i XOR GETBIT (at1 r) i);
         t2 = (at2 a AND at0 b) XOR (at0 a AND at2 b) XOR ucast (GETBIT (at0 r) i);
         c2 = SETBIT (at2 c) (i + 1) (ucast (t2 XOR (at2 a AND at2 b))
                XOR GETBIT (at2 c) i XOR GETBIT (at2 r) i)
     in Arr3 c0 c1 c2)"

definition mpc_ADD :: "u32 arr3 \<Rightarrow> u32 arr3 \<Rightarrow> byte list arr3 \<Rightarrow> (pstate, u32 arr3) prog" where
  "mpc_ADD x y rnd = bnd (draw3 rnd) (\<lambda>r.
     let c = foldl (add_step x y r) (Arr3 0 0 0) [0..<31];
         z = zip3 (XOR) (zip3 (XOR) x y) c
     in bnd (push3 c) (\<lambda>_. ret z))"

definition mpc_ADDK_impl :: "u32 arr3 \<Rightarrow> u32 \<Rightarrow> byte list arr3 \<Rightarrow> (pstate, u32 arr3) prog" where
  "mpc_ADDK_impl x y rnd = mpc_ADD x (Arr3 y y y) rnd"

text \<open>The test of iteration i; the loop returns -1 at the first i that fails it.\<close>

definition add_check :: "u32 arr2 \<Rightarrow> u32 arr2 \<Rightarrow> u32 arr2 \<Rightarrow> u32 arr2 \<Rightarrow> nat \<Rightarrow> bool" where
  "add_check x y r v i =
    (let a = map_arr2 (\<lambda>w. ucast (GETBIT w i) :: byte) (zip2 (XOR) x v);
         b = map_arr2 (\<lambda>w. ucast (GETBIT w i) :: byte) (zip2 (XOR) y v);
         t = (fst2 a AND snd2 b) XOR (snd2 a AND fst2 b) XOR ucast (GETBIT (snd2 r) i)
     in GETBIT (fst2 v) (i + 1) = ucast (t XOR (fst2 a AND fst2 b))
          XOR GETBIT (fst2 v) i XOR GETBIT (fst2 r) i)"

definition mpc_ADD_verify :: "u32 arr2 \<Rightarrow> u32 arr2 \<Rightarrow> View \<Rightarrow> View \<Rightarrow> byte list arr2 \<Rightarrow>
    (counters, u32 arr2) prog" where
  "mpc_ADD_verify x y ve ve1 rnd = bnd (draw2 rnd) (\<lambda>r. bnd (read2 ve ve1) (\<lambda>v.
     if list_all (add_check x y r v) [0..<31]
     then bnd next_y (\<lambda>_. ret (zip2 (XOR) (zip2 (XOR) x y) v))
     else throw Rejected))"

section \<open>MAJ and CH\<close>

definition mpc_MAJ :: "u32 arr3 \<Rightarrow> u32 arr3 \<Rightarrow> u32 arr3 \<Rightarrow> byte list arr3 \<Rightarrow>
    (pstate, u32 arr3) prog" where
  "mpc_MAJ a b c rnd = (let t0 = mpc_XOR a b; t1 = mpc_XOR a c in
     bnd (mpc_AND t0 t1 rnd) (\<lambda>z. ret (mpc_XOR z a)))"

definition mpc_CH :: "u32 arr3 \<Rightarrow> u32 arr3 \<Rightarrow> u32 arr3 \<Rightarrow> byte list arr3 \<Rightarrow>
    (pstate, u32 arr3) prog" where
  "mpc_CH e f g rnd = (let t0 = mpc_XOR f g in
     bnd (mpc_AND e t0 rnd) (\<lambda>t0. ret (mpc_XOR t0 g)))"

definition mpc_MAJ_verify :: "u32 arr2 \<Rightarrow> u32 arr2 \<Rightarrow> u32 arr2 \<Rightarrow> View \<Rightarrow> View \<Rightarrow>
    byte list arr2 \<Rightarrow> (counters, u32 arr2) prog" where
  "mpc_MAJ_verify a b c ve ve1 rnd = (let t0 = mpc_XOR2 a b; t1 = mpc_XOR2 a c in
     bnd (mpc_AND_verify t0 t1 ve ve1 rnd) (\<lambda>z. ret (mpc_XOR2 z a)))"

definition mpc_CH_verify :: "u32 arr2 \<Rightarrow> u32 arr2 \<Rightarrow> u32 arr2 \<Rightarrow> View \<Rightarrow> View \<Rightarrow>
    byte list arr2 \<Rightarrow> (counters, u32 arr2) prog" where
  "mpc_CH_verify e f g ve ve1 rnd = (let t0 = mpc_XOR2 f g in
     bnd (mpc_AND_verify e t0 ve ve1 rnd) (\<lambda>t0. ret (mpc_XOR2 t0 g)))"

section \<open>Local operations commute with opening and with reconstruction\<close>

named_theorems opens

lemma opened_local [opens]:
  "mpc_XOR2 (opened e a) (opened e b) = opened e (mpc_XOR a b)"
  "mpc_RIGHTROTATE2 (opened e a) i = opened e (mpc_RIGHTROTATE a i)"
  "mpc_RIGHTSHIFT2 (opened e a) i = opened e (mpc_RIGHTSHIFT a i)"
  "mpc_XOR2_const (opened e a) (opened e b) = opened e (mpc_XOR a b)"
  "mpc_ANDK2 (opened e a) k = opened e (mpc_ANDK a k)"
  "mpc_parity2 (opened e a) = opened e (mpc_parity a)"
  by (simp_all add: mpc_XOR2_def mpc_XOR_def mpc_RIGHTROTATE2_def mpc_RIGHTROTATE_def
      mpc_RIGHTSHIFT2_def mpc_RIGHTSHIFT_def mpc_XOR2_const_def mpc_ANDK2_def mpc_ANDK_def
      mpc_parity2_def mpc_parity_def)

lemma drop_bit_xor_word: "drop_bit n (x XOR y) = drop_bit n x XOR drop_bit n (y::'a::len word)"
  by (rule bit_word_eqI) (simp add: bit_simps)

lemma xor3_map:
  fixes f :: "'a::len word \<Rightarrow> 'a word"
  assumes "\<And>x y. f (x XOR y) = f x XOR f y"
  shows "xor3 (map_arr3 f a) = f (xor3 a)"
  by (cases a) (simp add: xor3_def assms)

lemma xor3_local [simp]:
  "xor3 (mpc_XOR a b) = xor3 a XOR xor3 b"
  "i \<le> 32 \<Longrightarrow> xor3 (mpc_RIGHTROTATE a i) = RIGHTROTATE (xor3 a) i"
  "xor3 (mpc_RIGHTSHIFT a i) = drop_bit i (xor3 a)"
  "xor3 (mpc_ANDK a k) = xor3 a AND k"
  by (simp_all add: mpc_XOR_def mpc_RIGHTROTATE_def mpc_RIGHTSHIFT_def mpc_ANDK_def xor3_map
      RIGHTROTATE_xor drop_bit_xor_word bit.conj_xor_distrib2)

lemma xor3_mpc_NEGATE [simp]: "xor3 (mpc_NEGATE a) = NOT (xor3 a)"
  by (rule bit_word_eqI) (cases a, simp add: mpc_NEGATE_def xor3_def bit_simps)

section \<open>Tapes and views at a gate\<close>

definition draw :: "byte list \<Rightarrow> nat \<Rightarrow> u32" where
  "draw rnd k = load_u32_le (take 4 (drop k rnd))"

lemma draw3_run:
  assumes "room rnd (Suc n) s"
  shows "draw3 rnd s = Inr (map_arr3 (\<lambda>t. draw t (rand_count (cnt s))) rnd,
           s\<lparr>cnt := (cnt s)\<lparr>rand_count := rand_count (cnt s) + 4\<rparr>\<rparr>)"
  using assms unfolding room_def
  by (cases rnd) (auto simp: draw3_def getRandom32_def draw_def sel3_def Let_def
      numeral_3_eq_3 less_Suc_eq all_conj_distrib)

lemma draw2_run:
  assumes "room rnd (Suc n) s" and "e < 3"
  shows "draw2 (opened e rnd) (cnt s) =
     Inr (opened e (map_arr3 (\<lambda>t. draw t (rand_count (cnt s))) rnd),
          (cnt s)\<lparr>rand_count := rand_count (cnt s) + 4\<rparr>)"
proof -
  have len: "rand_count (cnt s) + 4 \<le> length (sel3 rnd i)" if "i < 3" for i
    using assms(1) that by (auto simp: room_def)
  show ?thesis
    using len[OF assms(2)] len[of "succ3 e"]
    by (simp add: draw2_def getRandom32_def opened_def Let_def draw_def)
qed

lemma draw2_Inr:
  "draw2 (opened e rnd) c = Inr (r, d) \<Longrightarrow>
     r = opened e (map_arr3 (\<lambda>t. draw t (rand_count c)) rnd) \<and>
     d = c\<lparr>rand_count := rand_count c + 4\<rparr>"
  by (auto simp: draw2_def getRandom32_def draw_def opened_def Let_def
      split: if_splits sum.splits)

text \<open>Pushing c and reading it back.\<close>

definition view_at :: "View arr3 \<Rightarrow> nat \<Rightarrow> u32 arr3" where
  "view_at F k = map_arr3 (\<lambda>v. view_y v ! k) F"

lemma read2_Inr:
  "read2 (sel3 F e) (sel3 F (succ3 e)) c = Inr (v, d) \<Longrightarrow>
     v = opened e (view_at F (count_y c)) \<and> d = c"
  by (auto simp: read2_def view_at_def opened_def Let_def split: if_splits)

lemma push3_run:
  fixes c :: "u32 arr3"
  assumes "room rnd (Suc 0) s"
  defines "t \<equiv> s\<lparr>cnt := advance 1 (cnt s),
      y_views := zip3 (\<lambda>ys v. ys[count_y (cnt s) := v]) (y_views s) c\<rparr>"
  shows "push3 c (s\<lparr>cnt := (cnt s)\<lparr>rand_count := rand_count (cnt s) + 4\<rparr>\<rparr>) = Inr ((), t)"
    and "moved 1 s t"
    and "\<And>F. agrees t F \<Longrightarrow> e < 3 \<Longrightarrow> sel3 (view_at F (count_y (cnt s))) e = sel3 c e"
    and "\<And>F. agrees t F \<Longrightarrow> e < 3 \<Longrightarrow> count_y (cnt s) < length (view_y (sel3 F e))"
proof -
  have len: "count_y (cnt s) < length (sel3 (y_views s) e)" if "e < 3" for e
    using assms(1) that by (auto simp: room_def)
  show "push3 c (s\<lparr>cnt := (cnt s)\<lparr>rand_count := rand_count (cnt s) + 4\<rparr>\<rparr>) = Inr ((), t)"
    using len[of 0] len[of 1] len[of 2]
    by (simp add: push3_def t_def sel3_def advance_def Let_def)
  show "moved 1 s t"
    using len by (auto simp: moved_def t_def)
  show "sel3 (view_at F (count_y (cnt s))) e = sel3 c e" if "agrees t F" "e < 3" for F
    using that len[of e] by (auto simp: agrees_def t_def view_at_def advance_def)
  show "count_y (cnt s) < length (view_y (sel3 F e))" if "agrees t F" "e < 3" for F
    using that len[of e] by (auto simp: agrees_def t_def)
qed

section \<open>The interface of a two-input gate\<close>

text \<open>
  A gate draws one word of each tape, publishes one word per party and
  returns shares computed from the inputs and the published words.  Its
  verifier reads the two published words, tests them with check and returns
  the two shares.  plain is the operation on reconstructed values; carried is
  what three passed tests guarantee, given the parity of the lowest bits of
  the published words.
\<close>

definition cin :: "View arr3 \<Rightarrow> nat \<Rightarrow> bool" where
  "cin F k = bit (xor3 (view_at F k)) 0"

lemma at_gate_Suc: "at_gate (Suc k) = \<lparr>rand_count = 4 * k + 4, count_y = Suc k\<rparr>"
  by (simp add: at_gate_def)

lemma arr2_fst: "fst2 v = a \<Longrightarrow> Arr2 a (snd2 v) = v"
  by auto

locale mpc_gate =
  fixes prove :: "u32 arr3 \<Rightarrow> u32 arr3 \<Rightarrow> byte list arr3 \<Rightarrow> (pstate, u32 arr3) prog"
    and verify :: "u32 arr2 \<Rightarrow> u32 arr2 \<Rightarrow> View \<Rightarrow> View \<Rightarrow> byte list arr2 \<Rightarrow>
        (counters, u32 arr2) prog"
    and publish :: "u32 arr3 \<Rightarrow> u32 arr3 \<Rightarrow> u32 arr3 \<Rightarrow> u32 arr3"
    and check :: "u32 arr2 \<Rightarrow> u32 arr2 \<Rightarrow> u32 arr2 \<Rightarrow> u32 arr2 \<Rightarrow> bool"
    and out :: "u32 arr3 \<Rightarrow> u32 arr3 \<Rightarrow> u32 arr3 \<Rightarrow> u32 arr3"
    and out2 :: "u32 arr2 \<Rightarrow> u32 arr2 \<Rightarrow> u32 arr2 \<Rightarrow> u32 arr2"
    and plain :: "u32 \<Rightarrow> u32 \<Rightarrow> u32"
    and carried :: "bool \<Rightarrow> u32 \<Rightarrow> u32 \<Rightarrow> u32"
  assumes prove_steps: "prove x y rnd = bnd (draw3 rnd) (\<lambda>r. bnd (push3 (publish x y r))
        (\<lambda>_. ret (out x y (publish x y r))))"
    and verify_steps: "verify x2 y2 v v1 rnd2 = bnd (draw2 rnd2) (\<lambda>r. bnd (read2 v v1)
        (\<lambda>w. if check x2 y2 r w then bnd next_y (\<lambda>_. ret (out2 x2 y2 w)) else throw Rejected))"
    and out_opened: "out2 (opened e x) (opened e y) (opened e w) = opened e (out x y w)"
    and check_published: "e < 3 \<Longrightarrow>
        check (opened e x) (opened e y) (opened e r) (opened e (publish x y r))"
    and carried_published: "carried (bit (xor3 (publish x y r)) 0) a b = plain a b"
    and check_sound: "(\<And>e. e < 3 \<Longrightarrow> check (opened e x) (opened e y) (opened e r) (opened e w)) \<Longrightarrow>
        xor3 (out x y w) = carried (bit (xor3 w) 0) (xor3 x) (xor3 y)"
begin

lemma xor3_out: "xor3 (out x y (publish x y r)) = plain (xor3 x) (xor3 y)"
  using check_sound[OF check_published] by (simp add: carried_published)

lemma honest_gate:
  "honest rnd 1 (\<lambda>z. xor3 z = plain (xor3 x) (xor3 y)) opened (prove x y rnd)
     (\<lambda>e F. verify (opened e x) (opened e y) (sel3 F e) (sel3 F (succ3 e)) (opened e rnd))"
proof (rule honestI)
  fix s assume room: "room rnd 1 s"
  then have room': "room rnd (Suc 0) s" by simp
  define r where "r = map_arr3 (\<lambda>t. draw t (rand_count (cnt s))) rnd"
  define c where "c = publish x y r"
  define t where "t = s\<lparr>cnt := advance 1 (cnt s),
      y_views := zip3 (\<lambda>ys v. ys[count_y (cnt s) := v]) (y_views s) c\<rparr>"
  note push = push3_run[OF room', where c = c, folded t_def]
  have p: "prove x y rnd s = Inr (out x y c, t)"
    using draw3_run[OF room'] push(1) by (simp add: prove_steps c_def r_def)
  have v: "verify (opened e x) (opened e y) (sel3 F e) (sel3 F (succ3 e)) (opened e rnd)
      (cnt s) = Inr (opened e (out x y c), cnt t)" if e: "e < 3" and F: "agrees t F" for e F
  proof -
    have e1: "succ3 e < 3" by simp
    let ?s1 = "(cnt s)\<lparr>rand_count := rand_count (cnt s) + 4\<rparr>"
    have rd: "read2 (sel3 F e) (sel3 F (succ3 e)) ?s1 = Inr (opened e c, ?s1)"
      using push(3,4)[OF F e] push(3,4)[OF F e1]
      by (simp add: read2_def Let_def opened_def view_at_def)
    show ?thesis
      using draw2_run[OF room' e] rd check_published[OF e, of x y r]
      by (simp add: verify_steps r_def[symmetric] c_def[symmetric]
          next_y_def out_opened advance_def t_def)
  qed
  show "\<exists>z t. prove x y rnd s = Inr (z, t) \<and> xor3 z = plain (xor3 x) (xor3 y) \<and> moved 1 s t \<and>
      (\<forall>e F. e < 3 \<longrightarrow> agrees t F \<longrightarrow>
        verify (opened e x) (opened e y) (sel3 F e) (sel3 F (succ3 e)) (opened e rnd)
          (cnt s) = Inr (opened e z, cnt t))"
    using p v push(2) xor3_out[of x y r] by (auto simp: c_def)
qed

lemma extracts_gate:
  "extracts k 1 (\<lambda>z. xor3 z = carried (cin F k) (xor3 x) (xor3 y)) opened
     (\<lambda>e. verify (opened e x) (opened e y) (sel3 F e) (sel3 F (succ3 e)) (opened e rnd))"
proof (rule extractsI)
  fix z s
  define r where "r = map_arr3 (\<lambda>t. draw t (4 * k)) rnd"
  define w where "w = view_at F k"
  assume acc: "\<And>e. e < 3 \<Longrightarrow> verify (opened e x) (opened e y) (sel3 F e)
      (sel3 F (succ3 e)) (opened e rnd) (at_gate k) = Inr (z e, s e)"
  have run: "check (opened e x) (opened e y) (opened e r) (opened e w) \<and>
      z e = opened e (out x y w) \<and> s e = at_gate (k + 1)" if "e < 3" for e
    using acc[OF that] out_opened
    by (auto simp: verify_steps bnd_Inr_iff at_gate_def[of k] at_gate_Suc r_def w_def next_y_def
        split: if_splits dest!: draw2_Inr read2_Inr)
  then have "xor3 (out x y w) = carried (bit (xor3 w) 0) (xor3 x) (xor3 y)"
    by (intro check_sound) blast
  with run show "\<exists>Z. xor3 Z = carried (cin F k) (xor3 x) (xor3 y) \<and>
      (\<forall>e<3. z e = opened e Z \<and> s e = at_gate (k + 1))"
    by (auto simp: cin_def w_def)
qed

end

section \<open>The AND gate is a gate\<close>

definition and_publish :: "u32 arr3 \<Rightarrow> u32 arr3 \<Rightarrow> u32 arr3 \<Rightarrow> u32 arr3" where
  "and_publish x y r = Arr3
       ((at0 x AND at1 y) XOR (at1 x AND at0 y) XOR (at0 x AND at0 y) XOR at0 r XOR at1 r)
       ((at1 x AND at2 y) XOR (at2 x AND at1 y) XOR (at1 x AND at1 y) XOR at1 r XOR at2 r)
       ((at2 x AND at0 y) XOR (at0 x AND at2 y) XOR (at2 x AND at2 y) XOR at2 r XOR at0 r)"

definition and_check :: "u32 arr2 \<Rightarrow> u32 arr2 \<Rightarrow> u32 arr2 \<Rightarrow> u32 arr2 \<Rightarrow> bool" where
  "and_check x y r w \<longleftrightarrow> fst2 w = (fst2 x AND snd2 y) XOR (snd2 x AND fst2 y)
      XOR (fst2 x AND fst2 y) XOR fst2 r XOR snd2 r"

lemma and_check_published:
  "e < 3 \<Longrightarrow> and_check (opened e x) (opened e y) (opened e r) (opened e (and_publish x y r))"
  using challenge_cases[of e] by (auto simp: and_check_def and_publish_def opened_def sel3_def)

lemma and_publish_unique:
  assumes "\<And>e. e < 3 \<Longrightarrow> and_check (opened e x) (opened e y) (opened e r) (opened e w)"
  shows "w = and_publish x y r"
  using assms[of 0] assms[of 1] assms[of 2]
  by (cases w) (simp add: and_check_def and_publish_def sel3_def)

lemma xor3_and_publish: "xor3 (and_publish x y r) = xor3 x AND xor3 y"
  by (rule bit_word_eqI) (auto simp: xor3_def and_publish_def bit_simps)

interpretation and_gate: mpc_gate mpc_AND mpc_AND_verify and_publish and_check
  "\<lambda>x y w. w" "\<lambda>x y w. w" "(AND)" "\<lambda>_. (AND)"
proof unfold_locales
  show "mpc_AND x y rnd = bnd (draw3 rnd) (\<lambda>r. bnd (push3 (and_publish x y r))
      (\<lambda>_. ret (and_publish x y r)))" for x y rnd
    by (simp add: mpc_AND_def and_publish_def Let_def)
  show "mpc_AND_verify x2 y2 v v1 rnd2 = bnd (draw2 rnd2) (\<lambda>r. bnd (read2 v v1)
      (\<lambda>w. if and_check x2 y2 r w then bnd next_y (\<lambda>_. ret w) else throw Rejected))"
    for x2 y2 v v1 rnd2
    unfolding mpc_AND_verify_def Let_def and_check_def
    by (intro arg_cong[where f = "bnd _"] ext) (auto simp: arr2_fst)
  show "xor3 w = xor3 x AND xor3 y"
    if "\<And>e. e < 3 \<Longrightarrow> and_check (opened e x) (opened e y) (opened e r) (opened e w)" for x y r w
    using and_publish_unique[OF that] by (simp add: xor3_and_publish)
qed (simp_all add: and_check_published)

section \<open>The ADD gate is a gate\<close>

text \<open>The carry bit that a party computes, on truth values.\<close>

definition share_carry :: "u32 arr2 \<Rightarrow> u32 arr2 \<Rightarrow> u32 arr2 \<Rightarrow> u32 arr2 \<Rightarrow> nat \<Rightarrow> bool" where
  "share_carry x y r c i =
    (let a = map_arr2 (\<lambda>w. bit w i) (zip2 (XOR) x c);
         b = map_arr2 (\<lambda>w. bit w i) (zip2 (XOR) y c)
     in (((fst2 a \<and> snd2 b) \<noteq> ((snd2 a \<and> fst2 b) \<noteq> bit (snd2 r) i))
          \<noteq> (fst2 a \<and> fst2 b)) \<noteq> (bit (fst2 c) i \<noteq> bit (fst2 r) i))"

lemma of_bool_words:
  "of_bool P AND of_bool Q = (of_bool (P \<and> Q) :: 'a::len word)"
  "of_bool P XOR of_bool Q = (of_bool (P \<noteq> Q) :: 'a::len word)"
  "ucast (of_bool P :: 'b::len word) = (of_bool P :: 'a::len word)"
  by (cases P; cases Q; simp)+

lemma add_check_bits:
  "add_check x y r v i \<longleftrightarrow> bit (fst2 v) (Suc i) = share_carry x y r v i"
  by (simp add: add_check_def share_carry_def GETBIT_of_bool of_bool_words Let_def
      zip2_def of_bool_eq_iff)

lemma add_step_bits:
  assumes "e < 3" and "j < 32"
  shows "bit (sel3 (add_step x y r c i) e) j =
     (if j = Suc i then share_carry (opened e x) (opened e y) (opened e r) (opened e c) i
      else bit (sel3 c e) j)"
proof -
  have "sel3 (add_step x y r c i) e = SETBIT (sel3 c e) (Suc i)
      (of_bool (share_carry (opened e x) (opened e y) (opened e r) (opened e c) i))"
    using challenge_cases[OF assms(1)]
    by (elim disjE) (simp_all add: add_step_def share_carry_def GETBIT_of_bool of_bool_words
        Let_def sel3_def opened_def zip2_def zip3_def)
  then show ?thesis
    using assms(2) by (simp add: bit_SETBIT)
qed

lemma share_carry_cong:
  assumes "\<And>e. e < 3 \<Longrightarrow> bit (sel3 c e) i = bit (sel3 d e) i" and "e < 3"
  shows "share_carry x y r (opened e c) i = share_carry x y r (opened e d) i"
  using assms(1)[OF assms(2)] assms(1)[of "succ3 e"]
  by (simp add: share_carry_def Let_def zip2_def bit_xor_iff)

text \<open>
  The published word for carries that start from s; the prover's loop starts
  from Arr3 0 0 0.
\<close>

definition add_from :: "u32 arr3 \<Rightarrow> u32 arr3 \<Rightarrow> u32 arr3 \<Rightarrow> u32 arr3 \<Rightarrow> u32 arr3" where
  "add_from s x y r = foldl (add_step x y r) s [0..<31]"

definition add_publish :: "u32 arr3 \<Rightarrow> u32 arr3 \<Rightarrow> u32 arr3 \<Rightarrow> u32 arr3" where
  "add_publish = add_from (Arr3 0 0 0)"

lemma add_loop_bits:
  fixes s x y r :: "u32 arr3"
  assumes "e < 3" and "j < 32" and "n \<le> 31"
  defines "C \<equiv> \<lambda>m. foldl (add_step x y r) s [0..<m]"
  shows "bit (sel3 (C n) e) j = (case j of 0 \<Rightarrow> bit (sel3 s e) 0 | Suc i \<Rightarrow>
     if i < n then share_carry (opened e x) (opened e y) (opened e r) (opened e (C i)) i
     else bit (sel3 s e) (Suc i))"
  using assms(3)
proof (induction n)
  case 0
  then show ?case by (simp add: C_def split: nat.split)
next
  case (Suc n)
  have "C (Suc n) = add_step x y r (C n) n" by (simp add: C_def)
  then show ?case
    using Suc add_step_bits[OF assms(1,2), of x y r "C n" n]
    by (auto simp: less_Suc_eq split: nat.splits)
qed

lemma add_from_bits:
  assumes "e < 3" and "i < 31"
  shows "bit (sel3 (add_from s x y r) e) (Suc i) =
     share_carry (opened e x) (opened e y) (opened e r) (opened e (add_from s x y r)) i"
proof -
  let ?C = "\<lambda>m. foldl (add_step x y r) s [0..<m]"
  have "bit (sel3 (?C i) f) i = bit (sel3 (?C 31) f) i" if "f < 3" for f
    using add_loop_bits[OF that, of i i x y r s] add_loop_bits[OF that, of i 31 x y r s] assms(2)
    by (auto split: nat.splits)
  from share_carry_cong[OF this assms(1)]
  show ?thesis
    using add_loop_bits[OF assms(1), of "Suc i" 31 x y r s] assms(2)
    by (simp add: add_from_def)
qed

lemma add_from_bit0: "e < 3 \<Longrightarrow> bit (sel3 (add_from s x y r) e) 0 = bit (sel3 s e) 0"
  using add_loop_bits[of e 0 31 x y r s] by (simp add: add_from_def)

lemma add_from_parity: "bit (xor3 (add_from s x y r)) 0 = bit (xor3 s) 0"
  using add_from_bit0[of 0 s x y r] add_from_bit0[of 1 s x y r] add_from_bit0[of 2 s x y r]
  by (simp add: xor3_def bit_xor_iff sel3_def)

lemma add_check_from:
  "e < 3 \<Longrightarrow> list_all (add_check (opened e x) (opened e y) (opened e r)
     (opened e (add_from s x y r))) [0..<31]"
  by (simp add: list_all_iff add_check_bits add_from_bits)

text \<open>
  A carry share is the AND gate on the masked inputs, shifted and masked again;
  so three passed tests make the reconstructed word follow the carry recurrence.
\<close>

lemma share_carry_and:
  assumes "e < 3"
  shows "share_carry (opened e x) (opened e y) (opened e r) (opened e w) i =
    (bit (sel3 (and_publish (zip3 (XOR) x w) (zip3 (XOR) y w) r) e) i \<noteq> bit (sel3 w e) i)"
  using challenge_cases[OF assms]
  by (elim disjE; simp add: share_carry_def and_publish_def opened_def sel3_def zip2_def
      zip3_def Let_def bit_xor_iff bit_and_iff; blast)

lemma bit_xor3: "bit (xor3 w) i = (bit (sel3 w 0) i \<noteq> (bit (sel3 w 1) i \<noteq> bit (sel3 w 2) i))"
  by (simp add: xor3_def sel3_def bit_xor_iff)

lemma add_check_recurrence:
  assumes "\<And>e. e < 3 \<Longrightarrow> bit (sel3 w e) (Suc i) =
      share_carry (opened e x) (opened e y) (opened e r) (opened e w) i"
  shows "bit (xor3 w) (Suc i) = maj1 (bit (xor3 x) i) (bit (xor3 y) i) (bit (xor3 w) i)"
proof -
  let ?p = "and_publish (zip3 (XOR) x w) (zip3 (XOR) y w) r"
  have "bit (sel3 w e) (Suc i) = (bit (sel3 ?p e) i \<noteq> bit (sel3 w e) i)" if "e < 3" for e
    using assms[OF that] share_carry_and[OF that] by blast
  from this[of 0] this[of 1] this[of 2]
  have "bit (xor3 w) (Suc i) = (bit (xor3 ?p) i \<noteq> bit (xor3 w) i)"
    unfolding bit_xor3 by auto
  then show ?thesis
    by (simp add: xor3_and_publish bit_and_iff bit_xor_iff maj1_xor)
qed

lemma add_check_sound:
  assumes "\<And>e. e < 3 \<Longrightarrow> list_all (add_check (opened e x) (opened e y) (opened e r) (opened e w))
      [0..<31]"
  shows "xor3 (zip3 (XOR) (zip3 (XOR) x y) w) = xor3 x + xor3 y + of_bool (bit (xor3 w) 0)"
proof -
  have "bit (sel3 w e) (Suc i) =
      share_carry (opened e x) (opened e y) (opened e r) (opened e w) i" if "e < 3" "i < 31" for e i
    using assms[OF that(1)] that(2) by (auto simp: list_all_iff add_check_bits)
  then have "bit (xor3 w) (Suc i) = maj1 (bit (xor3 x) i) (bit (xor3 y) i) (bit (xor3 w) i)"
    if "Suc i < 32" for i
    using that by (intro add_check_recurrence[of w i x y r]) auto
  then have "xor3 x XOR xor3 y XOR xor3 w = xor3 x + xor3 y + of_bool (bit (xor3 w) 0)"
    by (intro ripple_add) simp
  then show ?thesis by (simp add: ac_simps)
qed

interpretation add_gate: mpc_gate mpc_ADD mpc_ADD_verify add_publish
  "\<lambda>x y r w. list_all (add_check x y r w) [0..<31]"
  "\<lambda>x y w. zip3 (XOR) (zip3 (XOR) x y) w" "\<lambda>x y w. zip2 (XOR) (zip2 (XOR) x y) w"
  "(+)" "\<lambda>b x y. x + y + of_bool b"
proof unfold_locales
  show "a + b + of_bool (bit (xor3 (add_publish x y r)) 0) = a + b" for a b :: u32 and x y r
    using add_from_parity[of "Arr3 0 0 0" x y r] by (simp add: add_publish_def xor3_def)
  show "xor3 (zip3 (XOR) (zip3 (XOR) x y) w) = xor3 x + xor3 y + of_bool (bit (xor3 w) 0)"
    if "\<And>e. e < 3 \<Longrightarrow> list_all (add_check (opened e x) (opened e y) (opened e r) (opened e w))
      [0..<31]" for x y r w
    using that by (rule add_check_sound)
qed (simp_all add: mpc_ADD_def mpc_ADD_verify_def add_publish_def add_from_def[symmetric] Let_def
      add_check_from)

section \<open>MAJ and CH\<close>

lemma honest_MAJ:
  "honest rnd 1 (\<lambda>z. xor3 z = ((xor3 a XOR xor3 b) AND (xor3 a XOR xor3 c)) XOR xor3 a) opened
     (mpc_MAJ a b c rnd) (\<lambda>e F. mpc_MAJ_verify (opened e a) (opened e b) (opened e c)
        (sel3 F e) (sel3 F (succ3 e)) (opened e rnd))"
  unfolding mpc_MAJ_def mpc_MAJ_verify_def Let_def opens
  by (rule honest_let[OF and_gate.honest_gate]) (simp_all add: opens)

lemma honest_CH:
  "honest rnd 1 (\<lambda>z. xor3 z = (xor3 e AND (xor3 f XOR xor3 g)) XOR xor3 g) opened
     (mpc_CH e f g rnd) (\<lambda>i F. mpc_CH_verify (opened i e) (opened i f) (opened i g)
        (sel3 F i) (sel3 F (succ3 i)) (opened i rnd))"
  unfolding mpc_CH_def mpc_CH_verify_def Let_def opens
  by (rule honest_let[OF and_gate.honest_gate]) (simp_all add: opens)

lemma honest_ADDK:
  "honest rnd 1 (\<lambda>z. xor3 z = xor3 x + k) opened (mpc_ADDK_impl x k rnd)
     (\<lambda>e F. mpc_ADD_verify (opened e x) (Arr2 k k) (sel3 F e) (sel3 F (succ3 e)) (opened e rnd))"
  using add_gate.honest_gate[of rnd x "Arr3 k k k"] by (simp add: mpc_ADDK_impl_def)

lemma extracts_MAJ:
  "extracts n 1 (\<lambda>z. xor3 z = ((xor3 a XOR xor3 b) AND (xor3 a XOR xor3 c)) XOR xor3 a) opened
     (\<lambda>e. mpc_MAJ_verify (opened e a) (opened e b) (opened e c)
        (sel3 F e) (sel3 F (succ3 e)) (opened e rnd))"
  unfolding mpc_MAJ_verify_def Let_def opens
  by (rule extracts_let[OF and_gate.extracts_gate]) (simp_all add: opens)

lemma extracts_CH:
  "extracts n 1 (\<lambda>z. xor3 z = (xor3 e AND (xor3 f XOR xor3 g)) XOR xor3 g) opened
     (\<lambda>i. mpc_CH_verify (opened i e) (opened i f) (opened i g)
        (sel3 F i) (sel3 F (succ3 i)) (opened i rnd))"
  unfolding mpc_CH_verify_def Let_def opens
  by (rule extracts_let[OF and_gate.extracts_gate]) (simp_all add: opens)

lemma extracts_ADDK:
  "extracts n 1 (\<lambda>z. xor3 z = xor3 x + k + of_bool (cin F n)) opened
     (\<lambda>e. mpc_ADD_verify (opened e x) (Arr2 k k) (sel3 F e) (sel3 F (succ3 e)) (opened e rnd))"
  using add_gate.extracts_gate[where k = n and F = F and x = x and y = "Arr3 k k k" and rnd = rnd] by simp

text \<open>One step of a circuit, as an introduction rule of each judgement.\<close>

lemmas honest_steps =
  honest_bnd[OF add_gate.honest_gate] honest_bnd[OF honest_ADDK]
  honest_bnd[OF honest_CH] honest_bnd[OF honest_MAJ]

lemmas extracts_steps =
  extracts_bnd[OF add_gate.extracts_gate] extracts_bnd[OF extracts_ADDK]
  extracts_bnd[OF extracts_CH] extracts_bnd[OF extracts_MAJ]

end
