(* ===== verification/SHA256_Spec.thy ===== *)
theory SHA256_Spec
  imports HM_Shared
begin

unbundle bit_operations_syntax

text \<open>
  The tables of src/mpc_sha256.h, and SHA-256 as FIPS 180-4 states it: the
  function that the circuit of the prover is compared with.  sha256\_carry is
  the same computation in which every 32-bit addition may be off by a carry
  that enters at bit 0; the soundness of the verifier is stated with it.
\<close>

section \<open>Tables\<close>

datatype 'a regs = Regs (reg_a: 'a) (reg_b: 'a) (reg_c: 'a) (reg_d: 'a)
  (reg_e: 'a) (reg_f: 'a) (reg_g: 'a) (reg_h: 'a)

definition hA :: "u32 regs" where
  "hA = Regs 0x6A09E667 0xBB67AE85 0x3C6EF372 0xA54FF53A
             0x510E527F 0x9B05688C 0x1F83D9AB 0x5BE0CD19"

definition k_table :: "u32 list" where
  "k_table = [
    0x428A2F98, 0x71374491, 0xB5C0FBCF, 0xE9B5DBA5, 0x3956C25B, 0x59F111F1,
    0x923F82A4, 0xAB1C5ED5, 0xD807AA98, 0x12835B01, 0x243185BE, 0x550C7DC3,
    0x72BE5D74, 0x80DEB1FE, 0x9BDC06A7, 0xC19BF174, 0xE49B69C1, 0xEFBE4786,
    0x0FC19DC6, 0x240CA1CC, 0x2DE92C6F, 0x4A7484AA, 0x5CB0A9DC, 0x76F988DA,
    0x983E5152, 0xA831C66D, 0xB00327C8, 0xBF597FC7, 0xC6E00BF3, 0xD5A79147,
    0x06CA6351, 0x14292967, 0x27B70A85, 0x2E1B2138, 0x4D2C6DFC, 0x53380D13,
    0x650A7354, 0x766A0ABB, 0x81C2C92E, 0x92722C85, 0xA2BFE8A1, 0xA81A664B,
    0xC24B8B70, 0xC76C51A3, 0xD192E819, 0xD6990624, 0xF40E3585, 0x106AA070,
    0x19A4C116, 0x1E376C08, 0x2748774C, 0x34B0BCB5, 0x391C0CB3, 0x4ED8AA4A,
    0x5B9CCA4F, 0x682E6FF3, 0x748F82EE, 0x78A5636F, 0x84C87814, 0x8CC70208,
    0x90BEFFFA, 0xA4506CEB, 0xBEF9A3F7, 0xC67178F2]"

definition regs_list :: "'a regs \<Rightarrow> 'a list" where
  "regs_list r = [reg_a r, reg_b r, reg_c r, reg_d r, reg_e r, reg_f r, reg_g r, reg_h r]"

definition zip_regs :: "('a \<Rightarrow> 'b \<Rightarrow> 'c) \<Rightarrow> 'a regs \<Rightarrow> 'b regs \<Rightarrow> 'c regs" where
  "zip_regs f r s = Regs (f (reg_a r) (reg_a s)) (f (reg_b r) (reg_b s)) (f (reg_c r) (reg_c s))
     (f (reg_d r) (reg_d s)) (f (reg_e r) (reg_e s)) (f (reg_f r) (reg_f s))
     (f (reg_g r) (reg_g s)) (f (reg_h r) (reg_h s))"

lemma length_regs_list [simp]: "length (regs_list r) = 8"
  by (simp add: regs_list_def)

lemma regs_list_map: "regs_list (map_regs f r) = map f (regs_list r)"
  by (cases r) (simp add: regs_list_def)

lemma length_k_table [simp]: "length k_table = 64"
  by (simp add: k_table_def)

section \<open>FIPS 180-4\<close>

definition Ch :: "u32 \<Rightarrow> u32 \<Rightarrow> u32 \<Rightarrow> u32" where
  "Ch x y z = (x AND y) XOR (NOT x AND z)"

definition Maj :: "u32 \<Rightarrow> u32 \<Rightarrow> u32 \<Rightarrow> u32" where
  "Maj x y z = (x AND y) XOR (x AND z) XOR (y AND z)"

definition bigsigma0 :: "u32 \<Rightarrow> u32" where
  "bigsigma0 x = word_rotr 2 x XOR word_rotr 13 x XOR word_rotr 22 x"

definition bigsigma1 :: "u32 \<Rightarrow> u32" where
  "bigsigma1 x = word_rotr 6 x XOR word_rotr 11 x XOR word_rotr 25 x"

definition sigma0 :: "u32 \<Rightarrow> u32" where
  "sigma0 x = word_rotr 7 x XOR word_rotr 18 x XOR drop_bit 3 x"

definition sigma1 :: "u32 \<Rightarrow> u32" where
  "sigma1 x = word_rotr 17 x XOR word_rotr 19 x XOR drop_bit 10 x"

definition sha_schedule :: "u32 list \<Rightarrow> nat \<Rightarrow> u32 list" where
  "sha_schedule w j = w @ [sigma1 (w ! (j - 2)) + w ! (j - 7) + sigma0 (w ! (j - 15)) + w ! (j - 16)]"

definition sha_round :: "u32 list \<Rightarrow> u32 regs \<Rightarrow> nat \<Rightarrow> u32 regs" where
  "sha_round w r i = (case r of Regs a b c d e f g h \<Rightarrow>
     let t1 = h + bigsigma1 e + Ch e f g + k_table ! i + w ! i;
         t2 = bigsigma0 a + Maj a b c
     in Regs (t1 + t2) a b c (d + t1) e f g)"

definition sha_compress :: "u32 regs \<Rightarrow> u32 list \<Rightarrow> u32 regs" where
  "sha_compress H m = (let w = foldl sha_schedule m [16..<64]
     in zip_regs (+) H (foldl (sha_round w) H [0..<64]))"

definition block_words :: "byte list \<Rightarrow> nat \<Rightarrow> u32 list" where
  "block_words p blk = map (\<lambda>j. load_u32_be (drop (4 * j) (drop (64 * blk) p))) [0..<16]"

definition sha_pad :: "byte list \<Rightarrow> byte list" where
  "sha_pad m = m @ [0x80] @ replicate (nat ((55 - int (length m)) mod 64)) 0
     @ store_u64_be (of_nat (8 * length m))"

definition sha256_regs :: "byte list \<Rightarrow> u32 regs" where
  "sha256_regs m = (let p = sha_pad m in
     foldl (\<lambda>H blk. sha_compress H (block_words p blk)) hA [0..<length p div 64])"

definition sha256 :: "byte list \<Rightarrow> byte list" where
  "sha256 m = concat (map store_u32_be (regs_list (sha256_regs m)))"

lemma length_sha256 [simp]: "length (sha256 m) = 32"
  by (simp add: sha256_def regs_list_def)

section \<open>The same computation with injected carries\<close>

text \<open>
  Gate number p of the circuit adds with an extra carry c p.  A block takes
  48 * 3 gates for the schedule, 64 * 9 for the rounds (gates 1 and 5 of a
  round are CH and MAJ) and 8 for the final additions: 728 gates.
\<close>

definition addc :: "bool \<Rightarrow> u32 \<Rightarrow> u32 \<Rightarrow> u32" where
  "addc b x y = x + y + of_bool b"

definition schedule_carry :: "(nat \<Rightarrow> bool) \<Rightarrow> nat \<Rightarrow> u32 list \<Rightarrow> nat \<Rightarrow> u32 list" where
  "schedule_carry c p w j = (let q = p + 3 * (j - 16);
      t = addc (c q) (w ! (j - 16)) (sigma0 (w ! (j - 15)));
      t = addc (c (q + 1)) (w ! (j - 7)) t
    in w @ [addc (c (q + 2)) t (sigma1 (w ! (j - 2)))])"

definition round_carry :: "(nat \<Rightarrow> bool) \<Rightarrow> nat \<Rightarrow> u32 list \<Rightarrow> u32 regs \<Rightarrow> nat \<Rightarrow> u32 regs" where
  "round_carry cc p w r i = (case r of Regs a b c d e f g h \<Rightarrow>
     let q = p + 144 + 9 * i;
         t = addc (cc q) h (bigsigma1 e);
         t = addc (cc (q + 2)) t (Ch e f g);
         t = addc (cc (q + 3)) t (k_table ! i);
         t1 = addc (cc (q + 4)) t (w ! i);
         t2 = addc (cc (q + 6)) (bigsigma0 a) (Maj a b c)
     in Regs (addc (cc (q + 8)) t1 t2) a b c (addc (cc (q + 7)) d t1) e f g)"

definition compress_carry :: "(nat \<Rightarrow> bool) \<Rightarrow> nat \<Rightarrow> u32 regs \<Rightarrow> u32 list \<Rightarrow> u32 regs" where
  "compress_carry c p H m = (let w = foldl (schedule_carry c p) m [16..<64];
      r = foldl (round_carry c p w) H [0..<64]; q = p + 720
    in Regs (addc (c q) (reg_a H) (reg_a r)) (addc (c (q + 1)) (reg_b H) (reg_b r))
       (addc (c (q + 2)) (reg_c H) (reg_c r)) (addc (c (q + 3)) (reg_d H) (reg_d r))
       (addc (c (q + 4)) (reg_e H) (reg_e r)) (addc (c (q + 5)) (reg_f H) (reg_f r))
       (addc (c (q + 6)) (reg_g H) (reg_g r)) (addc (c (q + 7)) (reg_h H) (reg_h r)))"

definition sha256_carry :: "(nat \<Rightarrow> bool) \<Rightarrow> byte list \<Rightarrow> u32 regs" where
  "sha256_carry c m = (let p = sha_pad m in
     foldl (\<lambda>H blk. compress_carry c (728 * blk) H (block_words p blk)) hA [0..<length p div 64])"

lemma addc_False [simp]: "addc False x y = x + y"
  by (simp add: addc_def)

lemma sha256_no_carry: "sha256_carry (\<lambda>_. False) m = sha256_regs m"
proof -
  have s: "schedule_carry (\<lambda>_. False) p = sha_schedule" for p
    by (intro ext) (simp add: schedule_carry_def sha_schedule_def Let_def ac_simps)
  have r: "round_carry (\<lambda>_. False) p = sha_round" for p
    by (intro ext) (simp add: round_carry_def sha_round_def Let_def ac_simps split: regs.split)
  show ?thesis
    by (simp add: sha256_carry_def sha256_regs_def compress_carry_def sha_compress_def
        zip_regs_def s r Let_def)
qed

section \<open>The macros of the code compute the functions of the standard\<close>

lemma RIGHTROTATE_rotr:
  assumes "0 < n" and "n < 32"
  shows "RIGHTROTATE x n = word_rotr n x"
proof (rule bit_word_eqI)
  fix i assume "i < LENGTH(32)"
  then have i: "i < 32" by simp
  have m: "(i + n) mod 32 = (if i + n < 32 then i + n else i + n - 32)"
    using assms i by (auto simp: mod_if)
  show "bit (RIGHTROTATE x n) i = bit (word_rotr n x) i"
    using assms i m by (auto simp: RIGHTROTATE_def bit_word_rotr_iff bit_simps
        add.commute[of n] dest: bit_imp_le_length)
qed

lemma Ch_gate: "(x AND (y XOR z)) XOR z = Ch x y z"
  by (rule bit_word_eqI) (auto simp: Ch_def bit_simps)

lemma Maj_gate: "((x XOR y) AND (x XOR z)) XOR x = Maj x y z"
  by (rule bit_word_eqI) (auto simp: Maj_def bit_simps)

lemma pad_129:
  assumes "length m = 129"
  shows "sha_pad m = m @ [0x80] @ replicate 54 0 @ store_u64_be 1032"
    and "length (sha_pad m) = 192"
  using assms by (simp_all add: sha_pad_def)

end
