(* ===== verification/MPC_SHA256_Prover.thy ===== *)
theory MPC_SHA256_Prover
  imports MPC_Arith SHA256_Spec
begin

unbundle bit_operations_syntax

text \<open>
  src/mpc_sha256_prover.c: SHA-256 evaluated on three XOR shares of its input.
  The array w[64] is filled in order and is represented by its assigned
  prefix; the working variables a..h and the chaining value H[8] are regs.
\<close>

definition paddedLen :: nat where
  "paddedLen = NUM_SHA256_BLOCKS * 64"

text \<open>calloc, memcpy, padded[L\_BYTES] = 0x80, and the length in the last 8 bytes.\<close>

definition pad_share :: "RVec \<Rightarrow> byte list" where
  "pad_share r = (let p = replicate paddedLen 0;
      p = take L_BYTES (rvec_bytes r) @ drop L_BYTES p;
      p = p[L_BYTES := 0x80]
    in take (paddedLen - 8) p @ store_u64_be (of_nat SHA256_INPUT_BITS))"

definition prove_schedule :: "byte list arr3 \<Rightarrow> nat \<Rightarrow> u32 arr3 list \<Rightarrow>
    (pstate, u32 arr3 list) prog" where
  "prove_schedule rnd j w =
    (let t0 = mpc_RIGHTROTATE (w ! (j - 15)) 7;
         t1 = mpc_RIGHTROTATE (w ! (j - 15)) 18;
         t0 = mpc_XOR t0 t1;
         t1 = mpc_RIGHTSHIFT (w ! (j - 15)) 3;
         s0 = mpc_XOR t0 t1;
         t0 = mpc_RIGHTROTATE (w ! (j - 2)) 17;
         t1 = mpc_RIGHTROTATE (w ! (j - 2)) 19;
         t0 = mpc_XOR t0 t1;
         t1 = mpc_RIGHTSHIFT (w ! (j - 2)) 10;
         s1 = mpc_XOR t0 t1
     in bnd (mpc_ADD (w ! (j - 16)) s0 rnd) (\<lambda>t1.
        bnd (mpc_ADD (w ! (j - 7)) t1 rnd) (\<lambda>t1.
        bnd (mpc_ADD t1 s1 rnd) (\<lambda>wj. ret (w @ [wj])))))"

definition prove_round :: "byte list arr3 \<Rightarrow> u32 arr3 list \<Rightarrow> nat \<Rightarrow> u32 arr3 regs \<Rightarrow>
    (pstate, u32 arr3 regs) prog" where
  "prove_round rnd w i r = (case r of Regs a b c d e f g h \<Rightarrow>
     let t0 = mpc_RIGHTROTATE e 6;
         t1 = mpc_RIGHTROTATE e 11;
         t0 = mpc_XOR t0 t1;
         t1 = mpc_RIGHTROTATE e 25;
         s1 = mpc_XOR t0 t1
     in bnd (mpc_ADD h s1 rnd) (\<lambda>t0.
        bnd (mpc_CH e f g rnd) (\<lambda>t1.
        bnd (mpc_ADD t0 t1 rnd) (\<lambda>t1.
        bnd (mpc_ADDK_impl t1 (k_table ! i) rnd) (\<lambda>t1.
        bnd (mpc_ADD t1 (w ! i) rnd) (\<lambda>temp1.
        let t0 = mpc_RIGHTROTATE a 2;
            t1 = mpc_RIGHTROTATE a 13;
            t0 = mpc_XOR t0 t1;
            t1 = mpc_RIGHTROTATE a 22;
            s0 = mpc_XOR t0 t1
        in bnd (mpc_MAJ a b c rnd) (\<lambda>maj.
           bnd (mpc_ADD s0 maj rnd) (\<lambda>temp2.
           let h = g; g = f; f = e in
           bnd (mpc_ADD d temp1 rnd) (\<lambda>e.
           let d = c; c = b; b = a in
           bnd (mpc_ADD temp1 temp2 rnd) (\<lambda>a.
           ret (Regs a b c d e f g h)))))))))))"

definition prove_final :: "byte list arr3 \<Rightarrow> u32 arr3 regs \<Rightarrow> u32 arr3 regs \<Rightarrow>
    (pstate, u32 arr3 regs) prog" where
  "prove_final rnd H r =
     bnd (mpc_ADD (reg_a H) (reg_a r) rnd) (\<lambda>h0.
     bnd (mpc_ADD (reg_b H) (reg_b r) rnd) (\<lambda>h1.
     bnd (mpc_ADD (reg_c H) (reg_c r) rnd) (\<lambda>h2.
     bnd (mpc_ADD (reg_d H) (reg_d r) rnd) (\<lambda>h3.
     bnd (mpc_ADD (reg_e H) (reg_e r) rnd) (\<lambda>h4.
     bnd (mpc_ADD (reg_f H) (reg_f r) rnd) (\<lambda>h5.
     bnd (mpc_ADD (reg_g H) (reg_g r) rnd) (\<lambda>h6.
     bnd (mpc_ADD (reg_h H) (reg_h r) rnd) (\<lambda>h7.
     ret (Regs h0 h1 h2 h3 h4 h5 h6 h7)))))))))"

text \<open>w[j][i] for j < 16: the big-endian words of the block blk.\<close>

definition load_block3 :: "byte list arr3 \<Rightarrow> nat \<Rightarrow> u32 arr3 list" where
  "load_block3 padded blk =
     map (\<lambda>j. map_arr3 (\<lambda>p. load_u32_be (drop (j * 4) (drop (blk * 64) p))) padded) [0..<16]"

definition prove_block :: "byte list arr3 \<Rightarrow> byte list arr3 \<Rightarrow> nat \<Rightarrow> u32 arr3 regs \<Rightarrow>
    (pstate, u32 arr3 regs) prog" where
  "prove_block rnd padded blk H =
     bnd (loop (prove_schedule rnd) [16..<64] (load_block3 padded blk)) (\<lambda>w.
     bnd (loop (prove_round rnd w) [0..<64] H) (\<lambda>r.
     prove_final rnd H r))"

definition mpc_sha256_prove_impl :: "RVec arr3 \<Rightarrow> byte list arr3 \<Rightarrow> (pstate, u32 arr3 regs) prog" where
  "mpc_sha256_prove_impl shares rnd = (let padded = map_arr3 pad_share shares in
     loop (prove_block rnd padded) [0..<NUM_SHA256_BLOCKS] (map_regs (\<lambda>k. Arr3 k k k) hA))"

text \<open>
  The views come from malloc: their y is any array of the right length.  The
  result is the three views and output\_shares[3][8].
\<close>

definition mpc_sha256_prove :: "RVec arr3 \<Rightarrow> byte list arr3 \<Rightarrow> View arr3 \<Rightarrow>
    fault + View arr3 \<times> u32 list arr3" where
  "mpc_sha256_prove shares rnd views =
    (case mpc_sha256_prove_impl shares rnd
        \<lparr>cnt = \<lparr>rand_count = 0, count_y = 0\<rparr>, y_views = map_arr3 view_y views\<rparr> of
       Inl f \<Rightarrow> Inl f
     | Inr (H, s) \<Rightarrow>
        Inr (zip3 (\<lambda>v xy. v\<lparr>view_x := fst xy, view_y := snd xy\<rparr>) views
               (zip3 Pair shares (y_views s)),
             Arr3 (regs_list (map_regs at0 H)) (regs_list (map_regs at1 H))
                  (regs_list (map_regs at2 H))))"

end
