(* ===== verification/PRG.thy ===== *)
theory PRG
  imports HM_Shared
begin

text \<open>
  src/prg.h and src/prg.c: the random tapes.  AES-128-CTR is OpenSSL's: the
  parameter stream gives the key stream byte of a key at a position, and
  EVP\_EncryptUpdate on zero bytes returns the next bytes of that stream and
  reports that it produced all of them.
\<close>

type_synonym keystream = "byte list \<Rightarrow> nat \<Rightarrow> byte"

definition AES_CHUNK :: nat where
  "AES_CHUNK = 4096"

definition encrypt_zeros :: "keystream \<Rightarrow> byte list \<Rightarrow> nat \<Rightarrow> nat \<Rightarrow> byte list" where
  "encrypt_zeros stream key pos chunk = map (\<lambda>i. stream key (pos + i)) [0..<chunk]"

text \<open>The while loop on outlen; pos is the number of bytes written so far.\<close>

function randomness_loop :: "keystream \<Rightarrow> byte list \<Rightarrow> nat \<Rightarrow> nat \<Rightarrow> byte list" where
  "randomness_loop stream key pos outlen =
    (if outlen = 0 then []
     else let chunk = (if outlen > AES_CHUNK then AES_CHUNK else outlen)
          in encrypt_zeros stream key pos chunk
             @ randomness_loop stream key (pos + chunk) (outlen - chunk))"
  by pat_completeness auto
termination
  by (relation "measure (\<lambda>(_, _, _, n). n)") (auto simp: AES_CHUNK_def)

declare randomness_loop.simps [simp del]

definition getAllRandomness :: "keystream \<Rightarrow> byte list \<Rightarrow> byte list" where
  "getAllRandomness stream key = randomness_loop stream key 0 RAND_BYTES"

definition generate_randomness :: "keystream \<Rightarrow> byte list arr3 \<Rightarrow> byte list arr3" where
  "generate_randomness stream keys = map_arr3 (getAllRandomness stream) keys"

lemma randomness_loop_stream:
  "randomness_loop stream key pos n = map (stream key) [pos..<pos + n]"
proof (induction stream key pos n rule: randomness_loop.induct)
  case (1 stream key pos n)
  define c where "c = (if n > AES_CHUNK then AES_CHUNK else n)"
  show ?case
  proof (cases "n = 0")
    case False
    have c: "c \<le> n" by (simp add: c_def)
    have "randomness_loop stream key pos n
        = encrypt_zeros stream key pos c @ map (stream key) [pos + c..<pos + c + (n - c)]"
      using False 1[OF False c_def] by (simp add: randomness_loop.simps[of stream key pos n]
          c_def[symmetric] Let_def)
    also have "encrypt_zeros stream key pos c = map (stream key) [pos..<pos + c]"
      by (rule nth_equalityI) (simp_all add: encrypt_zeros_def)
    finally show ?thesis
      using c upt_add_eq_append[of pos "pos + c" "n - c"] by simp
  qed (simp add: randomness_loop.simps[of stream key pos 0])
qed

lemma length_getAllRandomness [simp]: "length (getAllRandomness stream key) = RAND_BYTES"
  by (simp add: getAllRandomness_def randomness_loop_stream)

end
