(* ===== verification/MPC_SHA256_Verifier.thy ===== *)
theory MPC_SHA256_Verifier
  imports MPC_SHA256_Prover PRG
begin

unbundle bit_operations_syntax

text \<open>
  src/mpc_sha256_verifier.c: the circuit recomputed for the two opened
  parties, every gate checked against the published words of the first.
\<close>

definition verify_schedule :: "View \<Rightarrow> View \<Rightarrow> byte list arr2 \<Rightarrow> nat \<Rightarrow> u32 arr2 list \<Rightarrow>
    (counters, u32 arr2 list) prog" where
  "verify_schedule zve zve1 rnd j w =
    (let t0 = mpc_RIGHTROTATE2 (w ! (j - 15)) 7;
         t1 = mpc_RIGHTROTATE2 (w ! (j - 15)) 18;
         t0 = mpc_XOR2 t0 t1;
         t1 = mpc_RIGHTSHIFT2 (w ! (j - 15)) 3;
         s0 = mpc_XOR2 t0 t1;
         t0 = mpc_RIGHTROTATE2 (w ! (j - 2)) 17;
         t1 = mpc_RIGHTROTATE2 (w ! (j - 2)) 19;
         t0 = mpc_XOR2 t0 t1;
         t1 = mpc_RIGHTSHIFT2 (w ! (j - 2)) 10;
         s1 = mpc_XOR2 t0 t1
     in bnd (mpc_ADD_verify (w ! (j - 16)) s0 zve zve1 rnd) (\<lambda>t1.
        bnd (mpc_ADD_verify (w ! (j - 7)) t1 zve zve1 rnd) (\<lambda>t1.
        bnd (mpc_ADD_verify t1 s1 zve zve1 rnd) (\<lambda>wj. ret (w @ [wj])))))"

definition verify_round :: "View \<Rightarrow> View \<Rightarrow> byte list arr2 \<Rightarrow> u32 arr2 list \<Rightarrow> nat \<Rightarrow>
    u32 arr2 regs \<Rightarrow> (counters, u32 arr2 regs) prog" where
  "verify_round zve zve1 rnd w i r = (case r of Regs va vb vc vd ve vf vg vh \<Rightarrow>
     let t0 = mpc_RIGHTROTATE2 ve 6;
         t1 = mpc_RIGHTROTATE2 ve 11;
         t0 = mpc_XOR2 t0 t1;
         t1 = mpc_RIGHTROTATE2 ve 25;
         s1 = mpc_XOR2 t0 t1
     in bnd (mpc_ADD_verify vh s1 zve zve1 rnd) (\<lambda>t0.
        bnd (mpc_CH_verify ve vf vg zve zve1 rnd) (\<lambda>t1.
        bnd (mpc_ADD_verify t0 t1 zve zve1 rnd) (\<lambda>t1.
        let t0 = Arr2 (k_table ! i) (k_table ! i) in
        bnd (mpc_ADD_verify t1 t0 zve zve1 rnd) (\<lambda>t1.
        bnd (mpc_ADD_verify t1 (w ! i) zve zve1 rnd) (\<lambda>temp1.
        let t0 = mpc_RIGHTROTATE2 va 2;
            t1 = mpc_RIGHTROTATE2 va 13;
            t0 = mpc_XOR2 t0 t1;
            t1 = mpc_RIGHTROTATE2 va 22;
            s0 = mpc_XOR2 t0 t1
        in bnd (mpc_MAJ_verify va vb vc zve zve1 rnd) (\<lambda>maj.
           bnd (mpc_ADD_verify s0 maj zve zve1 rnd) (\<lambda>temp2.
           let vh = vg; vg = vf; vf = ve in
           bnd (mpc_ADD_verify vd temp1 zve zve1 rnd) (\<lambda>ve.
           let vd = vc; vc = vb; vb = va in
           bnd (mpc_ADD_verify temp1 temp2 zve zve1 rnd) (\<lambda>va.
           ret (Regs va vb vc vd ve vf vg vh)))))))))))"

definition verify_final :: "View \<Rightarrow> View \<Rightarrow> byte list arr2 \<Rightarrow> u32 arr2 regs \<Rightarrow> u32 arr2 regs \<Rightarrow>
    (counters, u32 arr2 regs) prog" where
  "verify_final zve zve1 rnd H r =
     bnd (mpc_ADD_verify (reg_a H) (reg_a r) zve zve1 rnd) (\<lambda>h0.
     bnd (mpc_ADD_verify (reg_b H) (reg_b r) zve zve1 rnd) (\<lambda>h1.
     bnd (mpc_ADD_verify (reg_c H) (reg_c r) zve zve1 rnd) (\<lambda>h2.
     bnd (mpc_ADD_verify (reg_d H) (reg_d r) zve zve1 rnd) (\<lambda>h3.
     bnd (mpc_ADD_verify (reg_e H) (reg_e r) zve zve1 rnd) (\<lambda>h4.
     bnd (mpc_ADD_verify (reg_f H) (reg_f r) zve zve1 rnd) (\<lambda>h5.
     bnd (mpc_ADD_verify (reg_g H) (reg_g r) zve zve1 rnd) (\<lambda>h6.
     bnd (mpc_ADD_verify (reg_h H) (reg_h r) zve zve1 rnd) (\<lambda>h7.
     ret (Regs h0 h1 h2 h3 h4 h5 h6 h7)))))))))"

definition load_block2 :: "byte list arr2 \<Rightarrow> nat \<Rightarrow> u32 arr2 list" where
  "load_block2 padded blk =
     map (\<lambda>j. map_arr2 (\<lambda>p. load_u32_be (drop (j * 4) (drop (blk * 64) p))) padded) [0..<16]"

definition verify_block :: "View \<Rightarrow> View \<Rightarrow> byte list arr2 \<Rightarrow> byte list arr2 \<Rightarrow> nat \<Rightarrow>
    u32 arr2 regs \<Rightarrow> (counters, u32 arr2 regs) prog" where
  "verify_block zve zve1 rnd padded blk H =
     bnd (loop (verify_schedule zve zve1 rnd) [16..<64] (load_block2 padded blk)) (\<lambda>w.
     bnd (loop (verify_round zve zve1 rnd w) [0..<64] H) (\<lambda>r.
     verify_final zve zve1 rnd H r))"

text \<open>The checked recomputation, from the padding of the two opened input shares.\<close>

definition verify_circuit :: "View \<Rightarrow> View \<Rightarrow> byte list arr2 \<Rightarrow> (counters, u32 arr2 regs) prog" where
  "verify_circuit zve zve1 rnd =
    (let padded = Arr2 (pad_share (view_x zve)) (pad_share (view_x zve1)) in
     loop (verify_block zve zve1 rnd padded) [0..<NUM_SHA256_BLOCKS] (map_regs (\<lambda>k. Arr2 k k) hA))"

text \<open>
  The whole function for the given key stream.  alloc\_ok says whether malloc
  and the two calloc calls succeed; if one fails the function returns -1.
\<close>

definition mpc_sha256_verify :: "keystream \<Rightarrow> bool \<Rightarrow> u32 list arr3 \<Rightarrow> nat \<Rightarrow> ZkBooOpen \<Rightarrow>
    fault + unit" where
  "mpc_sha256_verify stream alloc_ok output_shares e z =
    (case (z_ve z, z_ve1 z) of
       (Some v, Some v1) \<Rightarrow>
         if \<not> e < 3 then Inl BadInput else
         if \<not> alloc_ok then Inl NoMemory else
         let rnd = Arr2 (getAllRandomness stream (z_ke z)) (getAllRandomness stream (z_ke1 z)) in
         (case verify_circuit v v1 rnd \<lparr>rand_count = 0, count_y = 0\<rparr> of
            Inl f \<Rightarrow> Inl f
          | Inr (H, _) \<Rightarrow>
             if list_all (\<lambda>i. regs_list (map_regs fst2 H) ! i = sel3 output_shares e ! i
                  \<and> regs_list (map_regs snd2 H) ! i = sel3 output_shares (succ3 e) ! i)
                  [0..<SHA256_DIGEST_WORDS]
             then Inr () else Inl Rejected)
     | _ \<Rightarrow> Inl BadInput)"

end
