(* ===== verification/Random_Oracle.thy ===== *)
theory Random_Oracle
  imports HM_Shared
begin

unbundle bit_operations_syntax

text \<open>
  src/random_oracle.c: the hash of a view and the challenge.  OpenSSL's SHA-256
  is the parameter md, from the whole message to the 32 byte digest; a digest
  context is the list of the bytes that it has been updated with.
\<close>

section \<open>Memory images of the structs\<close>

definition view_bytes :: "View \<Rightarrow> byte list" where
  "view_bytes v = rvec_bytes (view_x v) @ view_msg v @ le_bytes (view_y v)"

definition arr3_words :: "u32 arr3 \<Rightarrow> u32 list" where
  "arr3_words a = [at0 a, at1 a, at2 a]"

definition commit_bytes :: "ZkBooCommit \<Rightarrow> byte list" where
  "commit_bytes a = le_bytes (fst2 (a_yp a)) @ le_bytes (snd2 (a_yp a))
     @ le_bytes (concat (map arr3_words (a_y2p a)))
     @ at0 (a_h a) @ at1 (a_h a) @ at2 (a_h a)"

section \<open>Hashing\<close>

definition setupSHA256 :: "byte list" where
  "setupSHA256 = []"

definition H_view :: "digest_fn \<Rightarrow> byte list \<Rightarrow> View \<Rightarrow> byte list \<Rightarrow> byte list" where
  "H_view md k v r = (let ctx = setupSHA256; ctx = ctx @ k; ctx = ctx @ view_bytes v; ctx = ctx @ r
     in md ctx)"

text \<open>HH resets the context it is given.\<close>

definition HH :: "digest_fn \<Rightarrow> byte list \<Rightarrow> byte list \<Rightarrow> View \<Rightarrow> byte list \<Rightarrow> byte list" where
  "HH md ctx k v r = (let ctx = []; ctx = ctx @ k; ctx = ctx @ view_bytes v; ctx = ctx @ r
     in md ctx)"

lemma HH_eq: "HH md ctx k v r = H_view md k v r"
  by (simp add: HH_def H_view_def setupSHA256_def)

section \<open>The challenge\<close>

text \<open>
  The while loop of H3: two bits of the digest give a challenge or, when both
  are set, nothing; a used up digest is hashed again.  The loop has no bound,
  so a run that never ends is None.
\<close>

partial_function (option) h3_loop :: "digest_fn \<Rightarrow> byte list \<Rightarrow> nat \<Rightarrow> nat \<Rightarrow> nat \<Rightarrow> nat list \<Rightarrow>
    nat list option" where
  "h3_loop md hash s i bitTracker es =
    (if i < s then
      let hash' = (if bitTracker \<ge> SHA256_DIGEST_LENGTH * 8 then md hash else hash);
          bt = (if bitTracker \<ge> SHA256_DIGEST_LENGTH * 8 then 0 else bitTracker);
          b1 = GETBIT (hash' ! (bt div 8)) (bt mod 8);
          b2 = GETBIT (hash' ! ((bt + 1) div 8)) ((bt + 1) mod 8)
      in if b1 = 0 then
           (if b2 = 0 then h3_loop md hash' s (i + 1) (bt + 2) (es @ [0])
            else h3_loop md hash' s (i + 1) (bt + 2) (es @ [1]))
         else
           (if b2 = 0 then h3_loop md hash' s (i + 1) (bt + 2) (es @ [2])
            else h3_loop md hash' s i (bt + 2) es)
     else Some es)"

definition H3 :: "digest_fn \<Rightarrow> byte list \<Rightarrow> byte list \<Rightarrow> ZkBooCommit list \<Rightarrow> nat \<Rightarrow>
    nat list option" where
  "H3 md ctx y as s = (let ctx = ctx @ y; ctx = ctx @ concat (map commit_bytes (take s as))
     in h3_loop md (md ctx) s 0 0 [])"

text \<open>The p-th pair of bits of a digest.\<close>

definition digest_bit :: "byte list \<Rightarrow> nat \<Rightarrow> bool" where
  "digest_bit h i = bit (h ! (i div 8)) (i mod 8)"

definition pair_challenge :: "byte list \<Rightarrow> nat \<Rightarrow> nat option" where
  "pair_challenge h p = (if digest_bit h (2 * p) \<and> digest_bit h (2 * p + 1) then None
     else Some (if digest_bit h (2 * p) then 2 else if digest_bit h (2 * p + 1) then 1 else 0))"

text \<open>
  The pairs of a digest, then those of its digest, and so on; the challenges
  among n of them from the p-th on.
\<close>

definition chain_pair :: "digest_fn \<Rightarrow> byte list \<Rightarrow> nat \<Rightarrow> nat option" where
  "chain_pair md h p = pair_challenge ((md ^^ (p div 128)) h) (p mod 128)"

primrec chain_challenges :: "digest_fn \<Rightarrow> byte list \<Rightarrow> nat \<Rightarrow> nat \<Rightarrow> nat list" where
  "chain_challenges md h p 0 = []"
| "chain_challenges md h p (Suc n) = (case chain_pair md h p of None \<Rightarrow> [] | Some e \<Rightarrow> [e])
     @ chain_challenges md h (Suc p) n"

lemma chain_pair_next: "chain_pair md h (128 + p) = chain_pair md (md h) p"
  by (simp add: chain_pair_def div_add_self1 funpow_swap1)

lemma chain_challenges_next: "chain_challenges md h (128 + p) n = chain_challenges md (md h) p n"
proof (induction n arbitrary: p)
  case (Suc n)
  from Suc[of "Suc p"] show ?case by (simp add: chain_pair_next[of md h p, simplified])
qed simp

lemma chain_challenges_append: "chain_challenges md h p (n + m) = chain_challenges md h p n @ chain_challenges md h (p + n) m"
  by (induction n arbitrary: p) simp_all

lemma chain_challenges_grow: "length (chain_challenges md h p (Suc n)) \<le> Suc (length (chain_challenges md h p n))"
proof -
  have "length (chain_challenges md h (p + n) (Suc 0)) \<le> 1" by (auto split: option.split)
  moreover have "chain_challenges md h p (Suc n) = chain_challenges md h p n @ chain_challenges md h (p + n) (Suc 0)"
    using chain_challenges_append[of md h p n "Suc 0"] by (simp only: add_Suc_right add_0_right)
  ultimately show ?thesis by (simp only: length_append)
qed

lemma chain_challenges_reach:
  assumes "s \<le> length (chain_challenges md h p n)"
  shows "\<exists>m. length (chain_challenges md h p m) = s"
  using assms
proof (induction n)
  case 0
  then show ?case by (intro exI[of _ 0]) simp
next
  case (Suc n)
  show ?case
  proof (cases "s \<le> length (chain_challenges md h p n)")
    case False
    then have "length (chain_challenges md h p (Suc n)) = s"
      using Suc.prems chain_challenges_grow[of md h p n] by linarith
    then show ?thesis by blast
  qed (rule Suc.IH)
qed

lemma chain_challenges_range: "e \<in> set (chain_challenges md h p n) \<Longrightarrow> e < 3"
  by (induction n arbitrary: p) (auto simp: chain_pair_def pair_challenge_def split: option.splits if_splits)

lemma GETBIT_zero_iff: "GETBIT x i = 0 \<longleftrightarrow> \<not> bit x i"
  by (simp add: GETBIT_of_bool)

text \<open>One turn of the loop at pair p of a digest; p = 128 is the end of the digest.\<close>

definition refreshed :: "digest_fn \<Rightarrow> byte list \<Rightarrow> nat \<Rightarrow> byte list \<times> nat" where
  "refreshed md h p = (if p = 128 then (md h, 0) else (h, p))"

lemma chain_challenges_refreshed:
  assumes "p \<le> 128" "refreshed md h p = (h', p')"
  shows "chain_challenges md h p n = chain_challenges md h' p' n" "p' < 128"
    "chain_pair md h' p' = pair_challenge h' p'"
  using assms chain_challenges_next[of md h 0 n]
  by (auto simp: refreshed_def chain_pair_def split: if_splits)

lemma h3_loop_turn:
  assumes "p \<le> 128" "refreshed md h p = (h', p')"
  shows "(let hash' = (if 2 * p \<ge> SHA256_DIGEST_LENGTH * 8 then md h else h);
          bt = (if 2 * p \<ge> SHA256_DIGEST_LENGTH * 8 then 0 else 2 * p);
          b1 = GETBIT (hash' ! (bt div 8)) (bt mod 8);
          b2 = GETBIT (hash' ! ((bt + 1) div 8)) ((bt + 1) mod 8)
      in if b1 = 0 then
           (if b2 = 0 then f md hash' s (i + 1) (bt + 2) (es @ [0])
            else f md hash' s (i + 1) (bt + 2) (es @ [1]))
         else
           (if b2 = 0 then f md hash' s (i + 1) (bt + 2) (es @ [2])
            else f md hash' s i (bt + 2) es)) =
    (case chain_pair md h' p' of Some e \<Rightarrow> f md h' s (i + 1) (2 * Suc p') (es @ [e])
     | None \<Rightarrow> f md h' s i (2 * Suc p') es)"
proof -
  have "2 * p \<ge> SHA256_DIGEST_LENGTH * 8 \<longleftrightarrow> p = 128" using assms(1) by (auto simp: SHA256_DIGEST_LENGTH_def)
  then show ?thesis
    using assms(2) unfolding chain_challenges_refreshed(3)[OF assms]
    by (auto simp: refreshed_def pair_challenge_def digest_bit_def GETBIT_zero_iff Let_def split: if_splits)
qed

lemma h3_loop_returns:
  assumes "p \<le> 128" "length es = i" "i \<le> s" "length (es @ chain_challenges md h p n) = s"
  shows "h3_loop md h s i (2 * p) es = Some (es @ chain_challenges md h p n)"
  using assms
proof (induction n arbitrary: h p i es)
  case 0
  then show ?case by (simp add: h3_loop.simps)
next
  case (Suc n)
  show ?case
  proof (cases "i < s")
    case False
    with Suc.prems show ?thesis by (simp add: h3_loop.simps)
  next
    case True
    obtain h' p' where r: "refreshed md h p = (h', p')" by fastforce
    note c = chain_challenges_refreshed[OF Suc.prems(1) r]
    note turn = h3_loop_turn[OF Suc.prems(1) r, of h3_loop s i es]
    have step: "h3_loop md h s i (2 * p) es = (case chain_pair md h' p' of
        Some e \<Rightarrow> h3_loop md h' s (i + 1) (2 * Suc p') (es @ [e]) | None \<Rightarrow> h3_loop md h' s i (2 * Suc p') es)"
      by (subst h3_loop.simps) (use True turn in \<open>simp only: if_True\<close>)
    have p': "Suc p' \<le> 128" using c(2) by simp
    show ?thesis
    proof (cases "chain_pair md h' p'")
      case None
      then have e: "chain_challenges md h p (Suc n) = chain_challenges md h' (Suc p') n" by (simp only: c(1)) simp
      show ?thesis unfolding step None option.case e by (rule Suc.IH[OF p' Suc.prems(2,3)]) (use Suc.prems(4)[unfolded e] in simp)
    next
      case (Some e)
      then have e: "es @ chain_challenges md h p (Suc n) = (es @ [e]) @ chain_challenges md h' (Suc p') n"
        unfolding c(1) by simp
      show ?thesis unfolding step Some option.case e by (rule Suc.IH[OF p']) (use Suc.prems(2) True Suc.prems(4)[unfolded e] in simp_all)
    qed
  qed
qed

lemma h3_loop_challenges:
  assumes "h3_loop md h s i bt es = Some r" "bt = 2 * p" "p \<le> 128" "length es = i" "i \<le> s"
  shows "length r = s \<and> (\<exists>n. r = es @ chain_challenges md h p n)"
proof -
  have "\<forall>p. bt = 2 * p \<longrightarrow> p \<le> 128 \<longrightarrow> length es = i \<longrightarrow> i \<le> s \<longrightarrow> length r = s \<and> (\<exists>n. r = es @ chain_challenges md h p n)"
  proof (rule h3_loop.raw_induct[where P = "\<lambda>md h s i bt es r. \<forall>p. bt = 2 * p \<longrightarrow> p \<le> 128 \<longrightarrow> length es = i \<longrightarrow>
        i \<le> s \<longrightarrow> length r = s \<and> (\<exists>n. r = es @ chain_challenges md h p n)", OF _ assms(1)])
    fix f md h s i bt es r
    assume IH: "\<And>md h s i bt es r. f md h s i bt es = Some r \<Longrightarrow> \<forall>p. bt = 2 * p \<longrightarrow> p \<le> 128 \<longrightarrow> length es = i \<longrightarrow>
        i \<le> s \<longrightarrow> length r = s \<and> (\<exists>n. r = es @ chain_challenges md h p n)"
      and run: "(if i < s then
        let hash' = (if bt \<ge> SHA256_DIGEST_LENGTH * 8 then md h else h);
          bt = (if bt \<ge> SHA256_DIGEST_LENGTH * 8 then 0 else bt);
          b1 = GETBIT (hash' ! (bt div 8)) (bt mod 8);
          b2 = GETBIT (hash' ! ((bt + 1) div 8)) ((bt + 1) mod 8)
        in if b1 = 0 then
           (if b2 = 0 then f md hash' s (i + 1) (bt + 2) (es @ [0])
            else f md hash' s (i + 1) (bt + 2) (es @ [1]))
         else
           (if b2 = 0 then f md hash' s (i + 1) (bt + 2) (es @ [2])
            else f md hash' s i (bt + 2) es)
        else Some es) = Some r"
    show "\<forall>p. bt = 2 * p \<longrightarrow> p \<le> 128 \<longrightarrow> length es = i \<longrightarrow> i \<le> s \<longrightarrow> length r = s \<and> (\<exists>n. r = es @ chain_challenges md h p n)"
    proof (intro allI impI)
      fix p assume a: "bt = 2 * p" "p \<le> 128" "length es = i" "i \<le> s"
      obtain h' p' where r: "refreshed md h p = (h', p')" by fastforce
      note c = chain_challenges_refreshed[OF a(2) r]
      show "length r = s \<and> (\<exists>n. r = es @ chain_challenges md h p n)"
      proof (cases "i < s")
        case False
        with run a show ?thesis by (auto intro!: exI[of _ 0])
      next
        case True
        with run h3_loop_turn[OF a(2) r, of f s i es]
        have f: "(case chain_pair md h' p' of Some e \<Rightarrow> f md h' s (i + 1) (2 * Suc p') (es @ [e])
            | None \<Rightarrow> f md h' s i (2 * Suc p') es) = Some r" by (simp only: if_True a(1))
        have "length r = s \<and> (\<exists>n. r = es @ (case chain_pair md h' p' of None \<Rightarrow> [] | Some e \<Rightarrow> [e]) @
            chain_challenges md h' (Suc p') n)"
        proof (cases "chain_pair md h' p'")
          case None
          with f have "f md h' s i (2 * Suc p') es = Some r" by simp
          from IH[OF this, rule_format, OF refl] c(2) a None show ?thesis by simp
        next
          case (Some e)
          with f have "f md h' s (i + 1) (2 * Suc p') (es @ [e]) = Some r" by simp
          from IH[OF this, rule_format, OF refl] c(2) a True Some show ?thesis by simp
        qed
        then obtain n where n: "r = es @ (case chain_pair md h' p' of None \<Rightarrow> [] | Some e \<Rightarrow> [e]) @ chain_challenges md h' (Suc p') n"
          "length r = s" by blast
        from n(1) have "r = es @ chain_challenges md h p (Suc n)" unfolding c(1) by simp
        with n(2) show ?thesis by blast
      qed
    qed
  qed
  with assms show ?thesis by blast
qed

lemma h3_loop_iff:
  "h3_loop md h s 0 0 [] = Some es \<longleftrightarrow> length es = s \<and> (\<exists>n. es = chain_challenges md h 0 n)"
  using h3_loop_challenges[of md h s 0 0 "[]" es 0] h3_loop_returns[of 0 "[]" 0 s md h] by auto

text \<open>C37: H3 is rejection sampling over the digest chain.  Let the chain be the digest of everything
  hashed so far, the digest of that digest, and so on, read as pairs of bits.  H3 returns the first
  s pairs other than 11, as challenges in 0..2; it returns nothing, because its loop never ends,
  exactly when the chain has fewer than s such pairs.\<close>

theorem H3_correct:
  "(H3 md ctx y as s = Some es \<longleftrightarrow> length es = s \<and>
      (\<exists>n. es = chain_challenges md (md (ctx @ y @ concat (map commit_bytes (take s as)))) 0 n)) \<and>
   (H3 md ctx y as s = Some es \<longrightarrow> (\<forall>e\<in>set es. e < 3)) \<and>
   (H3 md ctx y as s = None \<longleftrightarrow>
      (\<forall>n. length (chain_challenges md (md (ctx @ y @ concat (map commit_bytes (take s as)))) 0 n) < s))"
proof -
  let ?h = "md (ctx @ y @ concat (map commit_bytes (take s as)))"
  have range: "\<forall>e\<in>set (chain_challenges md ?h 0 n). e < 3" for n using chain_challenges_range by blast
  have H: "H3 md ctx y as s = h3_loop md ?h s 0 0 []" by (simp add: H3_def Let_def)
  have "H3 md ctx y as s = None \<longleftrightarrow> (\<forall>n. length (chain_challenges md ?h 0 n) < s)"
  proof
    assume none: "H3 md ctx y as s = None"
    have "length (chain_challenges md ?h 0 n) \<noteq> s" for n
      using none h3_loop_iff[of md ?h s "chain_challenges md ?h 0 n"] unfolding H by auto
    then show "\<forall>n. length (chain_challenges md ?h 0 n) < s"
      using chain_challenges_reach[of s md ?h 0] by (meson not_le)
  next
    assume less: "\<forall>n. length (chain_challenges md ?h 0 n) < s"
    show "H3 md ctx y as s = None"
    proof (rule ccontr)
      assume "H3 md ctx y as s \<noteq> None"
      then obtain es where "h3_loop md ?h s 0 0 [] = Some es" unfolding H by blast
      then obtain n where "length (chain_challenges md ?h 0 n) = s" unfolding h3_loop_iff by metis
      with less show False by (metis less_irrefl)
    qed
  qed
  moreover have "H3 md ctx y as s = Some es \<longleftrightarrow> length es = s \<and> (\<exists>n. es = chain_challenges md ?h 0 n)"
    unfolding H by (rule h3_loop_iff)
  moreover have "H3 md ctx y as s = Some es \<longrightarrow> (\<forall>e\<in>set es. e < 3)"
  proof
    assume "H3 md ctx y as s = Some es"
    then obtain n where "es = chain_challenges md ?h 0 n" unfolding H h3_loop_iff by metis
    with range[of n] show "\<forall>e\<in>set es. e < 3" by (simp only:)
  qed
  ultimately show ?thesis by (intro conjI)
qed

lemma H3_correct_witness:
  "H3 (\<lambda>_. replicate 32 7) [] [] [] 2 = Some [2, 0]"
proof -
  have "chain_challenges (\<lambda>_. replicate 32 7) (replicate 32 7) 0 (Suc (Suc (Suc 0))) = [2, 0]"
    by (simp add: chain_pair_def pair_challenge_def digest_bit_def)
  then have "length [2, 0 :: nat] = 2 \<and> (\<exists>n. [2, 0] = chain_challenges (\<lambda>_. replicate 32 7) (replicate 32 7) 0 n)"
    by (intro conjI exI[of _ "Suc (Suc (Suc 0))"]) simp_all
  then show ?thesis using H3_correct[of "\<lambda>_. replicate 32 7" "[]" "[]" "[]" 2 "[2, 0]"] by simp
qed

text \<open>What the clients use.\<close>

lemma h3_loop_range:
  assumes "h3_loop md hash s 0 0 [] = Some r"
  shows "length r = s \<and> (\<forall>e\<in>set r. e < 3)"
  using assms chain_challenges_range by (auto simp: h3_loop_iff)

lemma h3_loop_first:
  assumes "pair_challenge h 0 = Some e"
  shows "h3_loop md h 1 0 0 [] = Some [e]"
  using assms by (auto simp: h3_loop_iff chain_pair_def intro!: exI[of _ "Suc 0"])

end
