(* ===== verification/MPC_Core_Funcs.thy ===== *)
theory MPC_Core_Funcs
  imports Random_Oracle
begin

unbundle bit_operations_syntax

text \<open>
  src/mpc_core_funcs.h: secret sharing, the challenge of one round, the opening
  of two views and the reconstruction of the output shares.  The contents that
  a buffer has after RAND\_bytes are arguments; the code of this header does not
  look at the return value of RAND\_bytes.
\<close>

section \<open>Keys and shares\<close>

definition chunk3 :: "nat \<Rightarrow> byte list \<Rightarrow> byte list arr3" where
  "chunk3 n bs = Arr3 (take n bs) (take n (drop n bs)) (take n (drop (2 * n) bs))"

text \<open>keys[NUM\_ROUNDS][3][16], keyH[16] and rs[NUM\_ROUNDS][3][4] from three buffers.\<close>

definition generate_keys_and_rs :: "byte list \<Rightarrow> byte list \<Rightarrow> byte list \<Rightarrow>
    byte list arr3 list \<times> byte list \<times> byte list arr3 list" where
  "generate_keys_and_rs bk bH br =
    (map (\<lambda>k. chunk3 16 (drop (48 * k) bk)) [0..<NUM_ROUNDS],
     take 16 bH,
     map (\<lambda>k. chunk3 4 (drop (12 * k) br)) [0..<NUM_ROUNDS])"

definition share_rvec :: "byte list \<Rightarrow> byte list \<Rightarrow> RVec \<Rightarrow> RVec arr3" where
  "share_rvec rnd0 rnd1 r =
    (let s0 = rvec_normalize \<lparr>words = le_words rnd0\<rparr>;
         s1 = rvec_normalize \<lparr>words = le_words rnd1\<rparr>;
         s2 = \<lparr>words = map (\<lambda>j. words r ! j XOR words s0 ! j XOR words s1 ! j) [0..<L_WORDS]\<rparr>
     in Arr3 s0 s1 (rvec_normalize s2))"

definition MSG_MASK :: u32 where
  "MSG_MASK = (if MSG_BITS mod 32 \<noteq> 0 then word_of_nat (2 ^ (MSG_BITS mod 32) - 1) else 0xFFFFFFFF)"

text \<open>msgShares[MSG\_WORDS][3] is one block of words; msg is read as MSG\_WORDS words.\<close>

definition share_msg :: "byte list \<Rightarrow> byte list \<Rightarrow> u32 arr3 list" where
  "share_msg rndm msg =
    (let ws = le_words rndm;
         sh = map (\<lambda>j. Arr3 (ws ! (3 * j)) (ws ! (3 * j + 1)) (ws ! (3 * j + 2))) [0..<MSG_WORDS];
         l = sh ! (MSG_WORDS - 1);
         sh = sh[MSG_WORDS - 1 := Arr3 (at0 l AND MSG_MASK) (at1 l AND MSG_MASK) (at2 l)]
     in map (\<lambda>j. Arr3 (at0 (sh ! j)) (at1 (sh ! j))
           (load_u32_le (drop (j * 4) msg) XOR at0 (sh ! j) XOR at1 (sh ! j))) [0..<MSG_WORDS])"

definition share_secrets :: "byte list \<Rightarrow> byte list \<Rightarrow> byte list \<Rightarrow> RVec \<Rightarrow> byte list \<Rightarrow>
    RVec arr3 \<times> u32 arr3 list" where
  "share_secrets rnd0 rnd1 rndm r msg = (share_rvec rnd0 rnd1 r, share_msg rndm msg)"

section \<open>Challenge and opening\<close>

definition generate_challenge :: "digest_fn \<Rightarrow> byte list \<Rightarrow> ZkBooCommit \<Rightarrow> byte list \<Rightarrow> nat option" where
  "generate_challenge md ctx a finalHash = map_option hd (H3 md ctx finalHash [a] 1)"

definition zk_open :: "nat \<Rightarrow> byte list arr3 \<Rightarrow> byte list arr3 \<Rightarrow> View arr3 \<Rightarrow> ZkBooOpen" where
  "zk_open e keys rs views =
     \<lparr>z_ke = sel3 keys e, z_ke1 = sel3 keys (succ3 e),
      z_ve = Some (sel3 views e), z_ve1 = Some (sel3 views (succ3 e)),
      z_re = sel3 rs e, z_re1 = sel3 rs (succ3 e)\<rparr>"

definition load_digest_words :: "byte list \<Rightarrow> u32 list" where
  "load_digest_words digest = map (\<lambda>i. load_u32_be (drop (i * 4) digest)) [0..<SHA256_DIGEST_WORDS]"

definition reconstruct_sha256_output_shares :: "ZkBooCommit \<Rightarrow> byte list \<Rightarrow> u32 list arr3" where
  "reconstruct_sha256_output_shares a digest =
    (let digest_words = load_digest_words digest in
     Arr3 (map (\<lambda>i. fst2 (a_yp a) ! i) [0..<SHA256_DIGEST_WORDS])
          (map (\<lambda>i. snd2 (a_yp a) ! i) [0..<SHA256_DIGEST_WORDS])
          (map (\<lambda>i. digest_words ! i XOR fst2 (a_yp a) ! i XOR snd2 (a_yp a) ! i)
            [0..<SHA256_DIGEST_WORDS]))"

section \<open>Shares stand for the secret\<close>

definition wf_rvec :: "RVec \<Rightarrow> bool" where
  "wf_rvec r \<longleftrightarrow> length (words r) = L_WORDS"

text \<open>A normalised vector: 33 words, no bit at or above L\_BITS.\<close>

definition normal_rvec :: "RVec \<Rightarrow> bool" where
  "normal_rvec r \<longleftrightarrow> wf_rvec r \<and> words r ! (L_WORDS - 1) AND L_LAST_WORD_MASK = words r ! (L_WORDS - 1)"

text \<open>Masking the last word already clears the padding bytes.\<close>

lemma rvec_normalize_mask:
  assumes "wf_rvec r"
  shows "rvec_normalize r = rvec_mask_last_word r"
proof -
  let ?m = "rvec_mask_last_word r"
  define w where "w = words ?m ! 32"
  have len: "length (words ?m) = 33"
    using assms by (simp add: rvec_mask_last_word_def wf_rvec_def param_values)
  have w: "w = (words r ! 32) AND 0x3f"
    using assms by (simp add: w_def rvec_mask_last_word_def wf_rvec_def param_values)
  have split: "words ?m = take 32 (words ?m) @ [w]"
    using len by (metis w_def id_take_nth_drop drop_all less_numeral_extra(1) lessI
        append_Cons numeral_eq_Suc pred_numeral_simps take_all order_refl append_Nil2
        take_Suc_conv_app_nth BitM.simps)
  have b: "store_u32_le w = [ucast w, 0, 0, 0]"
    by (auto simp: w store_u32_le_def bit_simps intro!: bit_word_eqI)
  have "rvec_bytes ?m = le_bytes (take 32 (words ?m)) @ [ucast w, 0, 0, 0]"
    unfolding rvec_bytes_def by (subst split) (simp add: le_bytes_def b)
  then have "take 129 (rvec_bytes ?m) @ replicate 3 0 = rvec_bytes ?m"
    using len by (simp add: numeral_eq_Suc)
  then show ?thesis
    by (simp add: rvec_normalize_def rvec_clear_padding_def param_values rvec_bytes_def)
qed

lemma wf_rvec_normalize [simp]: "wf_rvec r \<Longrightarrow> wf_rvec (rvec_normalize r)"
  by (simp add: rvec_normalize_mask) (simp add: rvec_mask_last_word_def wf_rvec_def)

lemma normal_rvec_normalize: "wf_rvec r \<Longrightarrow> normal_rvec (rvec_normalize r)"
  by (simp add: normal_rvec_def)
     (simp add: rvec_normalize_mask rvec_mask_last_word_def wf_rvec_def param_values and.assoc)

lemma normalize_nth:
  assumes "wf_rvec r" and "j < L_WORDS"
  shows "words (rvec_normalize r) ! j =
     (if j = L_WORDS - 1 then words r ! j AND L_LAST_WORD_MASK else words r ! j)"
  using assms by (simp add: rvec_normalize_mask) (simp add: rvec_mask_last_word_def wf_rvec_def)

definition rvec_xor3 :: "RVec arr3 \<Rightarrow> RVec" where
  "rvec_xor3 s = \<lparr>words = map2 (XOR) (words (at0 s)) (map2 (XOR) (words (at1 s)) (words (at2 s)))\<rparr>"

definition wf_shares :: "RVec arr3 \<Rightarrow> bool" where
  "wf_shares s \<longleftrightarrow> (\<forall>e<3. wf_rvec (sel3 s e))"

lemma wf_sharesD:
  assumes "wf_shares s"
  shows "length (words (at0 s)) = L_WORDS" "length (words (at1 s)) = L_WORDS"
    "length (words (at2 s)) = L_WORDS"
  using assms unfolding wf_shares_def wf_rvec_def
  by (auto simp: sel3_def dest: spec[of _ 0] spec[of _ 1] spec[of _ 2])

lemma unshare: "a XOR b XOR r XOR a XOR b = (r :: u32)"
  by (rule bit_word_eqI) (auto simp: bit_simps)

lemma unshare_mask:
  assumes "r AND m = (r :: u32)"
  shows "(a AND m) XOR (b AND m) XOR ((r XOR (a AND m) XOR (b AND m)) AND m) = r"
proof (rule bit_word_eqI)
  fix n
  from assms have "bit (r AND m) n = bit r n" by simp
  then show "bit ((a AND m) XOR (b AND m) XOR ((r XOR (a AND m) XOR (b AND m)) AND m)) n = bit r n"
    by (auto simp: bit_and_iff bit_xor_iff)
qed

text \<open>Three vectors of equal length that XOR to r word by word.\<close>

lemma rvec_xor3_eqI:
  assumes "length (words a) = n" "length (words b) = n" "length (words c) = n" "length (words r) = n"
    and "\<And>j. j < n \<Longrightarrow> words a ! j XOR words b ! j XOR words c ! j = words r ! j"
  shows "rvec_xor3 (Arr3 a b c) = r"
proof -
  have "map2 (XOR) (words a) (map2 (XOR) (words b) (words c)) = words r"
    by (rule nth_equalityI) (simp_all add: assms)
  then show ?thesis by (simp add: rvec_xor3_def)
qed

lemma share_rvec_facts:
  assumes r: "normal_rvec r" and len: "length rnd0 = 4 * L_WORDS" "length rnd1 = 4 * L_WORDS"
  shows "wf_shares (share_rvec rnd0 rnd1 r)" and "rvec_xor3 (share_rvec rnd0 rnd1 r) = r"
proof -
  let ?s0 = "\<lparr>words = le_words rnd0\<rparr>" and ?s1 = "\<lparr>words = le_words rnd1\<rparr>"
  let ?s2 = "\<lparr>words = map (\<lambda>j. words r ! j XOR words (rvec_normalize ?s0) ! j
      XOR words (rvec_normalize ?s1) ! j) [0..<L_WORDS]\<rparr>"
  have wf: "wf_rvec ?s0" "wf_rvec ?s1" "wf_rvec ?s2" using len by (simp_all add: wf_rvec_def)
  have sh: "share_rvec rnd0 rnd1 r = Arr3 (rvec_normalize ?s0) (rvec_normalize ?s1) (rvec_normalize ?s2)"
    by (simp add: share_rvec_def Let_def)
  show w: "wf_shares (share_rvec rnd0 rnd1 r)"
    unfolding sh wf_shares_def sel3_def using wf by simp
  have lr: "length (words r) = L_WORDS" using r by (simp add: normal_rvec_def wf_rvec_def)
  have ls: "length (words (rvec_normalize ?s0)) = L_WORDS"
    "length (words (rvec_normalize ?s1)) = L_WORDS" "length (words (rvec_normalize ?s2)) = L_WORDS"
    using wf_sharesD[OF w] by (simp_all add: sh)
  have "words (rvec_normalize ?s0) ! j XOR words (rvec_normalize ?s1) ! j
      XOR words (rvec_normalize ?s2) ! j = words r ! j" if j: "j < L_WORDS" for j
  proof -
    have lm: "words r ! (L_WORDS - 1) AND L_LAST_WORD_MASK = words r ! (L_WORDS - 1)"
      using r by (simp add: normal_rvec_def)
    show ?thesis
    proof (cases "j = L_WORDS - 1")
      case True
      then show ?thesis
        using j lm normalize_nth[OF wf(1) j] normalize_nth[OF wf(2) j] normalize_nth[OF wf(3) j]
          unshare_mask[OF lm] by simp
    next
      case False
      then show ?thesis
        using j normalize_nth[OF wf(3) j] by (simp add: unshare)
    qed
  qed
  with lr ls show "rvec_xor3 (share_rvec rnd0 rnd1 r) = r"
    unfolding sh by (intro rvec_xor3_eqI)
qed

lemma share_msg_facts: "length (share_msg rndm msg) = MSG_WORDS"
    "xor3 (share_msg rndm msg ! 0) = load_u32_le msg"
  by (simp_all add: share_msg_def param_values Let_def xor3_def MSG_MASK_def)
     (auto intro!: bit_word_eqI simp: bit_simps)

end
