(* ===== verification/MPC_SHA256_Correct.thy ===== *)
theory MPC_SHA256_Correct
  imports MPC_SHA256_Verifier MPC_Core_Funcs
begin

unbundle bit_operations_syntax

text \<open>
  The circuits of the prover and the verifier against SHA-256.  honest_sha:
  for every tape the three shares the prover returns stand for the chaining
  value of SHA-256, and the three verifier runs on its views accept with the
  same shares.  extracts_sha: three accepting verifier runs compute SHA-256 of
  the shared input up to carries injected at the ADD gates.
\<close>

section \<open>The prover computes SHA-256 and its verifiers accept\<close>

lemmas gate_values = RIGHTROTATE_rotr bigsigma0_def bigsigma1_def sigma0_def sigma1_def
  Ch_gate Maj_gate xor.assoc

text \<open>Reads of w[j - i] commute with opening and with reconstruction.\<close>

lemma nth_map_back: "0 < i \<Longrightarrow> i \<le> j \<Longrightarrow> length w = j \<Longrightarrow> map f w ! (j - i) = f (w ! (j - i))"
  by simp

lemma honest_schedule:
  assumes "16 \<le> j" and "length w = j"
  shows "honest rnd 3 (\<lambda>z. map xor3 z = sha_schedule (map xor3 w) j \<and> length z = Suc j)
     (\<lambda>e. map (opened e)) (prove_schedule rnd j w)
     (\<lambda>e F. verify_schedule (sel3 F e) (sel3 F (succ3 e)) (opened e rnd) j (map (opened e) w))"
proof -
  have n: "map f w ! (j - i) = f (w ! (j - i))" if "0 < i" for f :: "u32 arr3 \<Rightarrow> 'z" and i
    using that assms by simp
  show ?thesis
    unfolding prove_schedule_def verify_schedule_def Let_def
    by (simp only: n zero_less_numeral opens, rule honest_count,
        (rule honest_steps, (simp (no_asm) only: opens)?)+, rule honest_ret_eq)
      (simp_all add: sha_schedule_def n assms gate_values add_ac)
qed

lemma honest_round:
  assumes "i < length w"
  shows "honest rnd 9 (\<lambda>z. map_regs xor3 z = sha_round (map xor3 w) (map_regs xor3 r) i)
     (\<lambda>e. map_regs (opened e)) (prove_round rnd w i r)
     (\<lambda>e F. verify_round (sel3 F e) (sel3 F (succ3 e)) (opened e rnd) (map (opened e) w) i
        (map_regs (opened e) r))"
proof (cases r)
  case (Regs a b c d e f g h)
  show ?thesis
    unfolding prove_round_def verify_round_def Let_def Regs regs.case regs.map nth_map[OF assms]
    by (simp only: opens, rule honest_count,
        (rule honest_steps, (simp (no_asm) only: opens)?)+, rule honest_ret_eq)
      (simp_all add: sha_round_def assms gate_values add_ac Let_def)
qed

lemma honest_final:
  "honest rnd 8 (\<lambda>z. map_regs xor3 z = zip_regs (+) (map_regs xor3 H) (map_regs xor3 r))
     (\<lambda>e. map_regs (opened e)) (prove_final rnd H r)
     (\<lambda>e F. verify_final (sel3 F e) (sel3 F (succ3 e)) (opened e rnd)
        (map_regs (opened e) H) (map_regs (opened e) r))"
  unfolding prove_final_def verify_final_def
  by (cases H; cases r; simp only: regs.map regs.sel, rule honest_count,
      (rule honest_steps, (simp (no_asm) only: opens)?)+, rule honest_ret_eq)
    (simp_all add: zip_regs_def)

lemma map_load_block3: "map (opened e) (load_block3 p blk) = load_block2 (opened e p) blk"
  by (simp add: load_block3_def load_block2_def)

lemma length_load_block3 [simp]: "length (load_block3 p blk) = 16"
  by (simp add: load_block3_def)

text \<open>The schedule and the rounds of a block, with the state reached at each index.\<close>

lemma honest_schedules:
  assumes "map xor3 w = m" and "length m = 16"
  shows "honest rnd 144 (\<lambda>w. map xor3 w = foldl sha_schedule m [16..<64] \<and> length w = 64)
     (\<lambda>e. map (opened e)) (loop (prove_schedule rnd) [16..<64] w)
     (\<lambda>e F. loop (verify_schedule (sel3 F e) (sel3 F (succ3 e)) (opened e rnd)) [16..<64]
        (map (opened e) w))"
proof -
  have "honest rnd (3 * (64 - 16))
      (\<lambda>w. map xor3 w = foldl sha_schedule m [16..<64] \<and> length w = 64)
      (\<lambda>e. map (opened e)) (loop (prove_schedule rnd) [16..<64] w)
      (\<lambda>e F. loop (verify_schedule (sel3 F e) (sel3 F (succ3 e)) (opened e rnd)) [16..<64]
        (map (opened e) w))"
  proof (rule honest_for[where Q = "\<lambda>j w. map xor3 w = foldl sha_schedule m [16..<j] \<and> length w = j"])
    fix j and w :: "u32 arr3 list"
    assume j: "16 \<le> j" and w: "map xor3 w = foldl sha_schedule m [16..<j] \<and> length w = j"
    from j w have "length w = j" by simp
    from honest_schedule[OF j this, of rnd]
    show "honest rnd 3 (\<lambda>w. map xor3 w = foldl sha_schedule m [16..<Suc j] \<and> length w = Suc j)
        (\<lambda>e. map (opened e)) (prove_schedule rnd j w)
        (\<lambda>e F. verify_schedule (sel3 F e) (sel3 F (succ3 e)) (opened e rnd) j (map (opened e) w))"
      by (rule honest_weaken) (use j w in simp)
  qed (use assms in auto)
  then show ?thesis by simp
qed

lemma honest_rounds:
  assumes "length w = 64"
  shows "honest rnd 576
     (\<lambda>r. map_regs xor3 r = foldl (sha_round (map xor3 w)) (map_regs xor3 H) [0..<64])
     (\<lambda>e. map_regs (opened e)) (loop (prove_round rnd w) [0..<64] H)
     (\<lambda>e F. loop (verify_round (sel3 F e) (sel3 F (succ3 e)) (opened e rnd) (map (opened e) w))
        [0..<64] (map_regs (opened e) H))"
proof -
  have "honest rnd (9 * (64 - 0))
     (\<lambda>r. map_regs xor3 r = foldl (sha_round (map xor3 w)) (map_regs xor3 H) [0..<64])
     (\<lambda>e. map_regs (opened e)) (loop (prove_round rnd w) [0..<64] H)
     (\<lambda>e F. loop (verify_round (sel3 F e) (sel3 F (succ3 e)) (opened e rnd) (map (opened e) w))
        [0..<64] (map_regs (opened e) H))"
  proof (rule honest_for[where Q = "\<lambda>i r. map_regs xor3 r =
      foldl (sha_round (map xor3 w)) (map_regs xor3 H) [0..<i]"])
    fix i and r :: "u32 arr3 regs"
    assume i: "i < 64"
      and r: "map_regs xor3 r = foldl (sha_round (map xor3 w)) (map_regs xor3 H) [0..<i]"
    from i assms have "i < length w" by simp
    from honest_round[OF this, of rnd r]
    show "honest rnd 9 (\<lambda>r. map_regs xor3 r =
          foldl (sha_round (map xor3 w)) (map_regs xor3 H) [0..<Suc i])
        (\<lambda>e. map_regs (opened e)) (prove_round rnd w i r)
        (\<lambda>e F. verify_round (sel3 F e) (sel3 F (succ3 e)) (opened e rnd) (map (opened e) w) i
          (map_regs (opened e) r))"
      by (rule honest_weaken) (use r in simp)
  qed simp_all
  then show ?thesis by simp
qed

text \<open>A block with any final additions fin that the verifier's final additions accept.\<close>

lemma honest_block_with:
  assumes "map xor3 (load_block3 p blk) = m"
    and fin: "\<And>r. honest rnd 8 (\<lambda>z. map_regs xor3 z = g (map_regs xor3 r)) (\<lambda>e. map_regs (opened e)) (fin r)
      (\<lambda>e F. verify_final (sel3 F e) (sel3 F (succ3 e)) (opened e rnd) (map_regs (opened e) H)
        (map_regs (opened e) r))"
  shows "honest rnd 728
     (\<lambda>z. map_regs xor3 z = g (foldl (sha_round (foldl sha_schedule m [16..<64])) (map_regs xor3 H) [0..<64]))
     (\<lambda>e. map_regs (opened e))
     (bnd (loop (prove_schedule rnd) [16..<64] (load_block3 p blk)) (\<lambda>w.
      bnd (loop (prove_round rnd w) [0..<64] H) fin))
     (\<lambda>e F. verify_block (sel3 F e) (sel3 F (succ3 e)) (opened e rnd) (opened e p) blk
        (map_regs (opened e) H))"
proof -
  have "length m = 16" using assms(1) by auto
  note sched = honest_schedules[OF assms(1) this, of rnd]
  show ?thesis
    unfolding verify_block_def map_load_block3[symmetric]
  proof (rule honest_count, rule honest_bnd[OF sched], rule honest_bnd[OF honest_rounds])
    fix w :: "u32 arr3 list" and r
    assume "map xor3 w = foldl sha_schedule m [16..<64] \<and> length w = 64"
      and "map_regs xor3 r = foldl (sha_round (map xor3 w)) (map_regs xor3 H) [0..<64]"
    then show "honest rnd 8 (\<lambda>z. map_regs xor3 z =
          g (foldl (sha_round (foldl sha_schedule m [16..<64])) (map_regs xor3 H) [0..<64]))
        (\<lambda>e. map_regs (opened e)) (fin r)
        (\<lambda>e F. verify_final (sel3 F e) (sel3 F (succ3 e)) (opened e rnd)
          (map_regs (opened e) H) (map_regs (opened e) r))"
      by (intro honest_weaken[OF fin]) simp
  qed simp_all
qed

lemma honest_block:
  assumes "map xor3 (load_block3 p blk) = m"
  shows "honest rnd 728 (\<lambda>z. map_regs xor3 z = sha_compress (map_regs xor3 H) m)
     (\<lambda>e. map_regs (opened e)) (prove_block rnd p blk H)
     (\<lambda>e F. verify_block (sel3 F e) (sel3 F (succ3 e)) (opened e rnd) (opened e p) blk
        (map_regs (opened e) H))"
  unfolding prove_block_def sha_compress_def Let_def
  by (rule honest_block_with[OF assms honest_final])

text \<open>Padding commutes with reconstruction: three equal paddings XOR to one.\<close>

definition rvec_msg :: "RVec \<Rightarrow> byte list" where
  "rvec_msg r = take L_BYTES (rvec_bytes r)"

lemma store_u32_le_xor: "store_u32_le (a XOR b) = map2 (XOR) (store_u32_le a) (store_u32_le b)"
  by (auto simp: store_u32_le_def bit_simps intro!: bit_word_eqI)

lemma le_bytes_xor:
  "length xs = length ys \<Longrightarrow>
     le_bytes (map2 (XOR) xs ys) = map2 (XOR) (le_bytes xs) (le_bytes ys)"
  by (induction xs ys rule: list_induct2) (simp_all add: le_bytes_def store_u32_le_xor)

lemma length_rvec_msg [simp]: "length (words r) = L_WORDS \<Longrightarrow> length (rvec_msg r) = 129"
  by (simp add: rvec_msg_def rvec_bytes_def param_values)

lemma pad_share_sha_pad:
  assumes "length (words r) = L_WORDS"
  shows "pad_share r = sha_pad (rvec_msg r)"
proof -
  have "length (rvec_msg r) = 129" using assms by simp
  moreover have "replicate 63 (0::byte) = 0 # replicate 62 0"
    using replicate_Suc[of 62 "0::byte"] by simp
  ultimately show ?thesis
    by (simp add: pad_129(1) pad_share_def param_values paddedLen_def rvec_msg_def
        list_update_append drop_replicate)
qed

lemma rvec_msg_xor3:
  assumes "wf_shares s"
  shows "rvec_msg (rvec_xor3 s) =
     map2 (XOR) (rvec_msg (at0 s)) (map2 (XOR) (rvec_msg (at1 s)) (rvec_msg (at2 s)))"
  using wf_sharesD[OF assms]
  by (simp add: rvec_msg_def rvec_bytes_def rvec_xor3_def le_bytes_xor take_map take_zip)

lemma sha_pad_xor3:
  assumes "length a = 129" "length b = 129" "length c = 129" and "i < 192"
  shows "sha_pad (map2 (XOR) a (map2 (XOR) b c)) ! i
       = sha_pad a ! i XOR sha_pad b ! i XOR sha_pad c ! i"
proof -
  have same: "v = v XOR v XOR v" for v :: byte by simp
  show ?thesis
  proof (cases "i < 129")
    case True
    then show ?thesis by (simp add: pad_129(1) assms nth_append)
  next
    case False
    then show ?thesis by (simp add: pad_129(1) assms nth_append)
  qed
qed

lemma load_u32_be_xor3:
  assumes "\<And>i. i < 4 \<Longrightarrow> s ! i = a ! i XOR b ! i XOR c ! i"
  shows "load_u32_be s = load_u32_be a XOR load_u32_be b XOR load_u32_be c"
  by (rule bit_word_eqI) (simp add: bit_load_u32_be bit_xor_iff assms)

lemma load_block3_xor3:
  assumes "wf_shares s" and "blk < 3"
  shows "map xor3 (load_block3 (map_arr3 pad_share s) blk)
       = block_words (sha_pad (rvec_msg (rvec_xor3 s))) blk"
proof -
  have len: "length (rvec_msg (at0 s)) = 129" "length (rvec_msg (at1 s)) = 129"
    "length (rvec_msg (at2 s)) = 129" using wf_sharesD[OF assms(1)] by simp_all
  have "load_u32_be (drop (4 * j) (drop (64 * blk) (sha_pad (rvec_msg (rvec_xor3 s)))))
      = load_u32_be (drop (4 * j) (drop (64 * blk) (pad_share (at0 s))))
        XOR load_u32_be (drop (4 * j) (drop (64 * blk) (pad_share (at1 s))))
        XOR load_u32_be (drop (4 * j) (drop (64 * blk) (pad_share (at2 s))))" if "j < 16" for j
    unfolding rvec_msg_xor3[OF assms(1)]
    by (rule load_u32_be_xor3)
      (use that assms(2) len in \<open>simp add: pad_share_sha_pad wf_sharesD[OF assms(1)] pad_129(2)
        sha_pad_xor3\<close>)
  then have "xor3 (map_arr3 (\<lambda>p. load_u32_be (drop (j * 4) (drop (blk * 64) p))) (map_arr3 pad_share s))
      = load_u32_be (drop (4 * j) (drop (64 * blk) (sha_pad (rvec_msg (rvec_xor3 s)))))"
    if "j < 16" for j
    using that by (cases s) (simp add: xor3_def mult.commute)
  then show ?thesis
    by (simp add: load_block3_def block_words_def)
qed

section \<open>The whole circuit\<close>

lemma honest_sha:
  assumes "wf_shares s"
  shows "honest rnd 2184 (\<lambda>H. map_regs xor3 H = sha256_regs (rvec_msg (rvec_xor3 s)))
     (\<lambda>e. map_regs (opened e)) (mpc_sha256_prove_impl s rnd)
     (\<lambda>e F. loop (verify_block (sel3 F e) (sel3 F (succ3 e)) (opened e rnd)
         (opened e (map_arr3 pad_share s))) [0..<NUM_SHA256_BLOCKS] (map_regs (\<lambda>k. Arr2 k k) hA))"
proof -
  let ?p = "map_arr3 pad_share s" and ?m = "rvec_msg (rvec_xor3 s)"
  let ?f = "\<lambda>H blk. sha_compress H (block_words (sha_pad ?m) blk)"
  have "honest rnd (728 * (3 - 0)) (\<lambda>H. map_regs xor3 H = foldl ?f hA [0..<3])
     (\<lambda>e. map_regs (opened e)) (loop (prove_block rnd ?p) [0..<3] (map_regs (\<lambda>k. Arr3 k k k) hA))
     (\<lambda>e F. loop (verify_block (sel3 F e) (sel3 F (succ3 e)) (opened e rnd) (opened e ?p)) [0..<3]
        (map_regs (opened e) (map_regs (\<lambda>k. Arr3 k k k) hA)))"
  proof (rule honest_for[where Q = "\<lambda>i H. map_regs xor3 H = foldl ?f hA [0..<i]"])
    fix blk and H :: "u32 arr3 regs"
    assume "blk < 3" and H: "map_regs xor3 H = foldl ?f hA [0..<blk]"
    show "honest rnd 728 (\<lambda>H. map_regs xor3 H = foldl ?f hA [0..<Suc blk])
        (\<lambda>e. map_regs (opened e)) (prove_block rnd ?p blk H)
        (\<lambda>e F. verify_block (sel3 F e) (sel3 F (succ3 e)) (opened e rnd) (opened e ?p) blk
          (map_regs (opened e) H))"
      by (rule honest_weaken[OF honest_block[OF load_block3_xor3[OF assms \<open>blk < 3\<close>]]])
         (simp add: H)
  qed (simp_all add: regs.map_comp o_def regs.map_ident)
  moreover have "length (rvec_msg (rvec_xor3 s)) = 129"
    using wf_sharesD[OF assms] by (simp add: rvec_xor3_def)
  ultimately show ?thesis
    by (simp only: mpc_sha256_prove_impl_def Let_def sha256_regs_def pad_129 param_values
        regs.map_comp o_def opened_same) simp
qed

section \<open>mpc_sha256_prove and mpc_sha256_verify\<close>

definition prover_buffers :: "byte list arr3 \<Rightarrow> View arr3 \<Rightarrow> bool" where
  "prover_buffers rnd views \<longleftrightarrow>
     (\<forall>e<3. length (sel3 rnd e) = RAND_BYTES \<and> length (view_y (sel3 views e)) = ySize)"

text \<open>
  One run of a prover p whose gates the verifier's circuit accepts: its result,
  its bookkeeping, its three verifier runs.
\<close>

lemma circuit_run:
  assumes p: "honest rnd 2184 Q (\<lambda>e. map_regs (opened e)) p
     (\<lambda>e F. loop (verify_block (sel3 F e) (sel3 F (succ3 e)) (opened e rnd)
         (opened e (map_arr3 pad_share s))) [0..<NUM_SHA256_BLOCKS] (map_regs (\<lambda>k. Arr2 k k) hA))"
    and bufs: "prover_buffers rnd views"
  obtains H t where
    "p \<lparr>cnt = \<lparr>rand_count = 0, count_y = 0\<rparr>, y_views = map_arr3 view_y views\<rparr> = Inr (H, t)" "Q H"
    "cnt t = \<lparr>rand_count = RAND_BYTES, count_y = ySize\<rparr>"
    "\<And>e. e < 3 \<Longrightarrow> length (sel3 (y_views t) e) = ySize"
    "\<And>e F. e < 3 \<Longrightarrow> agrees t F \<Longrightarrow> (\<And>i. i < 3 \<Longrightarrow> view_x (sel3 F i) = sel3 s i) \<Longrightarrow>
       verify_circuit (sel3 F e) (sel3 F (succ3 e)) (opened e rnd) \<lparr>rand_count = 0, count_y = 0\<rparr>
         = Inr (map_regs (opened e) H, cnt t)"
proof -
  let ?st = "\<lparr>cnt = \<lparr>rand_count = 0, count_y = 0\<rparr>, y_views = map_arr3 view_y views\<rparr>"
  have "room rnd 2184 ?st"
    using bufs by (auto simp: room_def prover_buffers_def param_values)
  from honestE[OF p this] obtain H t
    where H: "p ?st = Inr (H, t)" "Q H" "moved 2184 ?st t"
      and v: "\<And>e F. e < 3 \<Longrightarrow> agrees t F \<Longrightarrow>
        loop (verify_block (sel3 F e) (sel3 F (succ3 e)) (opened e rnd)
         (opened e (map_arr3 pad_share s))) [0..<NUM_SHA256_BLOCKS] (map_regs (\<lambda>k. Arr2 k k) hA)
         (cnt ?st) = Inr (map_regs (opened e) H, cnt t)"
    by blast
  have "cnt t = \<lparr>rand_count = RAND_BYTES, count_y = ySize\<rparr>"
    and "\<And>e. e < 3 \<Longrightarrow> length (sel3 (y_views t) e) = ySize"
    using H(3) bufs by (auto simp: moved_def advance_def param_values prover_buffers_def)
  moreover have "verify_circuit (sel3 F e) (sel3 F (succ3 e)) (opened e rnd)
      \<lparr>rand_count = 0, count_y = 0\<rparr> = Inr (map_regs (opened e) H, cnt t)"
    if "e < 3" "agrees t F" "\<And>i. i < 3 \<Longrightarrow> view_x (sel3 F i) = sel3 s i" for e F
    using v[OF that(1,2)] that(1,3) by (simp add: verify_circuit_def opened_def)
  ultimately show ?thesis using that H by blast
qed

text \<open>Views that hold the input shares s and an accepted execution with the outputs H.\<close>

definition accepted_views :: "byte list arr3 \<Rightarrow> RVec arr3 \<Rightarrow> u32 arr3 regs \<Rightarrow> View arr3 \<Rightarrow> bool" where
  "accepted_views rnd s H views \<longleftrightarrow>
     (\<forall>e<3. view_x (sel3 views e) = sel3 s e \<and> length (view_y (sel3 views e)) = ySize) \<and>
     (\<forall>e F. e < 3 \<longrightarrow>
       (\<forall>i<3. view_x (sel3 F i) = sel3 s i \<and> view_y (sel3 F i) = view_y (sel3 views i)) \<longrightarrow>
       verify_circuit (sel3 F e) (sel3 F (succ3 e)) (opened e rnd) \<lparr>rand_count = 0, count_y = 0\<rparr>
         = Inr (map_regs (opened e) H, \<lparr>rand_count = RAND_BYTES, count_y = ySize\<rparr>))"

lemma accepted_viewsD:
  assumes "accepted_views rnd s H views" and "e < 3"
  shows "view_x (sel3 views e) = sel3 s e" "length (view_y (sel3 views e)) = ySize"
    "(\<And>i. i < 3 \<Longrightarrow> view_x (sel3 F i) = sel3 s i \<and> view_y (sel3 F i) = view_y (sel3 views i)) \<Longrightarrow>
       verify_circuit (sel3 F e) (sel3 F (succ3 e)) (opened e rnd) \<lparr>rand_count = 0, count_y = 0\<rparr>
         = Inr (map_regs (opened e) H, \<lparr>rand_count = RAND_BYTES, count_y = ySize\<rparr>)"
  using assms unfolding accepted_views_def by blast+

lemma circuit_views:
  assumes p: "honest rnd 2184 Q (\<lambda>e. map_regs (opened e)) p
     (\<lambda>e F. loop (verify_block (sel3 F e) (sel3 F (succ3 e)) (opened e rnd)
         (opened e (map_arr3 pad_share s))) [0..<NUM_SHA256_BLOCKS] (map_regs (\<lambda>k. Arr2 k k) hA))"
    and bufs: "prover_buffers rnd views"
  obtains H t where
    "p \<lparr>cnt = \<lparr>rand_count = 0, count_y = 0\<rparr>, y_views = map_arr3 view_y views\<rparr> = Inr (H, t)" "Q H"
    "accepted_views rnd s H (zip3 (\<lambda>v xy. v\<lparr>view_x := fst xy, view_y := snd xy\<rparr>) views
       (zip3 Pair s (y_views t)))"
proof (rule circuit_run[OF p bufs])
  fix H t
  assume run: "p \<lparr>cnt = \<lparr>rand_count = 0, count_y = 0\<rparr>, y_views = map_arr3 view_y views\<rparr> = Inr (H, t)" "Q H"
    and c: "cnt t = \<lparr>rand_count = RAND_BYTES, count_y = ySize\<rparr>"
    and len: "\<And>e. e < 3 \<Longrightarrow> length (sel3 (y_views t) e) = ySize"
    and ver: "\<And>e F. e < 3 \<Longrightarrow> agrees t F \<Longrightarrow> (\<And>i. i < 3 \<Longrightarrow> view_x (sel3 F i) = sel3 s i) \<Longrightarrow>
       verify_circuit (sel3 F e) (sel3 F (succ3 e)) (opened e rnd) \<lparr>rand_count = 0, count_y = 0\<rparr>
         = Inr (map_regs (opened e) H, cnt t)"
  let ?vs = "zip3 (\<lambda>v xy. v\<lparr>view_x := fst xy, view_y := snd xy\<rparr>) views (zip3 Pair s (y_views t))"
  have ag: "agrees t F" if "\<And>i. i < 3 \<Longrightarrow> view_y (sel3 F i) = view_y (sel3 ?vs i)" for F
    using that by (simp add: agrees_def)
  have "accepted_views rnd s H ?vs"
    using len ver[OF _ ag] by (simp add: accepted_views_def c)
  with run that show ?thesis by blast
qed

text \<open>The 32-bit words that three lists of shares stand for.\<close>

definition xor_words :: "u32 list arr3 \<Rightarrow> u32 list" where
  "xor_words out = map2 (XOR) (at0 out) (map2 (XOR) (at1 out) (at2 out))"

definition output_lists :: "u32 arr3 regs \<Rightarrow> u32 list arr3" where
  "output_lists H = Arr3 (regs_list (map_regs at0 H)) (regs_list (map_regs at1 H))
     (regs_list (map_regs at2 H))"

lemma xor_words_outputs: "xor_words (output_lists H) = regs_list (map_regs xor3 H)"
  by (cases H) (simp add: xor_words_def output_lists_def regs_list_def xor3_def)

lemma length_output_lists: "length (sel3 (output_lists H) e) = 8"
  by (simp add: output_lists_def sel3_def)

lemma output_lists_opened:
  "i < 8 \<Longrightarrow> regs_list (map_regs fst2 (map_regs (opened e) H)) ! i = sel3 (output_lists H) e ! i"
  "i < 8 \<Longrightarrow> regs_list (map_regs snd2 (map_regs (opened e) H)) ! i = sel3 (output_lists H) (succ3 e) ! i"
  by (simp_all add: regs.map_comp o_def regs_list_map output_lists_def sel3_def)

lemma mpc_sha256_prove_result:
  assumes "wf_shares s" and "prover_buffers rnd views"
  obtains views' H where "mpc_sha256_prove s rnd views = Inr (views', output_lists H)"
    "map_regs xor3 H = sha256_regs (rvec_msg (rvec_xor3 s))" "accepted_views rnd s H views'"
    "\<And>e. e < 3 \<Longrightarrow> view_msg (sel3 views' e) = view_msg (sel3 views e)"
proof (rule circuit_views[OF honest_sha[OF assms(1)] assms(2)])
  fix H t
  assume run: "mpc_sha256_prove_impl s rnd \<lparr>cnt = \<lparr>rand_count = 0, count_y = 0\<rparr>,
        y_views = map_arr3 view_y views\<rparr> = Inr (H, t)"
    and H: "map_regs xor3 H = sha256_regs (rvec_msg (rvec_xor3 s))"
    and ok: "accepted_views rnd s H (zip3 (\<lambda>v xy. v\<lparr>view_x := fst xy, view_y := snd xy\<rparr>) views
       (zip3 Pair s (y_views t)))"
  show ?thesis
    by (rule that[OF _ H ok]) (simp_all add: mpc_sha256_prove_def output_lists_def run)
qed

text \<open>mpc\_sha256\_verify on accepted views, with any message shares.\<close>

lemma mpc_sha256_verify_accepts:
  assumes "accepted_views (generate_randomness stream keys) s H views0" and "e < 3"
    and "\<And>i. i < 3 \<Longrightarrow> view_x (sel3 views i) = sel3 s i \<and> view_y (sel3 views i) = view_y (sel3 views0 i)"
  shows "mpc_sha256_verify stream True (output_lists H) e (zk_open e keys rs views) = Inr ()"
proof -
  have "list_all (\<lambda>i. regs_list (map_regs fst2 (map_regs (opened e) H)) ! i = sel3 (output_lists H) e ! i
      \<and> regs_list (map_regs snd2 (map_regs (opened e) H)) ! i = sel3 (output_lists H) (succ3 e) ! i)
      [0..<SHA256_DIGEST_WORDS]"
    by (simp only: list_all_iff param_values set_upt) (auto simp: output_lists_opened)
  moreover have "Arr2 (getAllRandomness stream (sel3 keys e)) (getAllRandomness stream (sel3 keys (succ3 e)))
      = opened e (generate_randomness stream keys)"
    by (simp add: opened_def generate_randomness_def)
  ultimately show ?thesis
    by (simp only: mpc_sha256_verify_def zk_open_def Let_def ZkBooOpen.simps option.case assms(2)
        accepted_viewsD(3)[OF assms]
        sum.case prod.case if_True not_True_eq_False if_False)
qed

text \<open>C11: mpc\_sha256\_prove computes SHA-256 on shares.  For every well-formed sharing of the input,
  on any random tapes and view buffers of the declared sizes, it stays inside all its buffers, and
  the three output share arrays XOR, word by word, to the big-endian SHA-256 digest (FIPS 180-4)
  of the 129 bytes that the input shares XOR to.\<close>

theorem mpc_sha256_prove_correct:
  assumes "wf_shares s" and "prover_buffers rnd views"
  shows "\<exists>views' out. mpc_sha256_prove s rnd views = Inr (views', out) \<and>
     concat (map store_u32_be (xor_words out)) = sha256 (rvec_msg (rvec_xor3 s))"
proof -
  from mpc_sha256_prove_result[OF assms] obtain views' H where
    "mpc_sha256_prove s rnd views = Inr (views', output_lists H)"
    "map_regs xor3 H = sha256_regs (rvec_msg (rvec_xor3 s))" by metis
  then show ?thesis by (auto simp: sha256_def xor_words_outputs)
qed

definition zero_rvec :: RVec where
  "zero_rvec = \<lparr>words = replicate L_WORDS 0\<rparr>"

definition zero_view :: View where
  "zero_view = \<lparr>view_x = zero_rvec, view_msg = replicate 4 0, view_y = replicate ySize 0\<rparr>"

lemma zero_ready:
  "wf_shares (Arr3 zero_rvec zero_rvec zero_rvec)"
  "prover_buffers (generate_randomness stream keys) (Arr3 zero_view zero_view zero_view)"
  by (simp_all add: wf_shares_def wf_rvec_def sel3_def zero_rvec_def prover_buffers_def
      zero_view_def generate_randomness_def arr3.map_sel)

lemma mpc_sha256_prove_correct_witness:
  "\<exists>views' out. mpc_sha256_prove (Arr3 zero_rvec zero_rvec zero_rvec)
      (generate_randomness (\<lambda>_ _. 7) (Arr3 [1] [2] [3])) (Arr3 zero_view zero_view zero_view)
      = Inr (views', out) \<and>
     concat (map store_u32_be (xor_words out)) =
       sha256 (rvec_msg (rvec_xor3 (Arr3 zero_rvec zero_rvec zero_rvec)))"
  by (rule mpc_sha256_prove_correct[OF zero_ready])

text \<open>Completeness of the circuit.  For every run of mpc\_sha256\_prove on tapes expanded from three
  keys and for each of the three challenges, mpc\_sha256\_verify accepts the opening of the two
  challenged views: it redraws the same tapes, every AND and ADD gate matches the published words,
  and the output shares agree.\<close>

theorem mpc_sha256_complete:
  assumes "wf_shares s" and "prover_buffers (generate_randomness stream keys) views"
    and "mpc_sha256_prove s (generate_randomness stream keys) views = Inr (views', out)"
    and "e < 3"
  shows "mpc_sha256_verify stream True out e (zk_open e keys rs views') = Inr ()"
proof -
  from mpc_sha256_prove_result[OF assms(1,2)] obtain H where
    "out = output_lists H" and ok: "accepted_views (generate_randomness stream keys) s H views'"
    using assms(3) by (metis Pair_inject sum.inject(2))
  then show ?thesis
    using mpc_sha256_verify_accepts[OF ok assms(4)] accepted_viewsD(1)[OF ok] by simp
qed

lemma mpc_sha256_complete_witness:
  "\<exists>views' out. mpc_sha256_verify (\<lambda>_ _. 7) True out 1
     (zk_open 1 (Arr3 [1] [2] [3]) (Arr3 [4] [5] [6]) views') = Inr ()"
proof -
  obtain views' H where "mpc_sha256_prove (Arr3 zero_rvec zero_rvec zero_rvec)
      (generate_randomness (\<lambda>_ _. 7) (Arr3 [1] [2] [3])) (Arr3 zero_view zero_view zero_view)
      = Inr (views', output_lists H)"
    using mpc_sha256_prove_result[OF zero_ready] by metis
  from mpc_sha256_complete[OF zero_ready this, of 1] show ?thesis by auto
qed

end
