(* ===== verification/MPC_SHA256_Sound.thy ===== *)
theory MPC_SHA256_Sound
  imports MPC_SHA256_Correct
begin

unbundle bit_operations_syntax

text \<open>
  What three accepting runs of the verifier prove.  F holds the three views,
  rnd the three tapes; the gate at position k adds with the extra carry cin F k,
  the parity of the lowest bits of the words published there.
\<close>

text \<open>Gate positions in the form k + n.\<close>

lemma gate_index: "Suc (Suc k) = k + 2" "Suc (k + numeral v) = k + numeral (v + Num.One)"
  by simp_all

lemma extracts_ret_snoc:
  "Q (w @ [z]) \<Longrightarrow>
     extracts k 0 Q (\<lambda>e. map (opened e)) (\<lambda>e. ret (map (opened e) w @ [opened e z]))"
  by (rule extracts_ret_eq, assumption) simp

lemma extracts_ret_regs:
  "Q (Regs a b c d e f g h) \<Longrightarrow> extracts k 0 Q (\<lambda>i. map_regs (opened i))
     (\<lambda>i. ret (Regs (opened i a) (opened i b) (opened i c) (opened i d)
        (opened i e) (opened i f) (opened i g) (opened i h)))"
  by (rule extracts_ret_eq, assumption) simp

lemma extracts_schedule:
  assumes "16 \<le> j" and "length w = j"
  shows "extracts (p + 3 * (j - 16)) 3
     (\<lambda>z. map xor3 z = schedule_carry (cin F) p (map xor3 w) j \<and> length z = Suc j)
     (\<lambda>e. map (opened e))
     (\<lambda>e. verify_schedule (sel3 F e) (sel3 F (succ3 e)) (opened e rnd) j (map (opened e) w))"
proof -
  have n: "map f w ! (j - i) = f (w ! (j - i))" if "0 < i" for f :: "u32 arr3 \<Rightarrow> 'z" and i
    using that assms by simp
  show ?thesis
    unfolding verify_schedule_def Let_def
    by (simp only: n zero_less_numeral opens, rule extracts_count,
        (rule extracts_steps, (simp (no_asm) only: opens)?)+, rule extracts_ret_snoc)
      (simp_all add: schedule_carry_def addc_def n assms gate_values add_ac Let_def gate_index
        del: add_2_eq_Suc add_2_eq_Suc')
qed

lemma extracts_round:
  assumes "i < length w"
  shows "extracts (p + 144 + 9 * i) 9
     (\<lambda>z. map_regs xor3 z = round_carry (cin F) p (map xor3 w) (map_regs xor3 r) i)
     (\<lambda>e. map_regs (opened e))
     (\<lambda>e. verify_round (sel3 F e) (sel3 F (succ3 e)) (opened e rnd) (map (opened e) w) i
        (map_regs (opened e) r))"
proof (cases r)
  case (Regs a b c d e f g h)
  show ?thesis
    unfolding verify_round_def Let_def Regs regs.case regs.map nth_map[OF assms]
    by (simp only: opens, rule extracts_count,
        (rule extracts_steps, (simp (no_asm) only: opens)?)+, rule extracts_ret_regs)
      (simp_all add: round_carry_def addc_def assms gate_values add_ac Let_def gate_index
        del: add_2_eq_Suc add_2_eq_Suc')
qed

lemma extracts_final:
  "extracts q 8 (\<lambda>z. map_regs xor3 z =
       Regs (addc (cin F q) (xor3 (reg_a H)) (xor3 (reg_a r)))
            (addc (cin F (q + 1)) (xor3 (reg_b H)) (xor3 (reg_b r)))
            (addc (cin F (q + 2)) (xor3 (reg_c H)) (xor3 (reg_c r)))
            (addc (cin F (q + 3)) (xor3 (reg_d H)) (xor3 (reg_d r)))
            (addc (cin F (q + 4)) (xor3 (reg_e H)) (xor3 (reg_e r)))
            (addc (cin F (q + 5)) (xor3 (reg_f H)) (xor3 (reg_f r)))
            (addc (cin F (q + 6)) (xor3 (reg_g H)) (xor3 (reg_g r)))
            (addc (cin F (q + 7)) (xor3 (reg_h H)) (xor3 (reg_h r))))
     (\<lambda>e. map_regs (opened e))
     (\<lambda>e. verify_final (sel3 F e) (sel3 F (succ3 e)) (opened e rnd)
        (map_regs (opened e) H) (map_regs (opened e) r))"
  unfolding verify_final_def
  by (cases H; cases r; simp only: regs.map regs.sel, rule extracts_count,
      (rule extracts_steps, (simp (no_asm) only: opens)?)+, rule extracts_ret_regs)
    (simp_all add: addc_def add_ac gate_index del: add_2_eq_Suc add_2_eq_Suc')

lemma extracts_schedules:
  assumes "map xor3 w = m" and "length m = 16"
  shows "extracts p 144
     (\<lambda>w. map xor3 w = foldl (schedule_carry (cin F) p) m [16..<64] \<and> length w = 64)
     (\<lambda>e. map (opened e))
     (\<lambda>e. loop (verify_schedule (sel3 F e) (sel3 F (succ3 e)) (opened e rnd)) [16..<64]
        (map (opened e) w))"
proof -
  let ?s = "schedule_carry (cin F) p"
  have "extracts p (3 * (64 - 16)) (\<lambda>w. map xor3 w = foldl ?s m [16..<64] \<and> length w = 64)
     (\<lambda>e. map (opened e))
     (\<lambda>e. loop (verify_schedule (sel3 F e) (sel3 F (succ3 e)) (opened e rnd)) [16..<64]
        (map (opened e) w))"
  proof (rule extracts_for[where Q = "\<lambda>j w. map xor3 w = foldl ?s m [16..<j] \<and> length w = j"])
    fix j and w :: "u32 arr3 list"
    assume j: "16 \<le> j" and w: "map xor3 w = foldl ?s m [16..<j] \<and> length w = j"
    from j w have "length w = j" by simp
    from extracts_schedule[OF j this, of p F rnd]
    show "extracts (p + 3 * (j - 16)) 3
        (\<lambda>w. map xor3 w = foldl ?s m [16..<Suc j] \<and> length w = Suc j) (\<lambda>e. map (opened e))
        (\<lambda>e. verify_schedule (sel3 F e) (sel3 F (succ3 e)) (opened e rnd) j (map (opened e) w))"
      by (rule extracts_weaken) (use j w in simp)
  qed (use assms in auto)
  then show ?thesis by simp
qed

lemma extracts_rounds:
  assumes "length w = 64"
  shows "extracts (p + 144) 576
     (\<lambda>r. map_regs xor3 r = foldl (round_carry (cin F) p (map xor3 w)) (map_regs xor3 H) [0..<64])
     (\<lambda>e. map_regs (opened e))
     (\<lambda>e. loop (verify_round (sel3 F e) (sel3 F (succ3 e)) (opened e rnd) (map (opened e) w))
        [0..<64] (map_regs (opened e) H))"
proof -
  let ?s = "round_carry (cin F) p (map xor3 w)"
  have "extracts (p + 144) (9 * (64 - 0))
     (\<lambda>r. map_regs xor3 r = foldl ?s (map_regs xor3 H) [0..<64])
     (\<lambda>e. map_regs (opened e))
     (\<lambda>e. loop (verify_round (sel3 F e) (sel3 F (succ3 e)) (opened e rnd) (map (opened e) w))
        [0..<64] (map_regs (opened e) H))"
  proof (rule extracts_for[where Q = "\<lambda>i r. map_regs xor3 r =
      foldl ?s (map_regs xor3 H) [0..<i]"])
    fix i and r :: "u32 arr3 regs"
    assume i: "i < 64" and r: "map_regs xor3 r = foldl ?s (map_regs xor3 H) [0..<i]"
    from i assms have "i < length w" by simp
    from extracts_round[OF this, of p F r rnd]
    have "extracts (p + 144 + 9 * i) 9
        (\<lambda>r. map_regs xor3 r = foldl ?s (map_regs xor3 H) [0..<Suc i]) (\<lambda>e. map_regs (opened e))
        (\<lambda>e. verify_round (sel3 F e) (sel3 F (succ3 e)) (opened e rnd) (map (opened e) w) i
          (map_regs (opened e) r))"
      by (rule extracts_weaken) (use r in simp)
    then show "extracts (p + 144 + 9 * (i - 0)) 9
        (\<lambda>r. map_regs xor3 r = foldl ?s (map_regs xor3 H) [0..<Suc i]) (\<lambda>e. map_regs (opened e))
        (\<lambda>e. verify_round (sel3 F e) (sel3 F (succ3 e)) (opened e rnd) (map (opened e) w) i
          (map_regs (opened e) r))" by simp
  qed simp_all
  then show ?thesis by simp
qed

lemma extracts_block:
  assumes "map xor3 (load_block3 pd blk) = m"
  shows "extracts p 728 (\<lambda>z. map_regs xor3 z = compress_carry (cin F) p (map_regs xor3 H) m)
     (\<lambda>e. map_regs (opened e))
     (\<lambda>e. verify_block (sel3 F e) (sel3 F (succ3 e)) (opened e rnd) (opened e pd) blk
        (map_regs (opened e) H))"
proof -
  have "length m = 16" using assms by auto
  note sched = extracts_schedules[OF assms this, of p F rnd]
  show ?thesis
    unfolding verify_block_def map_load_block3[symmetric]
  proof (rule extracts_count, rule extracts_bnd[OF sched], rule extracts_bnd[OF extracts_rounds])
    fix w :: "u32 arr3 list" and r
    assume "map xor3 w = foldl (schedule_carry (cin F) p) m [16..<64] \<and> length w = 64"
      and "map_regs xor3 r = foldl (round_carry (cin F) p (map xor3 w)) (map_regs xor3 H) [0..<64]"
    then have "compress_carry (cin F) p (map_regs xor3 H) m =
       Regs (addc (cin F (p + 720)) (xor3 (reg_a H)) (xor3 (reg_a r)))
            (addc (cin F (p + 720 + 1)) (xor3 (reg_b H)) (xor3 (reg_b r)))
            (addc (cin F (p + 720 + 2)) (xor3 (reg_c H)) (xor3 (reg_c r)))
            (addc (cin F (p + 720 + 3)) (xor3 (reg_d H)) (xor3 (reg_d r)))
            (addc (cin F (p + 720 + 4)) (xor3 (reg_e H)) (xor3 (reg_e r)))
            (addc (cin F (p + 720 + 5)) (xor3 (reg_f H)) (xor3 (reg_f r)))
            (addc (cin F (p + 720 + 6)) (xor3 (reg_g H)) (xor3 (reg_g r)))
            (addc (cin F (p + 720 + 7)) (xor3 (reg_h H)) (xor3 (reg_h r)))"
      unfolding compress_carry_def Let_def by (metis regs.map_sel)
    moreover have "p + 144 + 576 = p + 720" by simp
    ultimately
    show "extracts (p + 144 + 576) 8
        (\<lambda>z. map_regs xor3 z = compress_carry (cin F) p (map_regs xor3 H) m)
        (\<lambda>e. map_regs (opened e))
        (\<lambda>e. verify_final (sel3 F e) (sel3 F (succ3 e)) (opened e rnd)
          (map_regs (opened e) H) (map_regs (opened e) r))"
      using extracts_final[of "p + 720" F H r rnd] by (simp only:)
  qed simp_all
qed

lemma extracts_sha:
  assumes "wf_shares s"
  shows "extracts 0 2184 (\<lambda>H. map_regs xor3 H = sha256_carry (cin F) (rvec_msg (rvec_xor3 s)))
     (\<lambda>e. map_regs (opened e))
     (\<lambda>e. loop (verify_block (sel3 F e) (sel3 F (succ3 e)) (opened e rnd)
         (opened e (map_arr3 pad_share s))) [0..<NUM_SHA256_BLOCKS] (map_regs (\<lambda>k. Arr2 k k) hA))"
proof -
  let ?p = "map_arr3 pad_share s" and ?m = "rvec_msg (rvec_xor3 s)"
  let ?f = "\<lambda>H blk. compress_carry (cin F) (728 * blk) H (block_words (sha_pad ?m) blk)"
  have "extracts 0 (728 * (3 - 0)) (\<lambda>H. map_regs xor3 H = foldl ?f hA [0..<3])
     (\<lambda>e. map_regs (opened e))
     (\<lambda>e. loop (verify_block (sel3 F e) (sel3 F (succ3 e)) (opened e rnd) (opened e ?p)) [0..<3]
        (map_regs (opened e) (map_regs (\<lambda>k. Arr3 k k k) hA)))"
  proof (rule extracts_for[where Q = "\<lambda>i H. map_regs xor3 H = foldl ?f hA [0..<i]"])
    fix blk and H :: "u32 arr3 regs"
    assume "blk < 3" and H: "map_regs xor3 H = foldl ?f hA [0..<blk]"
    have "extracts (728 * blk) 728 (\<lambda>H. map_regs xor3 H = foldl ?f hA [0..<Suc blk])
        (\<lambda>e. map_regs (opened e))
        (\<lambda>e. verify_block (sel3 F e) (sel3 F (succ3 e)) (opened e rnd) (opened e ?p) blk
          (map_regs (opened e) H))"
      by (rule extracts_weaken[OF extracts_block[OF load_block3_xor3[OF assms \<open>blk < 3\<close>]]])
         (simp add: H)
    then show "extracts (0 + 728 * (blk - 0)) 728
        (\<lambda>H. map_regs xor3 H = foldl ?f hA [0..<Suc blk]) (\<lambda>e. map_regs (opened e))
        (\<lambda>e. verify_block (sel3 F e) (sel3 F (succ3 e)) (opened e rnd) (opened e ?p) blk
          (map_regs (opened e) H))" by simp
  qed (simp_all add: regs.map_comp o_def regs.map_ident)
  moreover have "length (rvec_msg (rvec_xor3 s)) = 129"
    using wf_sharesD[OF assms] by (simp add: rvec_xor3_def)
  ultimately show ?thesis
    by (simp only: Let_def sha256_carry_def pad_129 param_values
        regs.map_comp o_def opened_same) simp
qed

section \<open>Three accepting verifiers\<close>

lemma mpc_sha256_verify_InrD:
  assumes "mpc_sha256_verify stream ok out e z = Inr ()"
  obtains v v1 H c where "z_ve z = Some v" "z_ve1 z = Some v1" "e < 3" "ok"
    "verify_circuit v v1 (Arr2 (getAllRandomness stream (z_ke z)) (getAllRandomness stream (z_ke1 z)))
       (at_gate 0) = Inr (H, c)"
    "\<And>i. i < 8 \<Longrightarrow> regs_list (map_regs fst2 H) ! i = sel3 out e ! i"
    "\<And>i. i < 8 \<Longrightarrow> regs_list (map_regs snd2 H) ! i = sel3 out (succ3 e) ! i"
  using assms unfolding mpc_sha256_verify_def
  by (auto simp: Let_def at_gate_def list_all_iff param_values split: option.splits if_splits sum.splits)

lemma output_lists_eqI:
  assumes "\<And>e i. e < 3 \<Longrightarrow> i < 8 \<Longrightarrow> regs_list (map_regs fst2 (map_regs (opened e) Z)) ! i = sel3 out e ! i"
    and "\<And>e. e < 3 \<Longrightarrow> length (sel3 out e) = 8"
  shows "out = output_lists Z"
proof (rule arr3_eqI)
  fix e :: nat assume e: "e < 3"
  show "sel3 out e = sel3 (output_lists Z) e"
    by (rule nth_equalityI)
       (use e assms(2)[OF e] assms(1)[OF e] output_lists_opened(1) in
         \<open>auto simp: length_output_lists\<close>)
qed

text \<open>Three accepting openings of one triple of views and keys.\<close>

lemma verify_three_sound:
  assumes wf: "wf_shares (map_arr3 view_x views)"
    and acc: "\<And>e. e < 3 \<Longrightarrow> mpc_sha256_verify stream True out e (zk_open e keys rs views) = Inr ()"
    and len: "\<And>e. e < 3 \<Longrightarrow> length (sel3 out e) = 8"
  shows "xor_words out =
     regs_list (sha256_carry (cin views) (rvec_msg (rvec_xor3 (map_arr3 view_x views))))"
proof -
  let ?rnd = "generate_randomness stream keys" and ?s = "map_arr3 view_x views"
  let ?v = "\<lambda>e. loop (verify_block (sel3 views e) (sel3 views (succ3 e)) (opened e ?rnd)
         (opened e (map_arr3 pad_share ?s))) [0..<NUM_SHA256_BLOCKS] (map_regs (\<lambda>k. Arr2 k k) hA)"
  have "\<exists>p. e < 3 \<longrightarrow> ?v e (at_gate 0) = Inr p \<and>
      (\<forall>i<8. regs_list (map_regs fst2 (fst p)) ! i = sel3 out e ! i)" for e
  proof (cases "e < 3")
    case True
    show ?thesis
    proof (rule mpc_sha256_verify_InrD[OF acc[OF True]])
      fix v v1 H c
      assume "z_ve (zk_open e keys rs views) = Some v" "z_ve1 (zk_open e keys rs views) = Some v1"
        and run: "verify_circuit v v1 (Arr2 (getAllRandomness stream (z_ke (zk_open e keys rs views)))
          (getAllRandomness stream (z_ke1 (zk_open e keys rs views)))) (at_gate 0) = Inr (H, c)"
        and out: "\<And>i. i < 8 \<Longrightarrow> regs_list (map_regs fst2 H) ! i = sel3 out e ! i"
      then have "v = sel3 views e" "v1 = sel3 views (succ3 e)" by (simp_all add: zk_open_def)
      moreover have "Arr2 (getAllRandomness stream (z_ke (zk_open e keys rs views)))
          (getAllRandomness stream (z_ke1 (zk_open e keys rs views))) = opened e ?rnd"
        by (simp add: zk_open_def opened_def generate_randomness_def)
      moreover have "Arr2 (pad_share (view_x (sel3 views e))) (pad_share (view_x (sel3 views (succ3 e))))
          = opened e (map_arr3 pad_share ?s)"
        by (simp add: opened_def)
      ultimately have "?v e (at_gate 0) = Inr (H, c)"
        using run by (simp only: verify_circuit_def Let_def)
      with out show ?thesis by (intro exI[of _ "(H, c)"]) simp
    qed
  qed simp
  then obtain p where p: "\<forall>e. e < 3 \<longrightarrow> ?v e (at_gate 0) = Inr (p e) \<and>
      (\<forall>i<8. regs_list (map_regs fst2 (fst (p e))) ! i = sel3 out e ! i)"
    using choice[of "\<lambda>e p. e < 3 \<longrightarrow> ?v e (at_gate 0) = Inr p \<and>
      (\<forall>i<8. regs_list (map_regs fst2 (fst p)) ! i = sel3 out e ! i)"] by blast
  define H where "H e = fst (p e)" for e
  from p have run: "\<And>e. e < 3 \<Longrightarrow> ?v e (at_gate 0) = Inr (H e, snd (p e))"
    and out: "\<And>e i. e < 3 \<Longrightarrow> i < 8 \<Longrightarrow> regs_list (map_regs fst2 (H e)) ! i = sel3 out e ! i"
    by (simp_all add: H_def)
  from extractsE[OF extracts_sha[OF wf] run] obtain Z where
    Z: "map_regs xor3 Z = sha256_carry (cin views) (rvec_msg (rvec_xor3 ?s))"
    and H: "\<And>e. e < 3 \<Longrightarrow> H e = map_regs (opened e) Z"
    by blast
  have "out = output_lists Z"
    by (rule output_lists_eqI) (use out H len in simp_all)
  then show ?thesis by (simp add: xor_words_outputs Z)
qed

text \<open>
  Gate positions of the circuit: a position is an ADD gate unless it is gate 1
  (CH) or gate 5 (MAJ) of a round.
\<close>

definition add_position :: "nat \<Rightarrow> bool" where
  "add_position k \<longleftrightarrow> k < ySize \<and> \<not> (144 \<le> k mod 728 \<and> k mod 728 < 720 \<and> (k mod 728 - 144) mod 9 \<in> {1, 5})"

lemma schedule_carry_cong:
  assumes "\<And>k. add_position k \<Longrightarrow> c k = d k" and "16 \<le> j" "j < 64" "blk < 3"
  shows "schedule_carry c (728 * blk) w j = schedule_carry d (728 * blk) w j"
proof -
  have "add_position (728 * blk + 3 * (j - 16) + i)" if "i < 3" for i
    using assms(2-) that by (simp add: add_position_def add.assoc param_values)
  from assms(1)[OF this[of 0]] assms(1)[OF this[of 1]] assms(1)[OF this[of 2]]
  show ?thesis by (simp add: schedule_carry_def)
qed

lemma round_carry_cong:
  assumes "\<And>k. add_position k \<Longrightarrow> c k = d k" and "i < 64" "blk < 3"
  shows "round_carry c (728 * blk) w r i = round_carry d (728 * blk) w r i"
proof -
  have "add_position (728 * blk + 144 + 9 * i + n)" if "n < 9" "n \<noteq> 1" "n \<noteq> 5" for n
    using assms(2-) that by (simp add: add_position_def add.assoc param_values)
  from assms(1)[OF this[of 0]] assms(1)[OF this[of 2]] assms(1)[OF this[of 3]]
    assms(1)[OF this[of 4]] assms(1)[OF this[of 6]] assms(1)[OF this[of 7]] assms(1)[OF this[of 8]]
  have f: "c (728 * blk + 144 + 9 * i) = d (728 * blk + 144 + 9 * i)"
    "c (728 * blk + 144 + 9 * i + 2) = d (728 * blk + 144 + 9 * i + 2)"
    "c (728 * blk + 144 + 9 * i + 3) = d (728 * blk + 144 + 9 * i + 3)"
    "c (728 * blk + 144 + 9 * i + 4) = d (728 * blk + 144 + 9 * i + 4)"
    "c (728 * blk + 144 + 9 * i + 6) = d (728 * blk + 144 + 9 * i + 6)"
    "c (728 * blk + 144 + 9 * i + 7) = d (728 * blk + 144 + 9 * i + 7)"
    "c (728 * blk + 144 + 9 * i + 8) = d (728 * blk + 144 + 9 * i + 8)"
    by (simp_all del: One_nat_def)
  show ?thesis unfolding round_carry_def Let_def f by (rule refl)
qed

lemma compress_carry_cong:
  assumes c: "\<And>k. add_position k \<Longrightarrow> c k = d k" and blk: "blk < 3"
  shows "compress_carry c (728 * blk) H m = compress_carry d (728 * blk) H m"
proof -
  have "add_position (728 * blk + 720 + n)" if "n < 8" for n
    using that blk by (simp add: add_position_def add.assoc param_values)
  from c[OF this[of 0]] c[OF this[of 1]] c[OF this[of 2]] c[OF this[of 3]]
    c[OF this[of 4]] c[OF this[of 5]] c[OF this[of 6]] c[OF this[of 7]]
  have f: "c (728 * blk + 720) = d (728 * blk + 720)"
    "c (728 * blk + 720 + 1) = d (728 * blk + 720 + 1)"
    "c (728 * blk + 720 + 2) = d (728 * blk + 720 + 2)"
    "c (728 * blk + 720 + 3) = d (728 * blk + 720 + 3)"
    "c (728 * blk + 720 + 4) = d (728 * blk + 720 + 4)"
    "c (728 * blk + 720 + 5) = d (728 * blk + 720 + 5)"
    "c (728 * blk + 720 + 6) = d (728 * blk + 720 + 6)"
    "c (728 * blk + 720 + 7) = d (728 * blk + 720 + 7)"
    by (simp_all del: One_nat_def)
  have s: "foldl (schedule_carry c (728 * blk)) m [16..<64]
      = foldl (schedule_carry d (728 * blk)) m [16..<64]"
    by (rule foldl_cong) (use blk in \<open>auto intro!: schedule_carry_cong c\<close>)
  have r: "foldl (round_carry c (728 * blk) w) H [0..<64]
      = foldl (round_carry d (728 * blk) w) H [0..<64]" for w
    by (rule foldl_cong) (use blk in \<open>auto intro!: round_carry_cong c\<close>)
  show ?thesis
    unfolding compress_carry_def Let_def s r f by (rule refl)
qed

lemma sha256_carry_cong:
  assumes "\<And>k. add_position k \<Longrightarrow> c k = d k" and "length m = 129"
  shows "sha256_carry c m = sha256_carry d m"
  unfolding sha256_carry_def Let_def
  by (rule foldl_cong) (use assms(2) in \<open>auto intro!: compress_carry_cong assms(1)
    simp: pad_129(2)\<close>)

lemma length_rvec_xor3 [simp]:
  "wf_shares s \<Longrightarrow> length (words (rvec_xor3 s)) = L_WORDS"
  using wf_sharesD[of s] by (simp add: rvec_xor3_def)

text \<open>An honest run, as input for the witnesses.\<close>

lemma honest_run:
  obtains views out where "wf_shares (map_arr3 view_x views)"
    "\<And>e rs. e < 3 \<Longrightarrow> mpc_sha256_verify (\<lambda>_ _. 7) True out e
       (zk_open e (Arr3 [1] [2] [3]) rs views) = Inr ()"
    "\<And>e. e < 3 \<Longrightarrow> length (sel3 out e) = 8"
proof (rule mpc_sha256_prove_result[OF zero_ready(1) zero_ready(2)[where
      stream = "\<lambda>_ _. 7" and keys = "Arr3 [1] [2] [3]"]])
  let ?z = "Arr3 zero_rvec zero_rvec zero_rvec"
  fix views :: "View arr3" and H
  assume ok: "accepted_views (generate_randomness (\<lambda>_ _. 7) (Arr3 [1] [2] [3])) ?z H views"
  note x = accepted_viewsD(1)[OF ok]
  show ?thesis
  proof (rule that[of views "output_lists H"])
    have "map_arr3 view_x views = ?z"
      by (rule arr3_eqI) (simp add: x)
    then show "wf_shares (map_arr3 view_x views)" using zero_ready(1) by simp
    show "mpc_sha256_verify (\<lambda>_ _. 7) True (output_lists H) e
       (zk_open e (Arr3 [1] [2] [3]) rs views) = Inr ()" if "e < 3" for e rs
      by (rule mpc_sha256_verify_accepts[OF ok that]) (simp add: x)
  qed (simp add: length_output_lists)
qed

text \<open>C8: Soundness of the circuit.  If the verifier accepts the openings for all three
  challenges of one triple of views and keys, then the output shares stand for the SHA-256
  chaining value of the shared input, computed with the carries that the published words
  inject at the ADD gates.\<close>

theorem mpc_sha256_sound:
  assumes "wf_shares (map_arr3 view_x views)"
    and "\<And>e. e < 3 \<Longrightarrow> mpc_sha256_verify stream True out e (zk_open e keys rs views) = Inr ()"
    and "\<And>e. e < 3 \<Longrightarrow> length (sel3 out e) = 8"
  shows "xor_words out =
     regs_list (sha256_carry (cin views) (rvec_msg (rvec_xor3 (map_arr3 view_x views))))"
  using assms by (rule verify_three_sound)

lemma mpc_sha256_sound_witness:
  "\<exists>views out. (\<forall>e<3. mpc_sha256_verify (\<lambda>_ _. 7) True out e
       (zk_open e (Arr3 [1] [2] [3]) (Arr3 [4] [5] [6]) views) = Inr ()) \<and>
     xor_words out =
       regs_list (sha256_carry (cin views) (rvec_msg (rvec_xor3 (map_arr3 view_x views))))"
proof (rule honest_run)
  fix views out
  assume run: "wf_shares (map_arr3 view_x views)"
    "\<And>e rs. e < 3 \<Longrightarrow> mpc_sha256_verify (\<lambda>_ _. 7) True out e
       (zk_open e (Arr3 [1] [2] [3]) rs views) = Inr ()"
    "\<And>e. e < 3 \<Longrightarrow> length (sel3 out e) = 8"
  from mpc_sha256_sound[OF run] run(2) show ?thesis by blast
qed

text \<open>Three accepting challenges prove the digest unless a carry was injected: the output
  shares stand for SHA-256 of the shared input, or there is an ADD gate of the circuit whose
  published words reconstruct to a word with lowest bit 1, which no test of the verifier
  excludes.\<close>

theorem mpc_sha256_sound_or_carry:
  assumes "wf_shares (map_arr3 view_x views)"
    and "\<And>e. e < 3 \<Longrightarrow> mpc_sha256_verify stream True out e (zk_open e keys rs views) = Inr ()"
    and "\<And>e. e < 3 \<Longrightarrow> length (sel3 out e) = 8"
  shows "concat (map store_u32_be (xor_words out)) =
       sha256 (rvec_msg (rvec_xor3 (map_arr3 view_x views)))
     \<or> (\<exists>k. add_position k \<and> cin views k)"
proof (cases "\<exists>k. add_position k \<and> cin views k")
  case False
  let ?m = "rvec_msg (rvec_xor3 (map_arr3 view_x views))"
  have "sha256_carry (cin views) ?m = sha256_carry (\<lambda>_. False) ?m"
    by (rule sha256_carry_cong) (use False assms(1) in auto)
  with verify_three_sound[OF assms] show ?thesis
    by (simp add: sha256_no_carry sha256_def)
qed simp

lemma mpc_sha256_sound_or_carry_witness:
  "\<exists>views out. (\<forall>e<3. mpc_sha256_verify (\<lambda>_ _. 7) True out e
       (zk_open e (Arr3 [1] [2] [3]) (Arr3 [4] [5] [6]) views) = Inr ()) \<and>
     (concat (map store_u32_be (xor_words out)) =
       sha256 (rvec_msg (rvec_xor3 (map_arr3 view_x views)))
     \<or> (\<exists>k. add_position k \<and> cin views k))"
proof (rule honest_run)
  fix views out
  assume run: "wf_shares (map_arr3 view_x views)"
    "\<And>e rs. e < 3 \<Longrightarrow> mpc_sha256_verify (\<lambda>_ _. 7) True out e
       (zk_open e (Arr3 [1] [2] [3]) rs views) = Inr ()"
    "\<And>e. e < 3 \<Longrightarrow> length (sel3 out e) = 8"
  from mpc_sha256_sound_or_carry[OF run] run(2) show ?thesis by blast
qed

end
