(* ===== verification/MPC_UHash.thy ===== *)
theory MPC_UHash
  imports MPC_Arith MPC_Core_Funcs PRG Universal_Hash
begin

unbundle bit_operations_syntax

text \<open>
  src/mpc_universal_hash.c: the Toeplitz hash of the ZK scheme, on the opening
  vector itself (mpc\_hm\_hash\_init) and on its three XOR shares.  The hash is
  linear, so prover and verifier need no interaction; the shares y of the
  masked message are published and compared.
\<close>

section \<open>The code\<close>

definition mask_l_word :: "u32 \<Rightarrow> nat \<Rightarrow> u32" where
  "mask_l_word w idx = (if idx = L_WORDS - 1 then w AND L_LAST_WORD_MASK else w)"

text \<open>The loop over 4096 byte chunks is the one of getAllRandomness.\<close>

definition mpc_hm_expand_matrix :: "keystream \<Rightarrow> nat \<Rightarrow> byte list \<Rightarrow> u32 list" where
  "mpc_hm_expand_matrix stream a_words key =
    (let A = le_words (randomness_loop stream key 0 (4 * a_words)) in A[a_words - 1 := 0])"

text \<open>b is the content of the array before the call; only its first MSG\_BITS bits are assigned.\<close>

definition hash_init_bit :: "u32 list \<Rightarrow> byte list \<Rightarrow> RVec \<Rightarrow> nat \<Rightarrow> byte list \<Rightarrow> fault + byte list" where
  "hash_init_bit A m r i b =
    (let rShift = i mod 32; base = i div 32 in
     sbind (sloop (\<lambda>j acc. sbind (toeplitz_load_window32 A (base + j) rShift) (\<lambda>w.
        sbind (rd (words r) j) (\<lambda>rj. Inr (acc XOR (w AND mask_l_word rj j))))) [0..<L_WORDS] 0) (\<lambda>acc.
     let bi = builtin_parity acc in
     sbind (rd m (i div 8)) (\<lambda>mb. let bi = bi XOR ucast (GETBIT mb (i mod 8)) in
     sbind (rd b (i div 8)) (\<lambda>v. wr b (i div 8) (SETBIT v (i mod 8) (ucast bi))))))"

definition mpc_hm_hash_init :: "keystream \<Rightarrow> byte list \<Rightarrow> byte list \<Rightarrow> byte list \<Rightarrow> RVec \<Rightarrow>
    fault + u32 list \<times> byte list" where
  "mpc_hm_hash_init stream b keyH m r =
    (let A = mpc_hm_expand_matrix stream A_WORDS keyH in
     sbind (sloop (hash_init_bit A m r) [0..<MSG_BITS] b) (\<lambda>b. Inr (A, b)))"

definition mpc_universal_hash_prove :: "UniversalHash \<Rightarrow> u32 arr3 list \<Rightarrow> RVec arr3 \<Rightarrow>
    fault + u32 arr3 list" where
  "mpc_universal_hash_prove h m r =
    sloop (\<lambda>i y. let wordIdx = i div 32; bitIdx = i mod 32 in
      sbind (sloop (\<lambda>j yi. sbind (toeplitz_load_window32 (uh_A h) (wordIdx + j) bitIdx) (\<lambda>A_ij.
         let rj = map_arr3 (\<lambda>v. mask_l_word (words v ! j) j) r;
             t1 = mpc_ANDK rj A_ij
         in Inr (mpc_XOR yi t1))) [0..<L_WORDS] (Arr3 0 0 0)) (\<lambda>yi.
      let yi = mpc_parity yi in
      sbind (rd m wordIdx) (\<lambda>mw.
      let mi = mpc_GETBIT mw bitIdx; yi = mpc_XOR mi yi in
      sbind (rd y wordIdx) (\<lambda>yw. wr y wordIdx (mpc_SETBIT yw yi bitIdx)))))
    [0..<MSG_BITS] (replicate MSG_WORDS (Arr3 0 0 0))"

definition mpc_universal_hash_verify :: "UniversalHash \<Rightarrow> u32 arr2 list \<Rightarrow> RVec arr2 \<Rightarrow>
    u32 arr3 list \<Rightarrow> nat \<Rightarrow> fault + unit" where
  "mpc_universal_hash_verify h m r y e =
    sloop (\<lambda>i _. let wordIdx = i div 32; bitIdx = i mod 32 in
      sbind (sloop (\<lambda>j y_rec. sbind (toeplitz_load_window32 (uh_A h) (wordIdx + j) bitIdx) (\<lambda>A_ij.
         let rj = map_arr2 (\<lambda>v. mask_l_word (words v ! j) j) r;
             t1 = mpc_ANDK2 rj A_ij
         in Inr (mpc_XOR2_const y_rec t1))) [0..<L_WORDS] (Arr2 0 0)) (\<lambda>y_rec.
      let y_rec = mpc_parity2 y_rec in
      sbind (rd m wordIdx) (\<lambda>mw. let mi = map_arr2 (\<lambda>v. GETBIT v bitIdx) mw in
      sbind (rd y wordIdx) (\<lambda>yw. let yi = map_arr3 (\<lambda>v. GETBIT v bitIdx) yw in
      sbind (rd (uh_b h) (i div 8)) (\<lambda>bb. let bi = ucast (GETBIT bb (i mod 8)) :: u32;
          y_rec = mpc_XOR2_const y_rec mi in
        if sel3 yi e \<noteq> fst2 y_rec \<or> sel3 yi ((e + 1) mod 3) \<noteq> snd2 y_rec then Inl Rejected
        else if fst2 y_rec XOR snd2 y_rec XOR sel3 yi ((e + 2) mod 3) XOR bi \<noteq> 0 then Inl Rejected
        else Inr ())))))
    [0..<MSG_BITS] ()"

definition mpc_inner_prod_prove :: "UniversalHash \<Rightarrow> u32 arr3 \<Rightarrow> RVec arr3 \<Rightarrow> fault + u32 arr3" where
  "mpc_inner_prod_prove h m r =
    sbind (sloop (\<lambda>i y. sbind (rd (uh_A h) i) (\<lambda>Ai.
         let ri = map_arr3 (\<lambda>v. mask_l_word (words v ! i) i) r;
             t1 = mpc_ANDK ri Ai
         in Inr (mpc_XOR y t1))) [0..<L_WORDS] (Arr3 0 0 0)) (\<lambda>y.
    let y = mpc_parity y in Inr (mpc_XOR m y))"

definition mpc_inner_prod_verify :: "UniversalHash \<Rightarrow> u32 arr2 \<Rightarrow> RVec arr2 \<Rightarrow> u32 arr3 \<Rightarrow> nat \<Rightarrow>
    fault + unit" where
  "mpc_inner_prod_verify h m r y e =
    sbind (sloop (\<lambda>i y_rec. sbind (rd (uh_A h) i) (\<lambda>Ai.
         let ri = map_arr2 (\<lambda>v. mask_l_word (words v ! i) i) r;
             t1 = mpc_ANDK2 ri Ai
         in Inr (mpc_XOR2_const y_rec t1))) [0..<L_WORDS] (Arr2 0 0)) (\<lambda>y_rec.
    let y_rec = mpc_parity2 y_rec; y_rec = mpc_XOR2_const y_rec m in
    if sel3 y e \<noteq> fst2 y_rec \<or> sel3 y ((e + 1) mod 3) \<noteq> snd2 y_rec then Inl Rejected
    else sbind (rd (uh_b h) 0) (\<lambda>b0.
      if fst2 y_rec XOR snd2 y_rec XOR sel3 y ((e + 2) mod 3) XOR (ucast b0 AND 1) = 0 then Inr ()
      else Inl Rejected))"

section \<open>The hash of one vector\<close>

text \<open>The word whose parity is row 0 of the matrix times r.\<close>

definition inner :: "u32 list \<Rightarrow> RVec \<Rightarrow> u32" where
  "inner A r = foldl (\<lambda>acc i. acc XOR (mask_l_word (words r ! i) i AND A ! i)) 0 [0..<L_WORDS]"

definition hash_word :: "u32 list \<Rightarrow> RVec \<Rightarrow> u32" where
  "hash_word A r = builtin_parity (inner A r)"

lemma foldl_sel:
  assumes "\<And>a i. i \<in> set is \<Longrightarrow> h (f a i) = g (h a) i"
  shows "h (foldl f a is) = foldl g (h a) is"
  using assms by (induction "is" arbitrary: a) simp_all

lemma inner_shares:
  "map_arr3 (inner A) r = foldl (\<lambda>y i. mpc_XOR y (mpc_ANDK (map_arr3 (\<lambda>v. mask_l_word (words v ! i) i) r) (A ! i)))
     (Arr3 0 0 0) [0..<L_WORDS]"
proof (rule arr3_eqI)
  fix e :: nat
  have "sel3 (foldl (\<lambda>y i. mpc_XOR y (mpc_ANDK (map_arr3 (\<lambda>v. mask_l_word (words v ! i) i) r) (A ! i)))
      (Arr3 0 0 0) [0..<L_WORDS]) e
    = foldl (\<lambda>acc i. acc XOR (mask_l_word (words (sel3 r e) ! i) i AND A ! i)) (sel3 (Arr3 0 0 0) e) [0..<L_WORDS]"
    by (rule foldl_sel) (simp add: mpc_XOR_def mpc_ANDK_def)
  moreover have "sel3 (Arr3 0 0 0) e = (0 :: u32)" by (simp add: sel3_def)
  ultimately show "sel3 (map_arr3 (inner A) r) e = sel3 (foldl (\<lambda>y i. mpc_XOR y (mpc_ANDK
      (map_arr3 (\<lambda>v. mask_l_word (words v ! i) i) r) (A ! i))) (Arr3 0 0 0) [0..<L_WORDS]) e"
    by (simp only: inner_def sel3_map)
qed

lemma inner_shares2:
  "map_arr2 (inner A) r = foldl (\<lambda>y i. mpc_XOR2_const y (mpc_ANDK2 (map_arr2 (\<lambda>v. mask_l_word (words v ! i) i) r) (A ! i)))
     (Arr2 0 0) [0..<L_WORDS]"
proof -
  let ?f = "foldl (\<lambda>y i. mpc_XOR2_const y (mpc_ANDK2 (map_arr2 (\<lambda>v. mask_l_word (words v ! i) i) r) (A ! i)))
     (Arr2 0 0) [0..<L_WORDS]"
  have "fst2 ?f = foldl (\<lambda>acc i. acc XOR (mask_l_word (words (fst2 r) ! i) i AND A ! i)) (fst2 (Arr2 0 0)) [0..<L_WORDS]"
    by (rule foldl_sel) (cases r, simp add: mpc_XOR2_const_def mpc_ANDK2_def zip2_def)
  moreover have "snd2 ?f = foldl (\<lambda>acc i. acc XOR (mask_l_word (words (snd2 r) ! i) i AND A ! i)) (snd2 (Arr2 0 0)) [0..<L_WORDS]"
    by (rule foldl_sel) (cases r, simp add: mpc_XOR2_const_def mpc_ANDK2_def zip2_def)
  ultimately show ?thesis by (cases r; cases ?f) (simp add: inner_def)
qed

lemma mpc_inner_prod_prove_eq:
  assumes "L_WORDS \<le> length (uh_A h)"
  shows "mpc_inner_prod_prove h m r = Inr (zip3 (XOR) m (map_arr3 (hash_word (uh_A h)) r))"
proof -
  have "sloop (\<lambda>i y. sbind (rd (uh_A h) i) (\<lambda>Ai.
         let ri = map_arr3 (\<lambda>v. mask_l_word (words v ! i) i) r; t1 = mpc_ANDK ri Ai
         in Inr (mpc_XOR y t1))) [0..<L_WORDS] (Arr3 0 0 0)
      = Inr (map_arr3 (inner (uh_A h)) r) \<and> True"
    unfolding inner_shares by (rule sloop_fold) (use assms in \<open>auto simp: Let_def\<close>)
  then show ?thesis
    by (simp add: mpc_inner_prod_prove_def mpc_parity_def mpc_XOR_def arr3.map_comp o_def hash_word_def
        cong: arr3.map_cong)
qed

lemma mpc_inner_prod_verify_eq:
  assumes "L_WORDS \<le> length (uh_A h)" and "uh_b h \<noteq> []"
  shows "mpc_inner_prod_verify h m r y e = Inr () \<longleftrightarrow>
     sel3 y e = fst2 m XOR hash_word (uh_A h) (fst2 r) \<and>
     sel3 y ((e + 1) mod 3) = snd2 m XOR hash_word (uh_A h) (snd2 r) \<and>
     sel3 y e XOR sel3 y ((e + 1) mod 3) XOR sel3 y ((e + 2) mod 3) = ucast (uh_b h ! 0) AND 1"
proof -
  have loop: "sloop (\<lambda>i y_rec. sbind (rd (uh_A h) i) (\<lambda>Ai.
         Inr (mpc_XOR2_const y_rec (mpc_ANDK2 (map_arr2 (\<lambda>v. mask_l_word (words v ! i) i) r) Ai))))
         [0..<L_WORDS] (Arr2 0 0)
      = Inr (map_arr2 (inner (uh_A h)) r) \<and> True"
    unfolding inner_shares2 by (rule sloop_fold) (use assms in \<open>auto simp: Let_def\<close>)
  have rec: "mpc_XOR2_const (mpc_parity2 (map_arr2 (inner (uh_A h)) r)) m
      = Arr2 (fst2 m XOR hash_word (uh_A h) (fst2 r)) (snd2 m XOR hash_word (uh_A h) (snd2 r))"
    by (cases r; cases m) (simp add: mpc_XOR2_const_def mpc_parity2_def zip2_def hash_word_def xor.commute)
  have zero: "a XOR b XOR c XOR d = 0 \<longleftrightarrow> a XOR b XOR c = d" for a b c d :: u32
    by (simp add: bit_eq_iff bit_xor_iff) blast
  show ?thesis
    unfolding mpc_inner_prod_verify_def conjunct1[OF loop] sbind_Inr Let_def rec arr2.sel zero
    using assms(2) by auto
qed

lemma mask_l_word_xor: "mask_l_word (a XOR b) i = mask_l_word a i XOR mask_l_word b i"
  by (simp add: mask_l_word_def bit.conj_xor_distrib2)

lemma foldl_xor:
  "foldl (\<lambda>acc i. acc XOR (f i XOR g i)) (a XOR b) is = foldl (\<lambda>acc i. acc XOR f i) a is XOR foldl (\<lambda>acc i. acc XOR g i) (b :: u32) is"
proof (induction "is" arbitrary: a b)
  case (Cons i "is")
  have "(a XOR b) XOR (f i XOR g i) = (a XOR f i) XOR (b XOR g i)" by (simp add: ac_simps)
  then show ?case using Cons.IH[of "a XOR f i" "b XOR g i"] by simp
qed simp

text \<open>The hash is linear, so shares of the vector give shares of the hash.\<close>

lemma inner_add:
  assumes "\<And>i. i < L_WORDS \<Longrightarrow> words c ! i = words a ! i XOR words b ! i"
  shows "inner A c = inner A a XOR inner A b"
proof -
  have "inner A c = foldl (\<lambda>acc i. acc XOR ((mask_l_word (words a ! i) i AND A ! i)
      XOR (mask_l_word (words b ! i) i AND A ! i))) (0 XOR 0) [0..<L_WORDS]"
    unfolding inner_def
    by (rule foldl_cong) (simp_all add: assms mask_l_word_xor bit.conj_xor_distrib2)
  then show ?thesis by (simp only: foldl_xor inner_def)
qed

lemma hash_word_xor3:
  assumes "wf_shares s"
  shows "xor3 (map_arr3 (hash_word A) s) = hash_word A (rvec_xor3 s)"
proof -
  note len = wf_sharesD[OF assms]
  define t where "t = \<lparr>words = map2 (XOR) (words (at1 s)) (words (at2 s))\<rparr>"
  have "inner A t = inner A (at1 s) XOR inner A (at2 s)"
    by (rule inner_add) (simp add: t_def len)
  moreover have "inner A (rvec_xor3 s) = inner A (at0 s) XOR inner A t"
    by (rule inner_add) (simp add: rvec_xor3_def t_def len)
  ultimately show ?thesis
    by (cases s) (simp add: hash_word_def xor3_def builtin_parity_xor)
qed

text \<open>On single bits: the product of the first L\_BITS bits of the diagonal with those of r.\<close>

definition hash_row0 :: "u32 list \<Rightarrow> RVec \<Rightarrow> bool" where
  "hash_row0 A r = xsum (\<lambda>k. wbit A k \<and> wbit (words r) k) L_BITS"

lemma hash_word_bit: "hash_word A r = of_bool (hash_row0 A r)"
proof -
  let ?m = "\<lambda>k. k < L_BITS \<and> wbit A k \<and> wbit (words r) k"
  have b: "bit (mask_l_word (words r ! j) j AND A ! j) k = ?m (32 * j + k)"
    if "j < L_WORDS" "k < 32" for j k
  proof -
    have m: "bit (63 :: int) k = (k < 6)"
    proof -
      have e: "(63 :: int) = mask 6" by (simp add: mask_eq_exp_minus_1)
      show ?thesis unfolding e bit_mask_iff by auto
    qed
    have j: "(32 * j + k) div 32 = j" "(32 * j + k) mod 32 = k" using that(2) by simp_all
    show ?thesis
      using that unfolding mask_l_word_def wbit_def j param_values by (auto simp: bit_and_iff m)
  qed
  have "xsum (bit (inner A r)) 32 = xsum ?m (32 * L_WORDS)"
    unfolding inner_def by (rule xsum_words) (rule b)
  also have "\<dots> = xsum ?m (L_BITS + 26)" by (simp only: param_values) simp
  also have "\<dots> = (xsum ?m L_BITS \<noteq> xsum (\<lambda>k. False) 26)"
    unfolding xsum_add by simp
  also have "xsum (\<lambda>k. False) 26 = False" by simp
  also have "xsum ?m L_BITS = hash_row0 A r"
    unfolding hash_row0_def by (rule xsum_cong) simp_all
  finally show ?thesis by (simp add: hash_word_def builtin_parity_xsum)
qed

section \<open>The hash that the committer publishes\<close>

lemma length_expand_matrix [simp]: "length (mpc_hm_expand_matrix stream n key) = n"
  by (simp add: mpc_hm_expand_matrix_def Let_def randomness_loop_stream)

lemma window_0: "idx + 1 < length A \<Longrightarrow> toeplitz_load_window32 A idx 0 = Inr (A ! idx)"
  by (simp add: load_window, rule bit_word_eqI)
     (auto simp: bit_simps dest: bit_imp_le_length)

lemma ucast_GETBIT: "ucast (GETBIT (x :: byte) i) = (of_bool (bit x i) :: u32)"
  by (simp add: GETBIT_of_bool)

lemma hash_init_bit_0:
  assumes "length A = A_WORDS" "length (words r) = L_WORDS" "m \<noteq> []" "b \<noteq> []"
  shows "hash_init_bit A m r 0 b = Inr (b[0 := SETBIT (b ! 0) 0 (of_bool (hash_row0 A r \<noteq> bit (m ! 0) 0))])"
proof -
  have "sloop (\<lambda>j acc. sbind (toeplitz_load_window32 A j 0) (\<lambda>w.
        sbind (rd (words r) j) (\<lambda>rj. Inr (acc XOR (w AND mask_l_word rj j))))) [0..<L_WORDS] 0
     = Inr (foldl (\<lambda>acc j. acc XOR (A ! j AND mask_l_word (words r ! j) j)) 0 [0..<L_WORDS]) \<and> True"
    by (rule sloop_fold) (use assms in \<open>auto simp: window_0 param_values\<close>)
  moreover have "builtin_parity (foldl (\<lambda>acc j. acc XOR (A ! j AND mask_l_word (words r ! j) j)) 0 [0..<L_WORDS])
     = of_bool (hash_row0 A r)"
    using hash_word_bit[of A r] by (simp add: hash_word_def inner_def and.commute)
  ultimately show ?thesis
    using assms by (simp add: hash_init_bit_def Let_def ucast_GETBIT of_bool_words)
qed

lemma mpc_hm_hash_init_eq:
  assumes "wf_rvec r" "m \<noteq> []" "b \<noteq> []"
  shows "mpc_hm_hash_init stream b key m r =
     (let A = mpc_hm_expand_matrix stream A_WORDS key
      in Inr (A, b[0 := SETBIT (b ! 0) 0 (of_bool (hash_row0 A r \<noteq> bit (m ! 0) 0))]))"
  using assms hash_init_bit_0[of "mpc_hm_expand_matrix stream A_WORDS key" r m b]
  by (simp add: mpc_hm_hash_init_def param_values wf_rvec_def Let_def)

section \<open>Completeness and soundness of the shared hash\<close>

text \<open>h commits to the bit b0 under the vector r.\<close>

definition hash_commits :: "UniversalHash \<Rightarrow> RVec \<Rightarrow> bool \<Rightarrow> bool" where
  "hash_commits h r v \<longleftrightarrow> bit (uh_b h ! 0) 0 = (hash_row0 (uh_A h) r \<noteq> v)"

lemma ucast_and_1: "ucast (x :: byte) AND 1 = (of_bool (bit x 0) :: u32)"
  by (rule bit_word_eqI) (auto simp: bit_simps)

lemma third_party: "e < 3 \<Longrightarrow> sel3 y e XOR sel3 y ((e + 1) mod 3) XOR sel3 y ((e + 2) mod 3) = xor3 y"
  using challenge_cases[of e] by (auto simp: sel3_def xor3_def ac_simps)

lemma inner_prod_complete:
  assumes h: "L_WORDS \<le> length (uh_A h)" "uh_b h \<noteq> []" and s: "wf_shares s"
    and m: "xor3 m = of_bool v" and "hash_commits h (rvec_xor3 s) v" and e: "e < 3"
    and y: "mpc_inner_prod_prove h m s = Inr y"
  shows "mpc_inner_prod_verify h (opened e m) (opened e s) y e = Inr ()"
proof -
  have y': "y = zip3 (XOR) m (map_arr3 (hash_word (uh_A h)) s)"
    using y mpc_inner_prod_prove_eq[OF h(1)] by simp
  have "xor3 y = ucast (uh_b h ! 0) AND 1"
    using assms(5) by (auto simp: y' m hash_word_xor3[OF s] hash_word_bit ucast_and_1 hash_commits_def)
  then show ?thesis
    unfolding mpc_inner_prod_verify_eq[OF h] third_party[OF e]
    by (simp add: y' succ3_def)
qed

lemma inner_prod_sound:
  assumes h: "L_WORDS \<le> length (uh_A h)" "uh_b h \<noteq> []" and s: "wf_shares s"
    and acc: "\<And>e. e < 3 \<Longrightarrow> mpc_inner_prod_verify h (opened e m) (opened e s) y e = Inr ()"
  shows "\<exists>v. xor3 m = of_bool v \<and> hash_commits h (rvec_xor3 s) v"
proof -
  have y: "sel3 y e = sel3 m e XOR hash_word (uh_A h) (sel3 s e)"
    and sum: "xor3 y = ucast (uh_b h ! 0) AND 1" if "e < 3" for e
    using acc[OF that, unfolded mpc_inner_prod_verify_eq[OF h] third_party[OF that]] by simp_all
  have "y = zip3 (XOR) m (map_arr3 (hash_word (uh_A h)) s)"
    by (rule arr3_eqI) (simp add: y)
  then have "xor3 y = xor3 m XOR of_bool (hash_row0 (uh_A h) (rvec_xor3 s))"
    by (simp add: hash_word_xor3[OF s] hash_word_bit)
  then have "xor3 m = of_bool (bit (uh_b h ! 0) 0) XOR of_bool (hash_row0 (uh_A h) (rvec_xor3 s))"
    using sum[of 0] by (simp add: ucast_and_1) (metis xor.assoc xor_self_eq xor.right_neutral)
  then show ?thesis
    by (intro exI[of _ "bit (uh_b h ! 0) 0 \<noteq> hash_row0 (uh_A h) (rvec_xor3 s)"])
       (auto simp: of_bool_words hash_commits_def)
qed

section \<open>The hash of several bits, for one bit\<close>

definition bit_shares :: "u32 arr3 \<Rightarrow> bool" where
  "bit_shares a \<longleftrightarrow> (\<forall>e<3. \<exists>v. sel3 a e = of_bool v)"

lemma bit_sharesE:
  assumes "bit_shares a"
  obtains u v w where "a = Arr3 (of_bool u) (of_bool v) (of_bool w)"
  using assms unfolding bit_shares_def
  by (cases a) (auto simp: sel3_def numeral_3_eq_3 less_Suc_eq all_conj_distrib)

lemma GETBIT_of_bool_0: "GETBIT (of_bool v :: u32) 0 = of_bool v"
  by (simp add: GETBIT_of_bool)

lemma SETBIT_zero: "SETBIT (0 :: u32) 0 v = v"
  by (simp add: SETBIT_def)

lemma one_message_bit: "sloop f [0..<MSG_BITS] a = f 0 a"
  by (cases "f 0 a") (simp_all add: param_values)

lemma mpc_universal_hash_prove_bit:
  assumes A: "A_WORDS \<le> length (uh_A h)" and m: "bit_shares m"
  shows "mpc_universal_hash_prove h [m] r = map_sum id (\<lambda>y. [y]) (mpc_inner_prod_prove h m r)"
proof -
  have A': "L_WORDS \<le> length (uh_A h)" "\<And>j. j < 33 \<Longrightarrow> j + 1 < length (uh_A h)"
    using A by (simp_all add: param_values)
  obtain u v w where m': "m = Arr3 (of_bool u) (of_bool v) (of_bool w)" using m by (rule bit_sharesE)
  have loop: "sloop (\<lambda>j yi. sbind (toeplitz_load_window32 (uh_A h) j 0) (\<lambda>A_ij.
         Inr (mpc_XOR yi (mpc_ANDK (map_arr3 (\<lambda>v. mask_l_word (words v ! j) j) r) A_ij))))
      [0..<L_WORDS] (Arr3 0 0 0) = Inr (map_arr3 (inner (uh_A h)) r) \<and> True"
    unfolding inner_shares by (rule sloop_fold) (use A' in \<open>auto simp: window_0 param_values\<close>)
  have "mpc_XOR (mpc_GETBIT m 0) (mpc_parity (map_arr3 (inner (uh_A h)) r))
      = zip3 (XOR) m (map_arr3 (hash_word (uh_A h)) r)"
    by (cases r) (simp add: mpc_parity_def mpc_GETBIT_def mpc_XOR_def zip3_def m' GETBIT_of_bool_0
        hash_word_def)
  moreover have "mpc_SETBIT (Arr3 0 0 0) z 0 = z" for z
    by (cases z) (simp add: mpc_SETBIT_def zip3_def SETBIT_zero)
  moreover have "replicate MSG_WORDS z = [z]" for z :: "u32 arr3" by (simp add: param_values)
  ultimately show ?thesis
    unfolding mpc_inner_prod_prove_eq[OF A'(1)] mpc_universal_hash_prove_def one_message_bit Let_def
      div_0 mod_0 add_0 conjunct1[OF loop] sbind_Inr
    by simp
qed

lemma mpc_universal_hash_verify_bit:
  assumes A: "A_WORDS \<le> length (uh_A h)" "uh_b h \<noteq> []" and m: "bit_shares m" "bit_shares y"
    and e: "e < 3"
  shows "mpc_universal_hash_verify h [opened e m] (opened e r) [y] e
       = mpc_inner_prod_verify h (opened e m) (opened e r) y e"
proof -
  have A': "L_WORDS \<le> length (uh_A h)" "\<And>j. j < 33 \<Longrightarrow> j + 1 < length (uh_A h)"
    using A by (simp_all add: param_values)
  have b: "map_arr3 (\<lambda>v. GETBIT v 0) m = m" "map_arr3 (\<lambda>v. GETBIT v 0) y = y"
    using m by (auto elim!: bit_sharesE simp: GETBIT_of_bool_0)
  have yb: "GETBIT (sel3 y i) 0 = sel3 y i" for i by (metis b(2) sel3_map)
  have b2: "map_arr2 (\<lambda>v. GETBIT v 0) (opened e m) = opened e m"
    using b(1) by (metis opened_map)
  have bb: "ucast (GETBIT x 0) = (ucast (x :: byte) AND 1 :: u32)" for x
    by (simp add: ucast_GETBIT ucast_and_1)
  have loop: "sloop (\<lambda>j y_rec. sbind (toeplitz_load_window32 (uh_A h) j 0) (\<lambda>A_ij.
         Inr (mpc_XOR2_const y_rec (mpc_ANDK2 (map_arr2 (\<lambda>v. mask_l_word (words v ! j) j) (opened e r)) A_ij))))
      [0..<L_WORDS] (Arr2 0 0) = Inr (map_arr2 (inner (uh_A h)) (opened e r)) \<and> True"
    unfolding inner_shares2 by (rule sloop_fold) (use A' in \<open>auto simp: window_0 param_values\<close>)
  have loop2: "sloop (\<lambda>i y_rec. sbind (rd (uh_A h) i) (\<lambda>Ai.
         Inr (mpc_XOR2_const y_rec (mpc_ANDK2 (map_arr2 (\<lambda>v. mask_l_word (words v ! i) i) (opened e r)) Ai))))
         [0..<L_WORDS] (Arr2 0 0) = Inr (map_arr2 (inner (uh_A h)) (opened e r)) \<and> True"
    unfolding inner_shares2 by (rule sloop_fold) (use A' in \<open>auto simp: Let_def\<close>)
  obtain b0 bs where ub: "uh_b h = b0 # bs" using A(2) by (cases "uh_b h") auto
  show ?thesis
    unfolding mpc_universal_hash_verify_def mpc_inner_prod_verify_def one_message_bit Let_def div_0 mod_0 add_0
      conjunct1[OF loop] conjunct1[OF loop2] sbind_Inr
    by (simp add: yb b2 bb ub)
qed

text \<open>C35: mpc_hm_hash_init masks the message bit with the Toeplitz hash of the opening vector and
  changes nothing else: it never leaves its arrays, the matrix ends in the zero padding word,
  bit 0 of b is row 0 of the matrix times r plus bit 0 of the message, and the seven other bits
  of the byte keep whatever the array held before the call.\<close>

theorem mpc_hm_hash_init_correct:
  assumes "wf_rvec r" and "m \<noteq> []" and "b \<noteq> []"
  shows "\<exists>A b'. mpc_hm_hash_init stream b key m r = Inr (A, b') \<and> length A = A_WORDS \<and>
     A ! (A_WORDS - 1) = 0 \<and> length b' = length b \<and>
     bit (b' ! 0) 0 = (xsum (\<lambda>k. wbit A k \<and> wbit (words r) k) L_BITS \<noteq> bit (m ! 0) 0) \<and>
     (\<forall>i. 0 < i \<and> i < 8 \<longrightarrow> bit (b' ! 0) i = bit (b ! 0) i)"
proof -
  have "length (le_words (randomness_loop stream key 0 (4 * A_WORDS))) = A_WORDS"
    by (simp add: randomness_loop_stream)
  then have "mpc_hm_expand_matrix stream A_WORDS key ! (A_WORDS - 1) = 0"
    by (simp add: mpc_hm_expand_matrix_def Let_def param_values)
  then show ?thesis
    using assms bit_SETBIT[of _ "b ! 0" 0]
    by (simp add: mpc_hm_hash_init_eq Let_def hash_row0_def)
qed

lemma mpc_hm_hash_init_correct_witness:
  "\<exists>A b'. mpc_hm_hash_init (\<lambda>_ _. 7) [0xFF] [1] [1] \<lparr>words = replicate L_WORDS 0\<rparr> = Inr (A, b') \<and>
     bit (b' ! 0) 3"
  using mpc_hm_hash_init_correct[of "\<lparr>words = replicate L_WORDS 0\<rparr>" "[1]" "[0xFF]" "\<lambda>_ _. 7" "[1]"]
  by (fastforce simp: wf_rvec_def)

text \<open>Completeness of the shared hash.  If the three message shares XOR to the bit that h
  commits to under the vector the three vector shares XOR to, then what mpc_inner_prod_prove
  publishes is accepted by mpc_inner_prod_verify for each of the three challenges.\<close>

theorem mpc_inner_prod_complete:
  assumes "L_WORDS \<le> length (uh_A h)" "uh_b h \<noteq> []" and "wf_shares s"
    and "xor3 m = of_bool v" and "hash_commits h (rvec_xor3 s) v" and "e < 3"
    and "mpc_inner_prod_prove h m s = Inr y"
  shows "mpc_inner_prod_verify h (opened e m) (opened e s) y e = Inr ()"
  using assms by (rule inner_prod_complete)

definition demo_hash :: UniversalHash where
  "demo_hash = \<lparr>keyA = replicate 16 0, uh_A = replicate A_WORDS 0, uh_b = [1]\<rparr>"

definition demo_shares :: "RVec arr3" where
  "demo_shares = Arr3 \<lparr>words = replicate L_WORDS 0\<rparr> \<lparr>words = replicate L_WORDS 0\<rparr> \<lparr>words = replicate L_WORDS 0\<rparr>"

lemma demo_hash_commits:
  "L_WORDS \<le> length (uh_A demo_hash)" "uh_b demo_hash \<noteq> []" "wf_shares demo_shares"
  "hash_commits demo_hash (rvec_xor3 demo_shares) True"
proof -
  have "xsum (\<lambda>k. wbit (replicate 34 0) k \<and> wbit r k) 1030 = xsum (\<lambda>k. False) 1030" for r
    by (rule xsum_cong) (simp_all add: wbit_def)
  then show "hash_commits demo_hash (rvec_xor3 demo_shares) True"
    by (simp add: hash_commits_def hash_row0_def demo_hash_def param_values)
qed (simp_all add: demo_hash_def demo_shares_def param_values wf_shares_def wf_rvec_def sel3_def)

lemma mpc_inner_prod_complete_witness:
  "\<exists>y. mpc_inner_prod_prove demo_hash (Arr3 1 1 1) demo_shares = Inr y \<and>
     mpc_inner_prod_verify demo_hash (opened 2 (Arr3 1 1 1)) (opened 2 demo_shares) y 2 = Inr ()"
proof -
  obtain y where y: "mpc_inner_prod_prove demo_hash (Arr3 1 1 1) demo_shares = Inr y"
    using mpc_inner_prod_prove_eq[OF demo_hash_commits(1)] by blast
  have "xor3 (Arr3 1 1 1) = (of_bool True :: u32)" by (simp add: xor3_def)
  from mpc_inner_prod_complete[OF demo_hash_commits(1-3) this demo_hash_commits(4) _ y, of 2] y
  show ?thesis by auto
qed

text \<open>Soundness of the shared hash.  If mpc_inner_prod_verify accepts all three challenges for
  one triple of message and vector shares, then the message shares XOR to a single bit, and it is
  the bit that h commits to under the vector the vector shares XOR to.\<close>

theorem mpc_inner_prod_sound:
  assumes "L_WORDS \<le> length (uh_A h)" "uh_b h \<noteq> []" and "wf_shares s"
    and "\<And>e. e < 3 \<Longrightarrow> mpc_inner_prod_verify h (opened e m) (opened e s) y e = Inr ()"
  shows "\<exists>v. xor3 m = of_bool v \<and> hash_commits h (rvec_xor3 s) v"
  using assms by (rule inner_prod_sound)

lemma mpc_inner_prod_sound_witness:
  "\<exists>v. xor3 (Arr3 1 1 1 :: u32 arr3) = of_bool v \<and> hash_commits demo_hash (rvec_xor3 demo_shares) v"
proof -
  obtain y where y: "mpc_inner_prod_prove demo_hash (Arr3 1 1 1) demo_shares = Inr y"
    using mpc_inner_prod_prove_eq[OF demo_hash_commits(1)] by blast
  have x: "xor3 (Arr3 1 1 1) = (of_bool True :: u32)" by (simp add: xor3_def)
  from mpc_inner_prod_sound[OF demo_hash_commits(1-3)
      inner_prod_complete[OF demo_hash_commits(1-3) x demo_hash_commits(4) _ y]]
  show ?thesis by simp
qed

text \<open>C36: For the one-bit message of this library the general routines for messages of several
  bits compute the same as the inner product routines that replace them: on message shares and
  published shares that are single bits, mpc_universal_hash_prove publishes the same word and
  mpc_universal_hash_verify returns the same result.\<close>

theorem mpc_universal_hash_is_inner_prod:
  assumes "A_WORDS \<le> length (uh_A h)" "uh_b h \<noteq> []" and "bit_shares m" "bit_shares y" and "e < 3"
  shows "mpc_universal_hash_prove h [m] r = map_sum id (\<lambda>y. [y]) (mpc_inner_prod_prove h m r)
     \<and> mpc_universal_hash_verify h [opened e m] (opened e r) [y] e
       = mpc_inner_prod_verify h (opened e m) (opened e r) y e"
  using mpc_universal_hash_prove_bit mpc_universal_hash_verify_bit assms by blast

lemma mpc_universal_hash_is_inner_prod_witness:
  "mpc_universal_hash_prove demo_hash [Arr3 0 1 0] demo_shares
       = map_sum id (\<lambda>y. [y]) (mpc_inner_prod_prove demo_hash (Arr3 0 1 0) demo_shares)
   \<and> mpc_universal_hash_verify demo_hash [opened 0 (Arr3 0 1 0)] (opened 0 demo_shares) [Arr3 1 1 1] 0
       = mpc_inner_prod_verify demo_hash (opened 0 (Arr3 0 1 0)) (opened 0 demo_shares) (Arr3 1 1 1) 0"
proof (rule mpc_universal_hash_is_inner_prod)
  have "\<exists>v. (0 :: u32) = of_bool v" "\<exists>v. (1 :: u32) = of_bool v" by (metis of_bool_eq(1), metis of_bool_eq(2))
  then show "bit_shares (Arr3 0 1 0)" "bit_shares (Arr3 1 1 1)"
    by (simp_all add: bit_shares_def sel3_def)
qed (simp_all add: demo_hash_def)

end
