(* ===== verification/MPC_HM.thy ===== *)
theory MPC_HM
  imports MPC_SHA256_Sound MPC_UHash
begin

unbundle bit_operations_syntax

text \<open>
  src/mpc_halevi_micali.c: one round of the proof.  The prover runs the
  SHA-256 circuit and the shared hash, the verifier checks the hashes of the
  two opened views, the circuit and the hash.  Completeness holds for every
  challenge; three accepting answers to one commitment give a collision or an
  opening of the published commitment, up to carries injected at ADD gates.
\<close>

section \<open>The code\<close>

definition copy_msg :: "u32 list \<Rightarrow> View \<Rightarrow> View" where
  "copy_msg ms v = foldl (\<lambda>v i. v\<lparr>view_msg := take (4 * i) (view_msg v) @ store_u32_le (ms ! i)
       @ drop (4 * i + 4) (view_msg v)\<rparr>) v [0..<MSG_WORDS]"

text \<open>a is the commitment record before the call; its hashes are filled in later.\<close>

definition mpc_hm_prove :: "View arr3 \<Rightarrow> ZkBooCommit \<Rightarrow> byte list arr3 \<Rightarrow> UniversalHash \<Rightarrow>
    RVec arr3 \<Rightarrow> u32 arr3 list \<Rightarrow> fault + View arr3 \<times> ZkBooCommit" where
  "mpc_hm_prove views a rnd h rShares msgShares =
    sbind (mpc_sha256_prove rShares rnd views) (\<lambda>(views, output_shares).
    let a = a\<lparr>a_yp := Arr2 (at0 output_shares) (at1 output_shares)\<rparr>;
        views = zip3 copy_msg (Arr3 (map at0 msgShares) (map at1 msgShares) (map at2 msgShares)) views
    in sbind (rd msgShares 0) (\<lambda>m0.
       sbind (mpc_inner_prod_prove h m0 rShares) (\<lambda>y.
       sbind (wr (a_y2p a) 0 y) (\<lambda>y2p. Inr (views, a\<lparr>a_y2p := y2p\<rparr>)))))"

definition verify_commit :: "digest_fn \<Rightarrow> ZkBooCommit \<Rightarrow> ZkBooOpen \<Rightarrow> nat \<Rightarrow> fault + unit" where
  "verify_commit md a z e =
    (case (z_ve z, z_ve1 z) of
       (Some v, Some v1) \<Rightarrow>
         if sel3 (a_h a) e \<noteq> H_view md (z_ke z) v (z_re z) then Inl Rejected
         else if sel3 (a_h a) ((e + 1) mod 3) \<noteq> H_view md (z_ke1 z) v1 (z_re1 z) then Inl Rejected
         else Inr ()
     | _ \<Rightarrow> Inl OutOfBounds)"

definition mpc_hm_verify :: "digest_fn \<Rightarrow> keystream \<Rightarrow> bool \<Rightarrow> UniversalHash \<Rightarrow> ZkBooCommit \<Rightarrow>
    ZkBooOpen \<Rightarrow> byte list \<Rightarrow> nat \<Rightarrow> fault + unit" where
  "mpc_hm_verify md stream alloc_ok h a z y e =
    (let output_shares = reconstruct_sha256_output_shares a y in
     sbind (verify_commit md a z e) (\<lambda>_.
     sbind (mpc_sha256_verify stream alloc_ok output_shares e z) (\<lambda>_.
     case (z_ve z, z_ve1 z) of
       (Some v, Some v1) \<Rightarrow>
         let m = map (\<lambda>i. Arr2 (load_u32_le (drop (i * 4) (view_msg v)))
                              (load_u32_le (drop (i * 4) (view_msg v1)))) [0..<MSG_WORDS];
             r = Arr2 (view_x v) (view_x v1)
         in sbind (rd m 0) (\<lambda>m0. sbind (rd (a_y2p a) 0) (\<lambda>y0. mpc_inner_prod_verify h m0 r y0 e))
     | _ \<Rightarrow> Inl OutOfBounds)))"

section \<open>Digests as words\<close>

lemma load_digest_words_be:
  assumes "length ws = 8"
  shows "load_digest_words (concat (map store_u32_be ws)) = ws"
proof (rule nth_equalityI)
  fix i assume "i < length (load_digest_words (concat (map store_u32_be ws)))"
  then have i: "i < 8" by (simp add: load_digest_words_def param_values)
  have "concat (map store_u32_be ws) = concat (map store_u32_be (take i ws)) @ store_u32_be (ws ! i)
      @ concat (map store_u32_be (drop (Suc i) ws))"
    using id_take_nth_drop[of i ws] i assms
    by (metis concat.simps(2) concat_append list.simps(9) map_append)
  moreover have "length (concat (map store_u32_be (take i ws))) = i * 4"
    using i assms by (simp add: length_concat o_def sum_list_triv)
  moreover have "load_u32_be (store_u32_be w @ xs) = w" for w xs
    using load_store_be[of w] by (simp add: load_u32_be_def nth_append)
  ultimately have "load_u32_be (drop (i * 4) (concat (map store_u32_be ws))) = ws ! i"
    by simp
  then show "load_digest_words (concat (map store_u32_be ws)) ! i = ws ! i"
    using i by (simp add: load_digest_words_def param_values)
qed (simp add: load_digest_words_def param_values assms)

lemma store_digest_words:
  assumes "length y = 32"
  shows "concat (map store_u32_be (load_digest_words y)) = y"
proof -
  have s: "store_u32_be (load_u32_be (drop k y)) = take 4 (drop k y)" if "k + 4 \<le> 32" for k
  proof -
    have "load_u32_be (drop k y) = load_u32_be (take 4 (drop k y))"
      by (simp add: load_u32_be_def)
    then show ?thesis using store_load_be[of "take 4 (drop k y)"] that assms by simp
  qed
  have "concat (map (\<lambda>i. take 4 (drop (i * 4) y)) [0..<n]) = take (4 * n) y" if "n \<le> 8" for n
    using that
  proof (induction n)
    case (Suc n)
    then show ?case using take_add[of "4 * n" 4 y] by (simp add: mult.commute add.commute)
  qed simp
  from this[of 8] have "concat (map (\<lambda>i. take 4 (drop (i * 4) y)) [0..<8]) = y"
    using assms by simp
  moreover have "map store_u32_be (load_digest_words y) = map (\<lambda>i. take 4 (drop (i * 4) y)) [0..<8]"
    by (simp add: load_digest_words_def param_values s del: upt_Suc)
  ultimately show ?thesis by simp
qed

text \<open>The third share that the verifier derives completes the two published ones.\<close>

definition wf_commit :: "ZkBooCommit \<Rightarrow> bool" where
  "wf_commit a \<longleftrightarrow> length (fst2 (a_yp a)) = 8 \<and> length (snd2 (a_yp a)) = 8 \<and> length (a_y2p a) = MSG_WORDS"

lemma length_reconstruct: "e < 3 \<Longrightarrow> length (sel3 (reconstruct_sha256_output_shares a y) e) = 8"
  by (simp add: reconstruct_sha256_output_shares_def sel3_def param_values Let_def)

lemma xor_words_reconstruct:
  "xor_words (reconstruct_sha256_output_shares a y) = load_digest_words y"
proof (rule nth_equalityI)
  show "length (xor_words (reconstruct_sha256_output_shares a y)) = length (load_digest_words y)"
    by (simp add: xor_words_def reconstruct_sha256_output_shares_def load_digest_words_def Let_def)
  fix i assume "i < length (xor_words (reconstruct_sha256_output_shares a y))"
  then have "i < SHA256_DIGEST_WORDS"
    by (simp add: xor_words_def reconstruct_sha256_output_shares_def Let_def)
  moreover have "p XOR q XOR (d XOR p XOR q) = d" for p q d :: u32
    by (simp add: bit_eq_iff bit_xor_iff) blast
  ultimately show "xor_words (reconstruct_sha256_output_shares a y) ! i = load_digest_words y ! i"
    by (simp add: xor_words_def reconstruct_sha256_output_shares_def Let_def)
qed

lemma reconstruct_outputs:
  assumes "xor_words out = load_digest_words y" and "\<And>e. e < 3 \<Longrightarrow> length (sel3 out e) = 8"
    and "fst2 (a_yp a) = at0 out" "snd2 (a_yp a) = at1 out"
  shows "reconstruct_sha256_output_shares a y = out"
proof -
  have len: "length (at0 out) = 8" "length (at1 out) = 8" "length (at2 out) = 8"
    using assms(2)[of 0] assms(2)[of 1] assms(2)[of 2] by (simp_all add: sel3_def)
  have "load_digest_words y ! i = at0 out ! i XOR at1 out ! i XOR at2 out ! i" if "i < 8" for i
    using that len unfolding assms(1)[symmetric] by (simp add: xor_words_def)
  moreover have "(p XOR q XOR t) XOR p XOR q = t" for p q t :: u32
    by (simp add: bit_eq_iff bit_xor_iff) blast
  ultimately have "map (\<lambda>i. load_digest_words y ! i XOR at0 out ! i XOR at1 out ! i) [0..<8] = at2 out"
    using len by (intro nth_equalityI) simp_all
  moreover have "map (\<lambda>i. xs ! i) [0..<8] = xs" if "length xs = 8" for xs :: "u32 list"
    using map_nth[of xs] that by simp
  ultimately show ?thesis
    by (cases out) (use len in \<open>simp add: reconstruct_sha256_output_shares_def Let_def assms(3,4) param_values
        del: upt_Suc\<close>)
qed

section \<open>Completeness of a round\<close>

lemma copy_msg_1: "copy_msg ms v = v\<lparr>view_msg := store_u32_le (ms ! 0) @ drop 4 (view_msg v)\<rparr>"
  by (simp add: copy_msg_def param_values)

lemma load_stored_le: "load_u32_le (store_u32_le w @ xs) = w"
  using load_store_le[of w] by (simp add: load_u32_le_def nth_append)

text \<open>
  Accepted views with outputs H and a commitment record that publishes H pass
  mpc\_hm\_verify for every challenge and every digest d that H stands for.
\<close>

lemma round_accepts:
  fixes d :: "byte list"
  assumes h: "L_WORDS \<le> length (uh_A h)" "uh_b h \<noteq> []" and s: "wf_shares s"
    and ok: "accepted_views (generate_randomness stream keys) s H views0"
    and xw: "regs_list (map_regs xor3 H) = load_digest_words d"
    and m: "xor3 m0 = of_bool v" and c: "hash_commits h (rvec_xor3 s) v"
    and y: "mpc_inner_prod_prove h m0 s = Inr y"
    and views: "\<And>e. e < 3 \<Longrightarrow> view_x (sel3 views e) = sel3 s e \<and> view_y (sel3 views e) = view_y (sel3 views0 e) \<and>
       view_msg (sel3 views e) = store_u32_le (sel3 m0 e) @ rest e"
    and a: "a_yp a = Arr2 (at0 (output_lists H)) (at1 (output_lists H))" "a_y2p a = [y]"
    and hs: "\<And>i. i < 3 \<Longrightarrow> sel3 (a_h a) i = H_view md (sel3 keys i) (sel3 views i) (sel3 rs i)"
    and e: "e < 3"
  shows "mpc_hm_verify md stream True h a (zk_open e keys rs views) d e = Inr ()"
proof -
  have out: "reconstruct_sha256_output_shares a d = output_lists H"
    by (rule reconstruct_outputs) (simp_all add: xor_words_outputs xw length_output_lists a)
  have 1: "verify_commit md a (zk_open e keys rs views) e = Inr ()"
    using hs[OF e] hs[of "succ3 e"] by (simp add: verify_commit_def zk_open_def succ3_def)
  have 2: "mpc_sha256_verify stream True (output_lists H) e (zk_open e keys rs views) = Inr ()"
    by (rule mpc_sha256_verify_accepts[OF ok e]) (simp add: views)
  have 3: "mpc_inner_prod_verify h (opened e m0) (opened e s) y e = Inr ()"
    by (rule inner_prod_complete[OF h s m c e y])
  note v = views[OF e] views[of "succ3 e", simplified]
  have "Arr2 (view_x (sel3 views e)) (view_x (sel3 views (succ3 e))) = opened e s"
    using v by (simp add: opened_def)
  moreover have "map (\<lambda>i. Arr2 (load_u32_le (drop (i * 4) (view_msg (sel3 views e))))
      (load_u32_le (drop (i * 4) (view_msg (sel3 views (succ3 e)))))) [0..<MSG_WORDS] = [opened e m0]"
    using v by (simp add: param_values load_stored_le opened_def)
  ultimately show ?thesis
    using 3 unfolding mpc_hm_verify_def Let_def out 1 2 sbind_Inr
    by (simp add: zk_open_def a)
qed

lemma mpc_hm_prove_result:
  assumes h: "L_WORDS \<le> length (uh_A h)" "uh_b h \<noteq> []" and s: "wf_shares s"
    and bufs: "prover_buffers (generate_randomness stream keys) views"
    and m: "msgShares = [m0]" "xor3 m0 = of_bool v" and c: "hash_commits h (rvec_xor3 s) v"
    and a: "length (a_y2p a) = MSG_WORDS"
  obtains views' a' where
    "mpc_hm_prove views a (generate_randomness stream keys) h s msgShares = Inr (views', a')"
    "wf_commit a'" "a_h a' = a_h a"
    "\<And>e. e < 3 \<Longrightarrow> view_x (sel3 views' e) = sel3 s e"
    "\<And>e. e < 3 \<Longrightarrow> length (view_y (sel3 views' e)) = ySize"
    "\<And>e. e < 3 \<Longrightarrow> view_msg (sel3 views' e) = store_u32_le (sel3 m0 e) @ drop 4 (view_msg (sel3 views e))"
    "\<And>md hs rs e. (\<And>i. i < 3 \<Longrightarrow> sel3 hs i = H_view md (sel3 keys i) (sel3 views' i) (sel3 rs i)) \<Longrightarrow>
       e < 3 \<Longrightarrow> mpc_hm_verify md stream True h (a'\<lparr>a_h := hs\<rparr>) (zk_open e keys rs views')
         (sha256 (rvec_msg (rvec_xor3 s))) e = Inr ()"
proof (rule mpc_sha256_prove_result[OF s bufs])
  let ?rnd = "generate_randomness stream keys" and ?d = "sha256 (rvec_msg (rvec_xor3 s))"
  fix vs :: "View arr3" and H
  assume run: "mpc_sha256_prove s ?rnd views = Inr (vs, output_lists H)"
    and H: "map_regs xor3 H = sha256_regs (rvec_msg (rvec_xor3 s))"
    and ok: "accepted_views ?rnd s H vs"
    and ms: "\<And>e. e < 3 \<Longrightarrow> view_msg (sel3 vs e) = view_msg (sel3 views e)"
  note x = accepted_viewsD(1,2)[OF ok]
  define views' where "views' = zip3 copy_msg (Arr3 [at0 m0] [at1 m0] [at2 m0]) vs"
  have v': "sel3 views' e = (sel3 vs e)\<lparr>view_msg := store_u32_le (sel3 m0 e) @ drop 4 (view_msg (sel3 vs e))\<rparr>" for e
    unfolding views'_def sel3_zip3 copy_msg_1 by (simp add: sel3_def)
  obtain y where y: "mpc_inner_prod_prove h m0 s = Inr y"
    using mpc_inner_prod_prove_eq[OF h(1)] by blast
  define a' where "a' = a\<lparr>a_yp := Arr2 (at0 (output_lists H)) (at1 (output_lists H)), a_y2p := [y]\<rparr>"
  have y2p: "(a_y2p a)[0 := y] = [y]" using a by (simp add: param_values length_Suc_conv numeral_eq_Suc) auto
  have prove: "mpc_hm_prove views a ?rnd h s msgShares = Inr (views', a')"
    using a by (simp add: mpc_hm_prove_def run m(1) y y2p views'_def a'_def param_values)
  have xw: "regs_list (map_regs xor3 H) = load_digest_words ?d"
    by (simp add: H sha256_def load_digest_words_be)
  have verify: "mpc_hm_verify md stream True h (a'\<lparr>a_h := hs\<rparr>) (zk_open e keys rs views') ?d e = Inr ()"
    if "\<And>i. i < 3 \<Longrightarrow> sel3 hs i = H_view md (sel3 keys i) (sel3 views' i) (sel3 rs i)" and "e < 3"
    for md hs rs e
    by (rule round_accepts[OF h s ok xw m(2) c y]) (use that in \<open>simp_all add: v' x a'_def\<close>)
  have wf: "wf_commit a'" by (simp add: wf_commit_def a'_def output_lists_def param_values)
  show ?thesis
    by (rule that[OF prove wf _ _ _ _ verify]) (simp_all add: a'_def v' x ms)
qed

section \<open>Three accepted answers\<close>

definition wf_view :: "View \<Rightarrow> bool" where
  "wf_view v \<longleftrightarrow> wf_rvec (view_x v) \<and> length (view_msg v) = 4 * MSG_WORDS \<and> length (view_y v) = ySize"

definition wf_open :: "ZkBooOpen \<Rightarrow> bool" where
  "wf_open z \<longleftrightarrow> length (z_ke z) = 16 \<and> length (z_ke1 z) = 16 \<and> length (z_re z) = 4 \<and> length (z_re1 z) = 4
     \<and> (\<exists>v v1. z_ve z = Some v \<and> z_ve1 z = Some v1 \<and> wf_view v \<and> wf_view v1)"

lemma le_bytes_inj: "le_bytes a = le_bytes b \<Longrightarrow> a = b"
  by (metis le_words_bytes)

lemma view_bytes_inj:
  assumes "wf_view v" "wf_view w" "view_bytes v = view_bytes w"
  shows "v = w"
proof -
  have "rvec_bytes (view_x v) = rvec_bytes (view_x w)" "view_msg v = view_msg w"
    "le_bytes (view_y v) = le_bytes (view_y w)"
    using assms by (auto simp: view_bytes_def wf_view_def wf_rvec_def rvec_bytes_def append_eq_append_conv)
  then have "words (view_x v) = words (view_x w)" "view_y v = view_y w"
    by (auto simp: rvec_bytes_def intro: le_bytes_inj)
  with \<open>view_msg v = view_msg w\<close> show ?thesis
    by (cases v; cases w; cases "view_x v"; cases "view_x w") simp
qed

text \<open>What is hashed for a view; and a collision that three answers exhibit.\<close>

definition view_input :: "byte list \<Rightarrow> View \<Rightarrow> byte list \<Rightarrow> byte list" where
  "view_input k v r = k @ view_bytes v @ r"

definition answers_collide :: "digest_fn \<Rightarrow> (nat \<Rightarrow> ZkBooOpen) \<Rightarrow> bool" where
  "answers_collide md z \<longleftrightarrow> (\<exists>e<3.
     let u = view_input (z_ke1 (z e)) (the (z_ve1 (z e))) (z_re1 (z e));
         w = view_input (z_ke (z (succ3 e))) (the (z_ve (z (succ3 e)))) (z_re (z (succ3 e)))
     in u \<noteq> w \<and> md u = md w)"

lemma H_view_input: "H_view md k v r = md (view_input k v r)"
  by (simp add: H_view_def setupSHA256_def view_input_def)

lemma view_input_inj:
  assumes "view_input k v r = view_input k' v' r'" and "wf_view v" "wf_view v'"
    and "length k = 16" "length k' = 16"
  shows "k = k' \<and> v = v' \<and> r = r'"
proof -
  have "length (view_bytes v) = length (view_bytes v')"
    using assms(2,3) by (simp add: view_bytes_def wf_view_def wf_rvec_def rvec_bytes_def)
  then have "k = k' \<and> view_bytes v = view_bytes v' \<and> r = r'"
    using assms(1,4,5) by (simp add: view_input_def append_eq_append_conv)
  with view_bytes_inj[OF assms(2,3)] show ?thesis by blast
qed

lemma mpc_hm_verifyD:
  assumes "mpc_hm_verify md stream ok h a z y e = Inr ()" and "z_ve z = Some v" "z_ve1 z = Some v1"
  shows "sel3 (a_h a) e = H_view md (z_ke z) v (z_re z)"
    and "sel3 (a_h a) (succ3 e) = H_view md (z_ke1 z) v1 (z_re1 z)"
    and "mpc_sha256_verify stream ok (reconstruct_sha256_output_shares a y) e z = Inr ()"
    and "a_y2p a \<noteq> [] \<Longrightarrow> mpc_inner_prod_verify h (Arr2 (load_u32_le (view_msg v)) (load_u32_le (view_msg v1)))
       (Arr2 (view_x v) (view_x v1)) (a_y2p a ! 0) e = Inr ()"
  using assms
  by (auto simp: mpc_hm_verify_def verify_commit_def Let_def sbind_Inr_iff succ3_def param_values
      split: if_splits)

text \<open>
  Without a collision, answers z 0, z 1, z 2 that pass verify\_commit for one
  commitment open one triple of views, keys and commitment randomness.
\<close>

lemma openings_glue:
  assumes acc: "\<And>e. e < 3 \<Longrightarrow> mpc_hm_verify md stream True h a (z e) y e = Inr ()"
    and wf: "\<And>e. e < 3 \<Longrightarrow> wf_open (z e)" and "\<not> answers_collide md z"
  obtains keys rs views where "\<And>e. e < 3 \<Longrightarrow> z e = zk_open e keys rs views"
    "\<And>e. e < 3 \<Longrightarrow> wf_view (sel3 views e)"
proof -
  let ?k = "\<lambda>e. Arr2 (z_ke (z e), the (z_ve (z e)), z_re (z e)) (z_ke1 (z e), the (z_ve1 (z e)), z_re1 (z e))"
  have glue: "snd2 (?k e) = fst2 (?k (succ3 e))" if e: "e < 3" for e
  proof -
    obtain v v1 where v: "z_ve (z e) = Some v" "z_ve1 (z e) = Some v1" "wf_view v1"
      using wf[OF e] by (auto simp: wf_open_def)
    have e1: "succ3 e < 3" by simp
    obtain w w1 where w: "z_ve (z (succ3 e)) = Some w" "z_ve1 (z (succ3 e)) = Some w1" "wf_view w"
      using wf[OF e1] by (auto simp: wf_open_def)
    have "H_view md (z_ke1 (z e)) v1 (z_re1 (z e)) = H_view md (z_ke (z (succ3 e))) w (z_re (z (succ3 e)))"
      using mpc_hm_verifyD(2)[OF acc[OF e] v(1,2)] mpc_hm_verifyD(1)[OF acc[OF e1] w(1,2)] by simp
    then have "view_input (z_ke1 (z e)) v1 (z_re1 (z e)) = view_input (z_ke (z (succ3 e))) w (z_re (z (succ3 e)))"
      using assms(3) e v(2) w(1) by (auto simp: answers_collide_def H_view_input Let_def)
    from view_input_inj[OF this v(3) w(3)] wf[OF e] wf[OF e1] show ?thesis
      by (simp add: wf_open_def v w)
  qed
  from opened_glue[of ?k, OF glue] obtain K where K: "\<And>e. e < 3 \<Longrightarrow> ?k e = opened e K" by blast
  show ?thesis
  proof (rule that[of "map_arr3 fst K" "map_arr3 (snd \<circ> snd) K" "map_arr3 (fst \<circ> snd) K"])
    fix e :: nat assume e: "e < 3"
    obtain v v1 where v: "z_ve (z e) = Some v" "z_ve1 (z e) = Some v1" "wf_view v"
      using wf[OF e] by (auto simp: wf_open_def)
    have "sel3 K e = (z_ke (z e), v, z_re (z e))" "sel3 K (succ3 e) = (z_ke1 (z e), v1, z_re1 (z e))"
      using K[OF e] v by (simp_all add: opened_def)
    with v show "z e = zk_open e (map_arr3 fst K) (map_arr3 (snd \<circ> snd) K) (map_arr3 (fst \<circ> snd) K)"
      "wf_view (sel3 (map_arr3 (fst \<circ> snd) K) e)"
      by (simp_all add: zk_open_def)
  qed
qed

text \<open>What three accepted answers establish about the committed digest y and the hash h.\<close>

lemma three_answers:
  assumes acc: "\<And>e. e < 3 \<Longrightarrow> mpc_hm_verify md stream True h a (z e) y e = Inr ()"
    and wf: "\<And>e. e < 3 \<Longrightarrow> wf_open (z e)" and nc: "\<not> answers_collide md z"
    and h: "L_WORDS \<le> length (uh_A h)" "uh_b h \<noteq> []" and a: "wf_commit a"
  obtains keys rs views where "\<And>e. e < 3 \<Longrightarrow> z e = zk_open e keys rs views"
    "\<And>e. e < 3 \<Longrightarrow> sel3 (a_h a) e = H_view md (sel3 keys e) (sel3 views e) (sel3 rs e)"
    "wf_shares (map_arr3 view_x views)"
    "load_digest_words y = regs_list (sha256_carry (cin views) (rvec_msg (rvec_xor3 (map_arr3 view_x views))))"
    "\<exists>v. xor3 (map_arr3 (\<lambda>w. load_u32_le (view_msg w)) views) = of_bool v
       \<and> hash_commits h (rvec_xor3 (map_arr3 view_x views)) v"
proof -
  from openings_glue[OF acc wf nc] obtain keys rs views where
    z: "\<And>e. e < 3 \<Longrightarrow> z e = zk_open e keys rs views" and wv: "\<And>e. e < 3 \<Longrightarrow> wf_view (sel3 views e)"
    by metis
  let ?s = "map_arr3 view_x views" and ?m = "map_arr3 (\<lambda>w. load_u32_le (view_msg w)) views"
  let ?out = "reconstruct_sha256_output_shares a y"
  have s: "wf_shares ?s" using wv by (simp add: wf_shares_def wf_view_def)
  have o: "z_ve (zk_open e keys rs views) = Some (sel3 views e)"
    "z_ve1 (zk_open e keys rs views) = Some (sel3 views (succ3 e))" for e
    by (simp_all add: zk_open_def)
  have "mpc_sha256_verify stream True ?out e (zk_open e keys rs views) = Inr ()" if "e < 3" for e
    by (rule mpc_hm_verifyD(3)[OF acc[OF that, unfolded z[OF that]] o])
  from verify_three_sound[OF s this length_reconstruct]
  have 1: "load_digest_words y = regs_list (sha256_carry (cin views) (rvec_msg (rvec_xor3 ?s)))"
    by (simp add: xor_words_reconstruct)
  have ne: "a_y2p a \<noteq> []" using a by (auto simp: wf_commit_def param_values)
  have "mpc_inner_prod_verify h (opened e ?m) (opened e ?s) (a_y2p a ! 0) e = Inr ()" if "e < 3" for e
    using mpc_hm_verifyD(4)[OF acc[OF that, unfolded z[OF that]] o ne] by (simp add: opened_def)
  note 2 = inner_prod_sound[OF h s this]
  have 3: "sel3 (a_h a) e = H_view md (sel3 keys e) (sel3 views e) (sel3 rs e)" if "e < 3" for e
    using mpc_hm_verifyD(1)[OF acc[OF that, unfolded z[OF that]] o] by (simp add: zk_open_def)
  show ?thesis by (rule that[OF z 3 s 1 2])
qed

section \<open>Properties\<close>

text \<open>C7: Completeness of a proof round.  For well-formed shares of the opening vector and of the
  bit that h commits to, mpc_hm_prove succeeds, and with the hashes of its views filled in the
  record it returns is accepted by mpc_hm_verify for each of the three challenges, against the
  SHA-256 digest of the opening vector.\<close>

theorem mpc_hm_complete:
  assumes "L_WORDS \<le> length (uh_A h)" "uh_b h \<noteq> []" and "wf_shares s"
    and "prover_buffers (generate_randomness stream keys) views"
    and "xor3 m0 = of_bool v" and "hash_commits h (rvec_xor3 s) v" and "length (a_y2p a) = MSG_WORDS"
  shows "\<exists>views' a'. mpc_hm_prove views a (generate_randomness stream keys) h s [m0] = Inr (views', a') \<and>
     (let hs = zip3 (\<lambda>k w. H_view md k (fst w) (snd w)) keys (zip3 Pair views' rs) in
      \<forall>e<3. mpc_hm_verify md stream True h (a'\<lparr>a_h := hs\<rparr>) (zk_open e keys rs views')
         (sha256 (rvec_msg (rvec_xor3 s))) e = Inr ())"
  by (rule mpc_hm_prove_result[OF assms(1-4) refl assms(5-7)]) (simp add: Let_def)

definition demo_commit_record :: ZkBooCommit where
  "demo_commit_record = \<lparr>a_yp = Arr2 [] [], a_y2p = [Arr3 0 0 0], a_h = Arr3 [] [] []\<rparr>"

lemma demo_round:
  "prover_buffers (generate_randomness stream keys) (Arr3 zero_view zero_view zero_view)"
  "xor3 (Arr3 1 1 1) = (of_bool True :: u32)" "length (a_y2p demo_commit_record) = MSG_WORDS"
  by (simp_all add: zero_ready(2) xor3_def demo_commit_record_def param_values)

lemma mpc_hm_complete_witness:
  "\<exists>views' a'. mpc_hm_prove (Arr3 zero_view zero_view zero_view) demo_commit_record
      (generate_randomness (\<lambda>_ _. 7) (Arr3 [1] [2] [3])) demo_hash demo_shares [Arr3 1 1 1] = Inr (views', a') \<and>
     (let hs = zip3 (\<lambda>k w. H_view (take 32) k (fst w) (snd w)) (Arr3 [1] [2] [3]) (zip3 Pair views' (Arr3 [4] [5] [6])) in
      \<forall>e<3. mpc_hm_verify (take 32) (\<lambda>_ _. 7) True demo_hash (a'\<lparr>a_h := hs\<rparr>)
         (zk_open e (Arr3 [1] [2] [3]) (Arr3 [4] [5] [6]) views')
         (sha256 (rvec_msg (rvec_xor3 demo_shares))) e = Inr ())"
  by (rule mpc_hm_complete[OF demo_hash_commits(1-3) demo_round(1,2) demo_hash_commits(4) demo_round(3)])

text \<open>C1: Soundness of a proof round.  Three accepted answers to one commitment record either
  contain two different inputs with the same digest, or all open one triple of keys, randomness and
  views, whose hashes are those of the record; the message shares in these views XOR to the bit that
  h commits to under the vector their input shares XOR to, and the published digest is the value of
  the SHA-256 circuit on that vector with the carries that these views inject at their ADD gates:
  it is SHA-256 of the vector, or some gate of these views has an injected carry.\<close>

theorem mpc_hm_sound:
  assumes "\<And>e. e < 3 \<Longrightarrow> mpc_hm_verify md stream True h a (z e) y e = Inr ()"
    and "\<And>e. e < 3 \<Longrightarrow> wf_open (z e)" and "L_WORDS \<le> length (uh_A h)" "uh_b h \<noteq> []"
    and "wf_commit a" and "length y = 32"
  shows "answers_collide md z \<or> (\<exists>keys rs views v.
     (\<forall>e<3. z e = zk_open e keys rs views \<and>
        sel3 (a_h a) e = H_view md (sel3 keys e) (sel3 views e) (sel3 rs e)) \<and>
     wf_shares (map_arr3 view_x views) \<and>
     xor3 (map_arr3 (\<lambda>w. load_u32_le (view_msg w)) views) = of_bool v \<and>
     hash_commits h (rvec_xor3 (map_arr3 view_x views)) v \<and>
     load_digest_words y = regs_list (sha256_carry (cin views) (rvec_msg (rvec_xor3 (map_arr3 view_x views)))) \<and>
     (y = sha256 (rvec_msg (rvec_xor3 (map_arr3 view_x views))) \<or> (\<exists>k. add_position k \<and> cin views k)))"
proof (cases "answers_collide md z")
  case False
  show ?thesis
  proof (rule three_answers[OF assms(1,2) False assms(3,4,5)])
    fix keys rs and views :: "View arr3"
    let ?s = "map_arr3 view_x views"
    assume z: "\<And>e. e < 3 \<Longrightarrow> z e = zk_open e keys rs views"
        "\<And>e. e < 3 \<Longrightarrow> sel3 (a_h a) e = H_view md (sel3 keys e) (sel3 views e) (sel3 rs e)"
      and s: "wf_shares ?s"
      and d: "load_digest_words y = regs_list (sha256_carry (cin views) (rvec_msg (rvec_xor3 ?s)))"
      and v: "\<exists>v. xor3 (map_arr3 (\<lambda>w. load_u32_le (view_msg w)) views) = of_bool v
       \<and> hash_commits h (rvec_xor3 ?s) v"
    have "y = sha256 (rvec_msg (rvec_xor3 ?s))" if "\<not> (\<exists>k. add_position k \<and> cin views k)"
    proof -
      have "sha256_carry (cin views) (rvec_msg (rvec_xor3 ?s)) = sha256_carry (\<lambda>_. False) (rvec_msg (rvec_xor3 ?s))"
        by (rule sha256_carry_cong) (use that s in auto)
      then show ?thesis
        using store_digest_words[OF assms(6)] by (simp add: d sha256_no_carry sha256_def)
    qed
    moreover have "\<forall>e<3. z e = zk_open e keys rs views \<and>
        sel3 (a_h a) e = H_view md (sel3 keys e) (sel3 views e) (sel3 rs e)" using z by blast
    ultimately show ?thesis using s v d by blast
  qed
qed simp

lemma mpc_hm_sound_witness:
  "\<exists>a z. (\<forall>e<3. mpc_hm_verify (take 32) (\<lambda>_ _. 7) True demo_hash a (z e)
        (sha256 (rvec_msg (rvec_xor3 demo_shares))) e = Inr ()) \<and>
     (answers_collide (take 32) z \<or> (\<exists>keys rs views v.
       (\<forall>e<3. z e = zk_open e keys rs views \<and>
          sel3 (a_h a) e = H_view (take 32) (sel3 keys e) (sel3 views e) (sel3 rs e)) \<and>
       wf_shares (map_arr3 view_x views) \<and>
       xor3 (map_arr3 (\<lambda>w. load_u32_le (view_msg w)) views) = of_bool v \<and>
       hash_commits demo_hash (rvec_xor3 (map_arr3 view_x views)) v \<and>
       load_digest_words (sha256 (rvec_msg (rvec_xor3 demo_shares))) =
         regs_list (sha256_carry (cin views) (rvec_msg (rvec_xor3 (map_arr3 view_x views)))) \<and>
       (sha256 (rvec_msg (rvec_xor3 demo_shares)) = sha256 (rvec_msg (rvec_xor3 (map_arr3 view_x views)))
         \<or> (\<exists>k. add_position k \<and> cin views k))))"
proof (rule mpc_hm_prove_result[where stream = "\<lambda>_ _. 7"
      and keys = "Arr3 (replicate 16 1) (replicate 16 2) (replicate 16 3)",
      OF demo_hash_commits(1-3) demo_round(1) refl demo_round(2) demo_hash_commits(4) demo_round(3)])
  let ?keys = "Arr3 (replicate 16 1) (replicate 16 2) (replicate 16 3) :: byte list arr3"
    and ?rs = "Arr3 (replicate 4 1) (replicate 4 2) (replicate 4 3) :: byte list arr3"
    and ?y = "sha256 (rvec_msg (rvec_xor3 demo_shares))"
  fix views' :: "View arr3" and a'
  assume wc: "wf_commit a'" and x: "\<And>e. e < 3 \<Longrightarrow> view_x (sel3 views' e) = sel3 demo_shares e"
    and ys: "\<And>e. e < 3 \<Longrightarrow> length (view_y (sel3 views' e)) = ySize"
    and ms: "\<And>e. e < 3 \<Longrightarrow> view_msg (sel3 views' e) = store_u32_le (sel3 (Arr3 1 1 1) e)
        @ drop 4 (view_msg (sel3 (Arr3 zero_view zero_view zero_view) e))"
    and ver: "\<And>md hs rs e. (\<And>i. i < 3 \<Longrightarrow> sel3 hs i = H_view md (sel3 ?keys i) (sel3 views' i) (sel3 rs i)) \<Longrightarrow>
       e < 3 \<Longrightarrow> mpc_hm_verify md (\<lambda>_ _. 7) True demo_hash (a'\<lparr>a_h := hs\<rparr>) (zk_open e ?keys rs views') ?y e = Inr ()"
  define z where "z e = zk_open e ?keys ?rs views'" for e
  define a where "a = a'\<lparr>a_h := zip3 (\<lambda>k w. H_view (take 32) k (fst w) (snd w)) ?keys (zip3 Pair views' ?rs)\<rparr>"
  have acc: "mpc_hm_verify (take 32) (\<lambda>_ _. 7) True demo_hash a (z e) ?y e = Inr ()" if "e < 3" for e
    unfolding a_def z_def by (rule ver[OF _ that]) simp
  have "wf_rvec (sel3 demo_shares e)" if "e < 3" for e
    using demo_hash_commits(3) that by (simp add: wf_shares_def)
  then have "wf_view (sel3 views' e)" if "e < 3" for e
    using x[OF that] ys[OF that] ms[OF that] that
    by (simp add: wf_view_def sel3_def zero_view_def param_values)
  then have wo: "wf_open (z e)" if "e < 3" for e
    using that by (simp add: wf_open_def z_def zk_open_def) (simp add: sel3_def)
  have wa: "wf_commit a" using wc by (simp add: a_def wf_commit_def)
  from mpc_hm_sound[OF acc wo demo_hash_commits(1,2) wa] acc show ?thesis
    by (intro exI[of _ a] exI[of _ z]) simp
qed

end
