(* ===== verification/MPC_Verify_Safe.thy ===== *)
theory MPC_Verify_Safe
  imports MPC_HM
begin

text \<open>
  The verifier of one round on untrusted input.  The prover's record fixes
  only the contents of the two views and of the commitment; whatever they
  hold, every gate consumes the same amount of tape and view, so the verifier
  reads nothing outside its buffers and either accepts or rejects.
\<close>

section \<open>Programs that stay inside the tapes and views\<close>

text \<open>From the position of gate k the program rejects or stops at gate k + n.\<close>

definition stays :: "nat \<Rightarrow> nat \<Rightarrow> (counters, 'a) prog \<Rightarrow> bool" where
  "stays k n v \<longleftrightarrow> v (at_gate k) = Inl Rejected \<or> (\<exists>z. v (at_gate k) = Inr (z, at_gate (k + n)))"

named_theorems stays_intro

lemma stays_ret: "stays k 0 (ret z)"
  by (simp add: stays_def)

lemma stays_bnd: "stays k n v \<Longrightarrow> (\<And>z. stays (k + n) m (g z)) \<Longrightarrow> stays k (n + m) (bnd v g)"
  unfolding stays_def bnd_def add.assoc[symmetric] by (elim disjE exE) simp_all

lemma stays_count: "stays k n v \<Longrightarrow> n = m \<Longrightarrow> stays k m v"
  by simp

lemma stays_loop:
  assumes "\<And>i a j. i < length is \<Longrightarrow> j = k + n * i \<Longrightarrow> stays j n (f (is ! i) a)"
  shows "stays k (n * length is) (loop f is a)"
  using assms
proof (induction "is" arbitrary: k a)
  case Nil
  show ?case by (simp add: stays_def)
next
  case (Cons i "is")
  have "stays k n (f i a)" using Cons.prems[of 0 k a] by simp
  moreover have "stays (k + n) (n * length is) (loop f is b)" for b
  proof (rule Cons.IH)
    show "stays j n (f (is ! m) c)" if "m < length is" "j = k + n + n * m" for m c j
      using Cons.prems[of "Suc m" j c] that by (simp add: add.assoc)
  qed
  ultimately show ?case using stays_bnd[of k n "f i a" "n * length is" "loop f is"] by simp
qed

lemma stays_for:
  assumes "\<And>i a j. lo \<le> i \<Longrightarrow> i < hi \<Longrightarrow> j = k + n * (i - lo) \<Longrightarrow> stays j n (f i a)"
  shows "stays k (n * (hi - lo)) (loop f [lo..<hi] a)"
proof -
  have "stays k (n * length [lo..<hi]) (loop f [lo..<hi] a)"
  proof (rule stays_loop)
    show "stays j n (f ([lo..<hi] ! i) b)" if "i < length [lo..<hi]" "j = k + n * i" for i b j
      using assms[of "lo + i" j b] that by simp
  qed
  then show ?thesis by simp
qed

text \<open>Room for gate k in the tapes and views of the two opened parties.\<close>

definition in_room :: "byte list arr2 \<Rightarrow> View \<Rightarrow> View \<Rightarrow> nat \<Rightarrow> bool" where
  "in_room rnd v v1 k \<longleftrightarrow> 4 * k + 4 \<le> length (fst2 rnd) \<and> 4 * k + 4 \<le> length (snd2 rnd)
     \<and> k < length (view_y v) \<and> k < length (view_y v1)"

context mpc_gate begin

lemma stays_gate:
  assumes "in_room rnd v v1 k"
  shows "stays k 1 (verify x2 y2 v v1 rnd)"
proof -
  obtain r where r: "draw2 rnd (at_gate k) = Inr (r, \<lparr>rand_count = 4 * k + 4, count_y = k\<rparr>)"
    using assms by (simp add: draw2_def getRandom32_def in_room_def at_gate_def Let_def)
  obtain w where w: "read2 v v1 \<lparr>rand_count = 4 * k + 4, count_y = k\<rparr>
      = Inr (w, \<lparr>rand_count = 4 * k + 4, count_y = k\<rparr>)"
    using assms by (simp add: read2_def in_room_def Let_def)
  show ?thesis
    using r w by (simp add: stays_def verify_steps next_y_def at_gate_def)
qed

end

lemma stays_MAJ: "in_room rnd v v1 k \<Longrightarrow> stays k 1 (mpc_MAJ_verify a b c v v1 rnd)"
  unfolding mpc_MAJ_verify_def Let_def
  by (rule stays_count, rule stays_bnd, erule and_gate.stays_gate, rule stays_ret) simp

lemma stays_CH: "in_room rnd v v1 k \<Longrightarrow> stays k 1 (mpc_CH_verify a b c v v1 rnd)"
  unfolding mpc_CH_verify_def Let_def
  by (rule stays_count, rule stays_bnd, erule and_gate.stays_gate, rule stays_ret) simp

section \<open>The circuit\<close>

lemmas stays_steps = stays_ret stays_bnd[OF add_gate.stays_gate] stays_bnd[OF stays_MAJ]
  stays_bnd[OF stays_CH]

lemma in_room_mono: "in_room rnd v v1 m \<Longrightarrow> k \<le> m \<Longrightarrow> in_room rnd v v1 k"
  by (auto simp: in_room_def)

lemma stays_schedule:
  assumes "in_room rnd v v1 (k + 2)"
  shows "stays k 3 (verify_schedule v v1 rnd j w)"
  unfolding verify_schedule_def Let_def
  by (rule stays_count, (rule stays_steps | (rule in_room_mono[OF assms], simp))+) simp_all

lemma stays_round:
  assumes "in_room rnd v v1 (k + 8)"
  shows "stays k 9 (verify_round v v1 rnd w i r)"
  unfolding verify_round_def Let_def
  by (cases r, simp only: regs.case,
      rule stays_count, (rule stays_steps | (rule in_room_mono[OF assms], simp))+) simp_all

lemma stays_final:
  assumes "in_room rnd v v1 (k + 7)"
  shows "stays k 8 (verify_final v v1 rnd H r)"
  unfolding verify_final_def
  by (rule stays_count, (rule stays_steps | (rule in_room_mono[OF assms], simp))+) simp_all

lemma stays_block:
  assumes "in_room rnd v v1 (k + 727)"
  shows "stays k 728 (verify_block v v1 rnd padded blk H)"
proof -
  have "stays k (3 * (64 - 16)) (loop (verify_schedule v v1 rnd) [16..<64] (load_block2 padded blk))"
    by (rule stays_for) (rule stays_schedule, rule in_room_mono[OF assms], simp)
  moreover have "stays (k + 3 * (64 - 16)) (9 * (64 - 0)) (loop (verify_round v v1 rnd w) [0..<64] H)" for w
    by (rule stays_for) (rule stays_round, rule in_room_mono[OF assms], simp)
  moreover have "stays (k + 3 * (64 - 16) + 9 * (64 - 0)) 8 (verify_final v v1 rnd H r)" for r
    by (rule stays_final, rule in_room_mono[OF assms]) simp
  ultimately have "stays k (3 * (64 - 16) + (9 * (64 - 0) + 8)) (verify_block v v1 rnd padded blk H)"
    unfolding verify_block_def by (intro stays_bnd)
  then show ?thesis by simp
qed

lemma stays_circuit:
  assumes "in_room rnd v v1 (ySize - 1)"
  shows "stays 0 ySize (verify_circuit v v1 rnd)"
proof -
  have "stays 0 (728 * (NUM_SHA256_BLOCKS - 0)) (verify_circuit v v1 rnd)"
    unfolding verify_circuit_def Let_def
    by (rule stays_for) (rule stays_block, rule in_room_mono[OF assms], simp add: param_values)
  then show ?thesis by (simp add: param_values)
qed

section \<open>The round\<close>

lemma mpc_sha256_verify_total:
  assumes "z_ve z = Some v" "z_ve1 z = Some v1" "wf_view v" "wf_view v1" "e < 3"
  shows "mpc_sha256_verify stream alloc_ok out e z \<in>
     (if alloc_ok then {Inr (), Inl Rejected} else {Inl NoMemory})"
proof -
  let ?rnd = "Arr2 (getAllRandomness stream (z_ke z)) (getAllRandomness stream (z_ke1 z))"
  have "in_room ?rnd v v1 (ySize - 1)"
    using assms(3,4) by (simp add: in_room_def wf_view_def param_values)
  from stays_circuit[OF this] have "verify_circuit v v1 ?rnd \<lparr>rand_count = 0, count_y = 0\<rparr> = Inl Rejected
     \<or> (\<exists>H s. verify_circuit v v1 ?rnd \<lparr>rand_count = 0, count_y = 0\<rparr> = Inr (H, s))"
    by (auto simp: stays_def at_gate_def)
  then show ?thesis
    using assms(1,2,5) by (elim disjE exE) (simp_all add: mpc_sha256_verify_def Let_def)
qed

lemma mpc_inner_prod_verify_total:
  assumes "L_WORDS \<le> length (uh_A h)" and "uh_b h \<noteq> []"
  shows "mpc_inner_prod_verify h m r y e \<in> {Inr (), Inl Rejected}"
proof -
  have loop: "sloop (\<lambda>i y_rec. sbind (rd (uh_A h) i) (\<lambda>Ai.
         Inr (mpc_XOR2_const y_rec (mpc_ANDK2 (map_arr2 (\<lambda>v. mask_l_word (words v ! i) i) r) Ai))))
         [0..<L_WORDS] (Arr2 0 0)
      = Inr (map_arr2 (inner (uh_A h)) r) \<and> True"
    unfolding inner_shares2 by (rule sloop_fold) (use assms in \<open>auto simp: Let_def\<close>)
  show ?thesis
    unfolding mpc_inner_prod_verify_def conjunct1[OF loop] sbind_Inr Let_def
    using assms(2) by (auto split: if_splits)
qed

lemma mpc_hm_verify_total:
  assumes "wf_open z" "wf_commit a" "e < 3" and "L_WORDS \<le> length (uh_A h)" "uh_b h \<noteq> []"
  shows "mpc_hm_verify md stream alloc_ok h a z y e \<in>
     {Inr (), Inl Rejected} \<union> (if alloc_ok then {} else {Inl NoMemory})"
proof -
  obtain v v1 where v: "z_ve z = Some v" "z_ve1 z = Some v1" "wf_view v" "wf_view v1"
    using assms(1) by (auto simp: wf_open_def)
  have ne: "a_y2p a \<noteq> []" using assms(2) by (auto simp: wf_commit_def param_values)
  have c: "verify_commit md a z e \<in> {Inr (), Inl Rejected}"
    by (auto simp: verify_commit_def v(1,2))
  note s = mpc_sha256_verify_total[OF v assms(3), of stream alloc_ok "reconstruct_sha256_output_shares a y"]
  note i = mpc_inner_prod_verify_total[OF assms(4,5)]
  show ?thesis
    using c s ne i[of "Arr2 (load_u32_le (view_msg v)) (load_u32_le (view_msg v1))"
        "Arr2 (view_x v) (view_x v1)" "a_y2p a ! 0" e]
    by (auto simp: mpc_hm_verify_def v(1,2) Let_def param_values split: if_splits)
qed

text \<open>C15: The verifier of a round is safe on untrusted input.  For every commitment record and opening
  whose members have their declared lengths, as hm\_zk\_read\_proof\_round fills them in from any
  file, and for every digest, mpc\_hm\_verify accepts or rejects: it never reads outside the tapes,
  the views or the matrix, and fails for lack of memory only if an allocation failed.\<close>

theorem mpc_hm_verify_safe:
  assumes "wf_open z" "wf_commit a" "e < 3" and "L_WORDS \<le> length (uh_A h)" "uh_b h \<noteq> []"
  shows "mpc_hm_verify md stream alloc_ok h a z y e \<in>
     {Inr (), Inl Rejected} \<union> (if alloc_ok then {} else {Inl NoMemory})"
  by (rule mpc_hm_verify_total[OF assms])

definition garbage_open :: ZkBooOpen where
  "garbage_open = \<lparr>z_ke = replicate 16 1, z_ke1 = replicate 16 2,
     z_ve = Some (zero_view\<lparr>view_y := replicate ySize 0xdeadbeef\<rparr>),
     z_ve1 = Some (zero_view\<lparr>view_msg := replicate 4 255\<rparr>), z_re = replicate 4 3, z_re1 = replicate 4 4\<rparr>"

lemma mpc_hm_verify_safe_witness:
  "mpc_hm_verify (take 32) (\<lambda>_ _. 7) True demo_hash
     \<lparr>a_yp = Arr2 (replicate 8 1) (replicate 8 2), a_y2p = [Arr3 1 0 1], a_h = Arr3 [] [] []\<rparr>
     garbage_open (replicate 32 5) 2 \<in> {Inr (), Inl Rejected} \<union> {}"
proof -
  have "wf_open garbage_open"
    by (simp add: garbage_open_def wf_open_def wf_view_def wf_rvec_def zero_view_def zero_rvec_def param_values)
  moreover have "wf_commit \<lparr>a_yp = Arr2 (replicate 8 1) (replicate 8 2), a_y2p = [Arr3 1 0 1],
      a_h = Arr3 [] [] []\<rparr>" by (simp add: wf_commit_def param_values)
  ultimately have "mpc_hm_verify (take 32) (\<lambda>_ _. 7) True demo_hash
     \<lparr>a_yp = Arr2 (replicate 8 1) (replicate 8 2), a_y2p = [Arr3 1 0 1], a_h = Arr3 [] [] []\<rparr>
     garbage_open (replicate 32 5) 2 \<in> {Inr (), Inl Rejected} \<union> (if True then {} else {Inl NoMemory})"
    by (rule mpc_hm_verify_safe) (use demo_hash_commits(1,2) in simp_all)
  then show ?thesis by simp
qed

end
