(* ===== verification/Parallel_Rounds.thy ===== *)
theory Parallel_Rounds
  imports HM_Heap
begin

text \<open>
  The OpenMP regions of src/hm_zk.c: a team of threads, each with a state of
  its own, shares the rounds of one loop, an atomic error flag and the heap.
  A thread initialises its state on the heap; if that fails it raises the flag
  and still takes rounds; a round that is taken while the flag is up is skipped.
  After the barrier of the loop every thread releases its state.  The step
  relation allows every assignment of rounds to threads and every interleaving.
\<close>

section \<open>Threads and steps\<close>

datatype 'st worker = Unstarted | Idle 'st | Busy nat 'st | Broken 'st

fun is_broken :: "'st worker \<Rightarrow> bool" where
  "is_broken (Broken st) = True"
| "is_broken _ = False"

record ('st, 'g) team =
  workers :: "'st worker list"
  todo :: "nat list"
  err :: bool
  shared :: 'g
  mem :: heap
  undefined_access :: bool

text \<open>
  The body of a round takes the state of its thread and the shared state.
  None is a round that never returns; the Boolean is False for a round that
  raises the error flag.  What the start of a thread may do on a heap is a
  relation, since the new blocks hold arbitrary bytes: it returns a state and a
  return code, or the process aborts.
\<close>

type_synonym 'st thread_start = "heap \<Rightarrow> fault + ('st option \<times> int) \<times> heap \<Rightarrow> bool"

type_synonym ('st, 'g) round_body = "nat \<Rightarrow> 'st \<Rightarrow> 'g \<Rightarrow> (fault + bool \<times> 'st \<times> 'g) option"

inductive omp_step :: "'st thread_start \<Rightarrow> ('st, 'g) round_body \<Rightarrow> ('st, 'g) team \<Rightarrow> ('st, 'g) team \<Rightarrow> bool"
  for start body where
  init_ok: "i < length (workers s) \<Longrightarrow> workers s ! i = Unstarted \<Longrightarrow> start (mem s) (Inr ((Some st, 0), h)) \<Longrightarrow>
     omp_step start body s (s\<lparr>workers := (workers s)[i := Idle st], mem := h\<rparr>)"
| init_fail: "i < length (workers s) \<Longrightarrow> workers s ! i = Unstarted \<Longrightarrow> start (mem s) (Inr ((Some st, rc), h)) \<Longrightarrow> rc \<noteq> 0 \<Longrightarrow>
     omp_step start body s (s\<lparr>workers := (workers s)[i := Broken st], err := True, mem := h\<rparr>)"
| skip_idle: "i < length (workers s) \<Longrightarrow> workers s ! i = Idle st \<Longrightarrow> k \<in> set (todo s) \<Longrightarrow> err s \<Longrightarrow>
     omp_step start body s (s\<lparr>todo := remove1 k (todo s)\<rparr>)"
| skip_broken: "i < length (workers s) \<Longrightarrow> workers s ! i = Broken st \<Longrightarrow> k \<in> set (todo s) \<Longrightarrow> err s \<Longrightarrow>
     omp_step start body s (s\<lparr>todo := remove1 k (todo s)\<rparr>)"
| take_round: "i < length (workers s) \<Longrightarrow> workers s ! i = Idle st \<Longrightarrow> k \<in> set (todo s) \<Longrightarrow> \<not> err s \<Longrightarrow>
     omp_step start body s (s\<lparr>workers := (workers s)[i := Busy k st], todo := remove1 k (todo s)\<rparr>)"
| take_broken: "i < length (workers s) \<Longrightarrow> workers s ! i = Broken st \<Longrightarrow> k \<in> set (todo s) \<Longrightarrow> \<not> err s \<Longrightarrow>
     omp_step start body s (s\<lparr>undefined_access := True\<rparr>)"
| finish_round: "i < length (workers s) \<Longrightarrow> workers s ! i = Busy k st \<Longrightarrow>
     body k st (shared s) = Some (Inr (ok, st', g')) \<Longrightarrow>
     omp_step start body s (s\<lparr>workers := (workers s)[i := Idle st'], shared := g', err := err s \<or> \<not> ok\<rparr>)"
| round_fault: "i < length (workers s) \<Longrightarrow> workers s ! i = Busy k st \<Longrightarrow>
     body k st (shared s) = Some (Inl f) \<Longrightarrow>
     omp_step start body s (s\<lparr>undefined_access := True\<rparr>)"

inductive_cases omp_stepE: "omp_step start body s t"

definition team_start :: "nat \<Rightarrow> nat \<Rightarrow> 'g \<Rightarrow> heap \<Rightarrow> ('st, 'g) team" where
  "team_start n rounds g h = \<lparr>workers = replicate n Unstarted, todo = [0..<rounds], err = False,
     shared = g, mem = h, undefined_access = False\<rparr>"

text \<open>The barrier at the end of the loop: every thread is through, no round is left.\<close>

fun at_barrier :: "'st worker \<Rightarrow> bool" where
  "at_barrier (Idle st) = True"
| "at_barrier (Broken st) = True"
| "at_barrier _ = False"

definition joined :: "('st, 'g) team \<Rightarrow> bool" where
  "joined s \<longleftrightarrow> todo s = [] \<and> list_all at_barrier (workers s)"

text \<open>A run of the whole region with n threads, from its start to the barrier.\<close>

definition omp_run :: "'st thread_start \<Rightarrow> ('st, 'g) round_body \<Rightarrow> nat \<Rightarrow> nat \<Rightarrow> 'g \<Rightarrow> heap \<Rightarrow> ('st, 'g) team \<Rightarrow> bool" where
  "omp_run start body n rounds g h s \<longleftrightarrow> (omp_step start body)\<^sup>*\<^sup>* (team_start n rounds g h) s \<and> joined s"

text \<open>A thread that has not started can end the whole process.\<close>

definition thread_stops :: "'st thread_start \<Rightarrow> ('st, 'g) team \<Rightarrow> fault \<Rightarrow> bool" where
  "thread_stops start s f \<longleftrightarrow> Unstarted \<in> set (workers s) \<and> start (mem s) (Inl f)"

text \<open>
  Behind the barrier each thread releases its state, also one whose
  initialisation failed; the list gives the order in which they do.
\<close>

primrec leave_all :: "('st \<Rightarrow> (heap, 'st option) prog) \<Rightarrow> 'st worker list \<Rightarrow> (heap, unit) prog" where
  "leave_all cleanup [] = ret ()"
| "leave_all cleanup (w # ws) = (case w of
     Idle st \<Rightarrow> bnd (cleanup st) (\<lambda>_. leave_all cleanup ws)
   | Broken st \<Rightarrow> bnd (cleanup st) (\<lambda>_. leave_all cleanup ws)
   | _ \<Rightarrow> leave_all cleanup ws)"

text \<open>
  The same loop when the pragmas are ignored: one thread takes the rounds in
  order and skips those after a failure.
\<close>

primrec serial_rounds :: "('st, 'g) round_body \<Rightarrow> nat list \<Rightarrow> 'st \<Rightarrow> 'g \<Rightarrow> bool \<Rightarrow>
    (fault + bool \<times> 'st \<times> 'g) option" where
  "serial_rounds body [] st g e = Some (Inr (e, st, g))"
| "serial_rounds body (k # ks) st g e =
     (if e then serial_rounds body ks st g e
      else case body k st g of None \<Rightarrow> None
        | Some (Inl f) \<Rightarrow> Some (Inl f)
        | Some (Inr (ok, st', g')) \<Rightarrow> serial_rounds body ks st' g' (\<not> ok))"

section \<open>Every run is short\<close>

definition work_left :: "('st, 'g) team \<Rightarrow> nat" where
  "work_left s = length (filter (\<lambda>w. \<not> at_barrier w) (workers s)) + 2 * length (todo s)"

lemma filter_update_less:
  "i < length xs \<Longrightarrow> P (xs ! i) \<Longrightarrow> \<not> P x \<Longrightarrow> length (filter P (xs[i := x])) + 1 = length (filter P xs)"
  by (induction xs arbitrary: i) (auto split: nat.splits)

lemma filter_update_more:
  "i < length xs \<Longrightarrow> \<not> P (xs ! i) \<Longrightarrow> P x \<Longrightarrow> length (filter P (xs[i := x])) = length (filter P xs) + 1"
  by (induction xs arbitrary: i) (auto split: nat.splits)

lemma remove1_shorter: "x \<in> set xs \<Longrightarrow> length (remove1 x xs) + 1 = length xs"
  using length_pos_if_in_set[of x xs] by (simp add: length_remove1)

lemma omp_step_work:
  assumes "omp_step start body s t" and "\<not> undefined_access t"
  shows "work_left t < work_left s"
  using assms
proof cases
  case (take_round i st k)
  have "length (filter (\<lambda>w. \<not> at_barrier w) ((workers s)[i := Busy k st]))
      = length (filter (\<lambda>w. \<not> at_barrier w) (workers s)) + 1"
    using take_round by (intro filter_update_more) simp_all
  with take_round remove1_shorter[of _ "todo s"] show ?thesis by (fastforce simp: work_left_def)
next
  case (finish_round i k st ok st' g')
  have "length (filter (\<lambda>w. \<not> at_barrier w) ((workers s)[i := Idle st'])) + 1
      = length (filter (\<lambda>w. \<not> at_barrier w) (workers s))"
    using finish_round by (intro filter_update_less) simp_all
  then show ?thesis using finish_round by (simp add: work_left_def)
next
  case (init_ok i st h)
  have "length (filter (\<lambda>w. \<not> at_barrier w) ((workers s)[i := Idle st])) + 1
      = length (filter (\<lambda>w. \<not> at_barrier w) (workers s))"
    using init_ok by (intro filter_update_less) simp_all
  then show ?thesis using init_ok by (simp add: work_left_def)
next
  case (init_fail i st rc h)
  have "length (filter (\<lambda>w. \<not> at_barrier w) ((workers s)[i := Broken st])) + 1
      = length (filter (\<lambda>w. \<not> at_barrier w) (workers s))"
    using init_fail by (intro filter_update_less) simp_all
  then show ?thesis using init_fail by (simp add: work_left_def)
next
  case (skip_idle i st k)
  with remove1_shorter[of _ "todo s"] show ?thesis by (fastforce simp: work_left_def)
next
  case (skip_broken i st k)
  with remove1_shorter[of _ "todo s"] show ?thesis by (fastforce simp: work_left_def)
qed (simp_all)

section \<open>The contract of a round and what it gives a region\<close>

text \<open>
  good k says that round k succeeds, whichever thread runs it and in whatever
  order; done k g that its effect is in the shared state.
\<close>

fun worker_ok :: "('st \<Rightarrow> bool) \<Rightarrow> nat \<Rightarrow> bool \<Rightarrow> 'st worker \<Rightarrow> bool" where
  "worker_ok st_ok rounds e Unstarted = True"
| "worker_ok st_ok rounds e (Idle st) = st_ok st"
| "worker_ok st_ok rounds e (Busy k st) = (k < rounds \<and> st_ok st)"
| "worker_ok st_ok rounds e (Broken st) = e"

text \<open>Round k is open, under way or finished with its effect in g.\<close>

definition accounted :: "(nat \<Rightarrow> bool) \<Rightarrow> (nat \<Rightarrow> 'g \<Rightarrow> bool) \<Rightarrow> 'st worker list \<Rightarrow> nat list \<Rightarrow> 'g \<Rightarrow> nat \<Rightarrow> bool" where
  "accounted good done ws open_rounds g k \<longleftrightarrow>
     k \<in> set open_rounds \<or> (\<exists>st. Busy k st \<in> set ws) \<or> good k \<and> done k g"

definition round_inv :: "('st \<Rightarrow> bool) \<Rightarrow> ('g \<Rightarrow> bool) \<Rightarrow> (nat \<Rightarrow> bool) \<Rightarrow> (nat \<Rightarrow> 'g \<Rightarrow> bool) \<Rightarrow> nat \<Rightarrow>
    ('st, 'g) team \<Rightarrow> bool" where
  "round_inv st_ok g_ok good done rounds s \<longleftrightarrow>
     \<not> undefined_access s \<and> set (todo s) \<subseteq> {..<rounds} \<and> g_ok (shared s) \<and>
     list_all (worker_ok st_ok rounds (err s)) (workers s) \<and>
     (err s \<longrightarrow> list_ex is_broken (workers s) \<or> (\<exists>k<rounds. \<not> good k)) \<and>
     (\<not> err s \<longrightarrow> (\<forall>k<rounds. accounted good done (workers s) (todo s) (shared s) k))"

lemma round_invD:
  assumes "round_inv st_ok g_ok good done rounds s"
  shows "\<not> undefined_access s" "set (todo s) \<subseteq> {..<rounds}" "g_ok (shared s)"
    "list_all (worker_ok st_ok rounds (err s)) (workers s)"
    "err s \<Longrightarrow> list_ex is_broken (workers s) \<or> (\<exists>k<rounds. \<not> good k)"
    "\<not> err s \<Longrightarrow> k < rounds \<Longrightarrow> accounted good done (workers s) (todo s) (shared s) k"
  using assms by (simp_all add: round_inv_def)

lemma round_invI:
  assumes "\<not> undefined_access s" "set (todo s) \<subseteq> {..<rounds}" "g_ok (shared s)"
    "list_all (worker_ok st_ok rounds (err s)) (workers s)"
    "err s \<Longrightarrow> list_ex is_broken (workers s) \<or> (\<exists>k<rounds. \<not> good k)"
    "\<And>k. \<not> err s \<Longrightarrow> k < rounds \<Longrightarrow> accounted good done (workers s) (todo s) (shared s) k"
  shows "round_inv st_ok g_ok good done rounds s"
  using assms by (simp add: round_inv_def)

lemma nth_update_set:
  "i < length xs \<Longrightarrow> y \<in> set xs \<Longrightarrow> y \<noteq> xs ! i \<Longrightarrow> y \<in> set (xs[i := x])"
  by (metis in_set_conv_nth length_list_update nth_list_update_neq)

lemma list_all_update: "list_all P xs \<Longrightarrow> P x \<Longrightarrow> list_all P (xs[i := x])"
  using set_update_subset_insert[of xs i x] by (auto simp: list_all_iff)

lemma worker_ok_mono: "list_all (worker_ok st_ok rounds e) ws \<Longrightarrow> (e \<Longrightarrow> e') \<Longrightarrow> list_all (worker_ok st_ok rounds e') ws"
proof -
  assume a: "list_all (worker_ok st_ok rounds e) ws" and e: "e \<Longrightarrow> e'"
  have "worker_ok st_ok rounds e' w" if "worker_ok st_ok rounds e w" for w
    using that e by (cases w) auto
  with a show "list_all (worker_ok st_ok rounds e') ws" by (auto simp: list_all_iff)
qed

lemma broken_update:
  assumes "list_ex is_broken ws" and "i < length ws" "\<not> is_broken (ws ! i)"
  shows "list_ex is_broken (ws[i := w])"
proof -
  obtain v where "v \<in> set ws" "is_broken v" using assms(1) by (auto simp: list_ex_iff)
  then show ?thesis using nth_update_set[OF assms(2), of v] assms(3) by (auto simp: list_ex_iff)
qed

text \<open>Accounting survives a change of one thread that is not busy with the round.\<close>

lemma accounted_update:
  assumes "accounted good done ws td g k" and "i < length ws" and "\<And>st. ws ! i \<noteq> Busy k st"
  shows "accounted good done (ws[i := w]) td g k"
  using assms nth_update_set[OF assms(2)] unfolding accounted_def by (metis (full_types))

lemma round_inv_start:
  "g_ok g \<Longrightarrow> round_inv st_ok g_ok good done rounds (team_start n rounds g h)"
  by (rule round_invI) (auto simp: team_start_def accounted_def list_all_iff)

lemma round_inv_worker:
  assumes "round_inv st_ok g_ok good done rounds s" and "i < length (workers s)"
  shows "worker_ok st_ok rounds (err s) (workers s ! i)"
  using round_invD(4)[OF assms(1)] assms(2) by (simp add: list_all_length)

text \<open>A thread fails only before its first round.\<close>

lemma step_started:
  assumes "omp_step start body s t" and "Unstarted \<notin> set (workers s)" "\<not> list_ex is_broken (workers s)"
  shows "Unstarted \<notin> set (workers t) \<and> \<not> list_ex is_broken (workers t)"
  using assms
  by cases (auto simp: list_ex_iff dest!: set_update_subset_insert[THEN subsetD] dest: nth_mem)

lemma started_threads:
  assumes "(omp_step start body)\<^sup>*\<^sup>* s t" and "Unstarted \<notin> set (workers s)" "\<not> list_ex is_broken (workers s)"
  shows "\<not> list_ex is_broken (workers t)"
proof -
  from assms(1) have "Unstarted \<notin> set (workers t) \<and> \<not> list_ex is_broken (workers t)"
    by (induction rule: rtranclp_induct) (use assms(2,3) step_started in blast)+
  then show ?thesis by simp
qed

lemma same_team:
  assumes "(omp_step start body ^^ m) (team_start n rounds g h) s"
  shows "length (workers s) = n"
  using assms
proof (induction m arbitrary: s)
  case (Suc m)
  then obtain t where "length (workers t) = n" "omp_step start body t s" by auto
  then show ?case by (auto elim: omp_stepE)
qed (simp add: team_start_def)

locale parallel_rounds =
  fixes start :: "'st thread_start" and body :: "('st, 'g) round_body" and rounds :: nat
    and st_ok :: "'st \<Rightarrow> bool" and g_ok :: "'g \<Rightarrow> bool"
    and good :: "nat \<Rightarrow> bool" and "done" :: "nat \<Rightarrow> 'g \<Rightarrow> bool"
  assumes start_total: "\<exists>r. start h r"
    and start_state: "start h (Inr ((p, rc), h')) \<Longrightarrow> \<exists>st. p = Some st \<and> (rc = 0 \<longrightarrow> st_ok st)"
    and body_ok: "k < rounds \<Longrightarrow> st_ok st \<Longrightarrow> g_ok g \<Longrightarrow> body k st g = Some r \<Longrightarrow>
      \<exists>ok st' g'. r = Inr (ok, st', g') \<and> st_ok st' \<and> g_ok g' \<and> ok = good k \<and>
        (ok \<longrightarrow> done k g') \<and> (\<forall>j. j \<noteq> k \<longrightarrow> done j g \<longrightarrow> done j g')"
begin

abbreviation inv :: "('st, 'g) team \<Rightarrow> bool" where
  "inv \<equiv> round_inv st_ok g_ok good done rounds"

text \<open>The two steps that change the account of a round.\<close>

lemma inv_finish:
  assumes "inv s" and "i < length (workers s)" "workers s ! i = Busy k st"
    and "body k st (shared s) = Some (Inr (ok, st', g'))"
  shows "inv (s\<lparr>workers := (workers s)[i := Idle st'], shared := g', err := err s \<or> \<not> ok\<rparr>)"
proof -
  have k: "k < rounds" "st_ok st" using round_inv_worker[OF assms(1) assms(2)] assms(3) by simp_all
  from body_ok[OF k round_invD(3)[OF assms(1)] assms(4)] have r: "st_ok st'" "g_ok g'" "ok = good k"
    "ok \<Longrightarrow> done k g'" "\<And>j. j \<noteq> k \<Longrightarrow> done j (shared s) \<Longrightarrow> done j g'" by auto
  have acc: "accounted good done ((workers s)[i := Idle st']) (todo s) g' j" if "\<not> err s" "ok" "j < rounds" for j
  proof (cases "j = k")
    case False
    have "accounted good done (workers s) (todo s) g' j"
      using round_invD(6)[OF assms(1) that(1,3)] r(5)[OF False] by (auto simp: accounted_def)
    then show ?thesis by (rule accounted_update) (use assms(2,3) False in simp_all)
  qed (use that r in \<open>simp add: accounted_def\<close>)
  have "list_ex is_broken ((workers s)[i := Idle st'])" if "list_ex is_broken (workers s)"
    using that assms(2,3) by (intro broken_update) auto
  then have e: "list_ex is_broken ((workers s)[i := Idle st']) \<or> (\<exists>k<rounds. \<not> good k)" if "err s \<or> \<not> ok"
    using that round_invD(5)[OF assms(1)] k(1) r(3) by auto
  show ?thesis
    by (rule round_invI) (use round_invD[OF assms(1)] r(1,2) e acc in
        \<open>auto intro!: list_all_update intro: worker_ok_mono\<close>)
qed

lemma inv_take:
  assumes "inv s" and "i < length (workers s)" "workers s ! i = Idle st" "k \<in> set (todo s)" "\<not> err s"
  shows "inv (s\<lparr>workers := (workers s)[i := Busy k st], todo := remove1 k (todo s)\<rparr>)"
proof -
  have k: "k < rounds" "st_ok st"
    using round_invD(2)[OF assms(1)] round_inv_worker[OF assms(1) assms(2)] assms(3,4) by auto
  have acc: "accounted good done ((workers s)[i := Busy k st]) (remove1 k (todo s)) (shared s) j"
    if "j < rounds" for j
  proof (cases "j = k")
    case True
    then show ?thesis using set_update_memI[OF assms(2)] by (auto simp: accounted_def)
  next
    case False
    have "accounted good done (workers s) (remove1 k (todo s)) (shared s) j"
      using round_invD(6)[OF assms(1) assms(5) that] False by (auto simp: accounted_def)
    then show ?thesis by (rule accounted_update) (use assms(2,3) in simp_all)
  qed
  show ?thesis
    by (rule round_invI) (use round_invD[OF assms(1)] k assms(5) acc in
        \<open>auto intro!: list_all_update dest: set_remove1_subset[THEN subsetD]\<close>)
qed

lemma inv_step:
  assumes "inv s" and "omp_step start body s t"
  shows "inv t"
  using assms(2)
proof cases
  case (finish_round i k st ok st' g')
  show ?thesis unfolding finish_round(1) by (rule inv_finish[OF assms(1) finish_round(2-4)])
next
  case (take_round i st k)
  show ?thesis unfolding take_round(1) by (rule inv_take[OF assms(1) take_round(2-5)])
next
  case (init_ok i st h)
  have st: "st_ok st" using start_state[OF init_ok(4)] by simp
  have e: "list_ex is_broken ((workers s)[i := Idle st])" if "list_ex is_broken (workers s)"
    using that init_ok(2,3) by (intro broken_update) auto
  have acc: "accounted good done ((workers s)[i := Idle st]) (todo s) (shared s) j" if "\<not> err s" "j < rounds" for j
    by (rule accounted_update[OF round_invD(6)[OF assms(1) that]]) (use init_ok(2,3) in simp_all)
  show ?thesis
    unfolding init_ok(1)
    by (rule round_invI) (use round_invD[OF assms(1)] st e acc in
        \<open>auto intro!: list_all_update\<close>)
next
  case (init_fail i st rc h)
  have "list_ex is_broken ((workers s)[i := Broken st])"
    using set_update_memI[OF init_fail(2), of "Broken st"] unfolding list_ex_iff by (metis is_broken.simps(1))
  then show ?thesis
    unfolding init_fail(1)
    by (intro round_invI) (use round_invD[OF assms(1)] in
        \<open>auto intro!: list_all_update intro: worker_ok_mono\<close>)
next
  case (skip_idle i st k)
  show ?thesis
    unfolding skip_idle(1)
    by (rule round_invI) (use round_invD[OF assms(1)] skip_idle(5) in
        \<open>auto dest: set_remove1_subset[THEN subsetD]\<close>)
next
  case (skip_broken i st k)
  show ?thesis
    unfolding skip_broken(1)
    by (rule round_invI) (use round_invD[OF assms(1)] skip_broken(5) in
        \<open>auto dest: set_remove1_subset[THEN subsetD]\<close>)
next
  case (take_broken i st k)
  with round_inv_worker[OF assms(1)] show ?thesis by fastforce
next
  case (round_fault i k st f)
  have k: "k < rounds" "st_ok st" using round_inv_worker[OF assms(1) round_fault(2)] round_fault(3) by simp_all
  from body_ok[OF k round_invD(3)[OF assms(1)] round_fault(4)] show ?thesis by simp
qed

lemma inv_reachable:
  assumes "(omp_step start body)\<^sup>*\<^sup>* (team_start n rounds g h) s" and "g_ok g"
  shows "inv s"
  using assms(1)
proof (induction rule: rtranclp_induct)
  case base
  show ?case by (rule round_inv_start) (rule assms(2))
qed (rule inv_step)

text \<open>The flag at the join: down exactly when every thread started and every round succeeds.\<close>

lemma join_result:
  assumes "omp_run start body n rounds g h s" and "g_ok g"
  shows "\<not> undefined_access s" "g_ok (shared s)"
    "err s \<longleftrightarrow> list_ex is_broken (workers s) \<or> (\<exists>k<rounds. \<not> good k)"
    "\<not> err s \<Longrightarrow> k < rounds \<Longrightarrow> done k (shared s)"
proof -
  have i: "inv s" and j: "todo s = []" "list_all at_barrier (workers s)"
    using assms inv_reachable by (auto simp: omp_run_def joined_def)
  have nb: "Busy k st \<notin> set (workers s)" for k st
    using j(2) by (auto simp: list_all_iff)
  show "\<not> undefined_access s" "g_ok (shared s)" using i by (simp_all add: round_inv_def)
  show "err s \<longleftrightarrow> list_ex is_broken (workers s) \<or> (\<exists>k<rounds. \<not> good k)"
  proof
    assume "list_ex is_broken (workers s) \<or> (\<exists>k<rounds. \<not> good k)"
    then show "err s"
    proof
      assume "list_ex is_broken (workers s)"
      then obtain w where w: "w \<in> set (workers s)" "is_broken w" by (auto simp: list_ex_iff)
      have "worker_ok st_ok rounds (err s) w"
        using round_invD(4)[OF i] w(1) by (simp add: list_all_iff)
      with w(2) show ?thesis by (cases w) simp_all
    qed (use round_invD(6)[OF i] j(1) nb in \<open>auto simp: accounted_def\<close>)
  qed (rule round_invD(5)[OF i])
  show "\<not> err s \<Longrightarrow> k < rounds \<Longrightarrow> done k (shared s)"
    using round_invD(6)[OF i, of k] j(1) nb by (auto simp: accounted_def)
qed

text \<open>No run gets stuck before the join, and no run is longer than one step per thread and two per round.\<close>

lemma progress:
  assumes i: "inv s" and "\<not> joined s" and "workers s \<noteq> []"
    and ret: "\<And>k st g. k < rounds \<Longrightarrow> st_ok st \<Longrightarrow> g_ok g \<Longrightarrow> body k st g \<noteq> None"
  shows "(\<exists>t. omp_step start body s t) \<or> (\<exists>f. thread_stops start s f)"
proof (cases "list_all at_barrier (workers s)")
  case True
  with assms(2,3) obtain k where k: "k \<in> set (todo s)" and l: "0 < length (workers s)"
    by (cases "todo s") (auto simp: joined_def)
  have "at_barrier (workers s ! 0)" using True l by (simp add: list_all_length)
  then consider (idle) st where "workers s ! 0 = Idle st" | (broken) st where "workers s ! 0 = Broken st"
    by (cases "workers s ! 0") auto
  then show ?thesis
  proof cases
    case idle
    with l k show ?thesis by (cases "err s") (blast intro: omp_step.intros)+
  next
    case broken
    with l k show ?thesis by (cases "err s") (blast intro: omp_step.intros)+
  qed
next
  case False
  then obtain i where l: "i < length (workers s)" and w: "\<not> at_barrier (workers s ! i)"
    by (auto simp: list_all_length)
  show ?thesis
  proof (cases "workers s ! i")
    case Unstarted
    obtain r where r: "start (mem s) r" using start_total by blast
    show ?thesis
    proof (cases r)
      case (Inl f)
      have "Unstarted \<in> set (workers s)" using l Unstarted by (metis nth_mem)
      with r Inl show ?thesis by (auto simp: thread_stops_def)
    next
      case (Inr q)
      then obtain p rc h where q: "r = Inr ((p, rc), h)" by (cases q) auto
      from start_state[OF r[unfolded q]] obtain st where "p = Some st" by blast
      with l Unstarted r q show ?thesis by (cases "rc = 0") (blast intro: omp_step.intros)+
    qed
  next
    case (Busy k st)
    have kb: "k < rounds" "st_ok st" using round_inv_worker[OF i l] Busy by simp_all
    note g = round_invD(3)[OF i]
    from ret[OF kb g] obtain r where r: "body k st (shared s) = Some r" by blast
    from body_ok[OF kb g r] r obtain ok st' g' where "body k st (shared s) = Some (Inr (ok, st', g'))"
      by blast
    with l Busy show ?thesis by (blast intro: omp_step.intros)
  qed (use w in simp_all)
qed

lemma run_length:
  assumes "(omp_step start body ^^ m) (team_start n rounds g h) s" and "g_ok g"
  shows "m + work_left s \<le> n + 2 * rounds"
  using assms(1)
proof (induction m arbitrary: s)
  case 0
  then have "s = team_start n rounds g h" by simp
  moreover have "filter (\<lambda>w. \<not> at_barrier w) (replicate n Unstarted) = replicate n (Unstarted :: 'st worker)"
    by (simp add: filter_replicate)
  ultimately show ?case by (simp add: work_left_def team_start_def)
next
  case (Suc m)
  then obtain t where t: "(omp_step start body ^^ m) (team_start n rounds g h) t" "omp_step start body t s"
    by auto
  then have "inv s" by (meson assms(2) inv_reachable inv_step relpowp_imp_rtranclp)
  then have "work_left s < work_left t" using omp_step_work[OF t(2)] by (simp add: round_inv_def)
  with Suc.IH[OF t(1)] show ?case by simp
qed

text \<open>Once all threads have started a run can be completed; with one thread, by a run without failed threads.\<close>

lemma completes:
  assumes "inv s" and "workers s \<noteq> []" and "Unstarted \<notin> set (workers s)" "\<not> list_ex is_broken (workers s)"
    and ret: "\<And>k st g. k < rounds \<Longrightarrow> st_ok st \<Longrightarrow> g_ok g \<Longrightarrow> body k st g \<noteq> None"
  shows "\<exists>t. (omp_step start body)\<^sup>*\<^sup>* s t \<and> joined t"
  using assms(1-4)
proof (induction "work_left s" arbitrary: s rule: less_induct)
  case less
  show ?case
  proof (cases "joined s")
    case False
    have "\<not> thread_stops start s f" for f using less.prems(3) by (simp add: thread_stops_def)
    with progress[OF less.prems(1) False less.prems(2) ret] obtain t where t: "omp_step start body s t" by blast
    have i: "inv t" by (rule inv_step[OF less.prems(1) t])
    then have "work_left t < work_left s" using omp_step_work[OF t] by (simp add: round_invD(1))
    moreover have "workers t \<noteq> []" using t less.prems(2) by cases simp_all
    ultimately obtain u where "(omp_step start body)\<^sup>*\<^sup>* t u" "joined u"
      using less.hyps[OF _ i] step_started[OF t less.prems(3,4)] by blast
    with t show ?thesis by (meson converse_rtranclp_into_rtranclp)
  qed blast
qed

lemma good_run_exists:
  assumes st: "start h (Inr ((Some st, 0), h'))" and "g_ok g"
    and ret: "\<And>k st g. k < rounds \<Longrightarrow> st_ok st \<Longrightarrow> g_ok g \<Longrightarrow> body k st g \<noteq> None"
  shows "\<exists>s. omp_run start body 1 rounds g h s \<and> \<not> list_ex is_broken (workers s)"
proof -
  let ?s0 = "team_start 1 rounds g h :: ('st, 'g) team"
    and ?s1 = "(team_start 1 rounds g h)\<lparr>workers := [Idle st], mem := h'\<rparr>"
  have s1: "omp_step start body ?s0 ?s1"
    using omp_step.init_ok[where i = 0 and s = ?s0 and st = st and start = start and body = body and h = h'] st
    by (simp add: team_start_def)
  have i: "inv ?s1" by (rule inv_step[OF round_inv_start s1]) (rule assms(2))
  obtain t where t: "(omp_step start body)\<^sup>*\<^sup>* ?s1 t" "joined t"
    using completes[OF i _ _ _ ret] by fastforce
  have "\<not> list_ex is_broken (workers t)"
    by (rule started_threads[OF t(1)]) simp_all
  moreover have "omp_run start body 1 rounds g h t"
    using t s1 by (auto simp: omp_run_def intro: converse_rtranclp_into_rtranclp)
  ultimately show ?thesis by blast
qed

text \<open>The region computes the flag of the serial loop.\<close>

lemma serial_result:
  assumes "set ks \<subseteq> {..<rounds}" "st_ok st" "g_ok g" "serial_rounds body ks st g e = Some r"
  shows "\<exists>st' g'. r = Inr (e \<or> (\<exists>k\<in>set ks. \<not> good k), st', g') \<and> st_ok st' \<and> g_ok g'"
  using assms
proof (induction ks arbitrary: st g e)
  case (Cons k ks)
  show ?case
  proof (cases e)
    case False
    with Cons.prems(4) obtain q where q: "body k st g = Some q" by (auto split: option.splits)
    from body_ok[OF _ Cons.prems(2,3) q] Cons.prems(1) obtain st' g' where
      "q = Inr (good k, st', g')" "st_ok st'" "g_ok g'" by auto
    with Cons.IH[of st' g' "\<not> good k"] Cons.prems(1,4) q False show ?thesis by auto
  next
    case True
    with Cons.prems(4) have "serial_rounds body ks st g e = Some r" by simp
    from Cons.IH[OF _ Cons.prems(2,3) this] Cons.prems(1) True show ?thesis by auto
  qed
qed auto

lemma serial_returns:
  assumes "set ks \<subseteq> {..<rounds}" "st_ok st" "g_ok g"
    and ret: "\<And>k st g. k \<in> set ks \<Longrightarrow> st_ok st \<Longrightarrow> g_ok g \<Longrightarrow> body k st g \<noteq> None"
  shows "serial_rounds body ks st g e \<noteq> None"
  using assms
proof (induction ks arbitrary: st g e)
  case (Cons k ks)
  have k: "k < rounds" using Cons.prems(1) by simp
  have "k \<in> set (k # ks)" by simp
  from Cons.prems(4)[OF this Cons.prems(2,3)] obtain q where q: "body k st g = Some q" by blast
  from body_ok[OF k Cons.prems(2,3) q] obtain st' g' where "q = Inr (good k, st', g')" "st_ok st'" "g_ok g'"
    by auto
  with q Cons.IH[of st' g' "\<not> good k"] Cons.IH[OF _ Cons.prems(2,3)] Cons.prems(1,4) show ?case by simp
qed simp

text \<open>When the serial loop returns, with the flag of every run of the region in which all threads start.\<close>

lemma refines_serial:
  assumes "omp_run start body n rounds g h s" "g_ok g" "\<not> list_ex is_broken (workers s)"
    and "st_ok st" "serial_rounds body [0..<rounds] st g False = Some r"
  shows "\<exists>st' g'. r = Inr (err s, st', g')"
proof -
  have sub: "set [0..<rounds] \<subseteq> {..<rounds}" by auto
  with serial_result[OF sub assms(4,2,5)] join_result(3)[OF assms(1,2)] assms(3)
  show ?thesis by (auto simp: Bex_def)
qed

end

section \<open>The blocks of the threads\<close>

fun worker_blocks :: "('st \<Rightarrow> nat option list) \<Rightarrow> 'st worker \<Rightarrow> nat option list" where
  "worker_blocks blocks_of Unstarted = []"
| "worker_blocks blocks_of (Idle st) = blocks_of st"
| "worker_blocks blocks_of (Busy k st) = blocks_of st"
| "worker_blocks blocks_of (Broken st) = blocks_of st"

lemma mset_concat_map: "mset (concat (map b ws)) = (\<Sum>w\<in>#mset ws. mset (b w))"
  by (induction ws) simp_all

lemma blocks_update:
  assumes "i < length ws"
  obtains rest where "mset (concat (map b ws)) = mset (b (ws ! i) @ rest)"
    "\<And>w. mset (concat (map b (ws[i := w]))) = mset (b w @ rest)"
proof (rule that[of "concat (map b (take i ws)) @ concat (map b (drop (Suc i) ws))"])
  have "ws = take i ws @ ws ! i # drop (Suc i) ws" by (rule id_take_nth_drop[OF assms])
  then have "concat (map b ws) = concat (map b (take i ws)) @ b (ws ! i) @ concat (map b (drop (Suc i) ws))"
    by (metis concat.simps(2) concat_append list.simps(9) map_append)
  then show "mset (concat (map b ws)) = mset (b (ws ! i) @ concat (map b (take i ws)) @ concat (map b (drop (Suc i) ws)))"
    by simp
  show "mset (concat (map b (ws[i := w]))) = mset (b w @ concat (map b (take i ws)) @ concat (map b (drop (Suc i) ws)))" for w
    by (simp add: upd_conv_take_nth_drop[OF assms])
qed

text \<open>
  What a region relies on: the start of a thread adds the blocks of its state to
  the heap or stops for lack of memory, a round keeps the pointers of its state,
  the release frees the blocks.
\<close>

locale region_memory =
  fixes start :: "'st thread_start" and body :: "('st, 'g) round_body"
    and blocks_of :: "'st \<Rightarrow> nat option list" and cleanup :: "'st \<Rightarrow> (heap, 'st option) prog"
  assumes start_owns: "owns h base ps \<Longrightarrow> start h (Inr ((Some st, rc), h')) \<Longrightarrow>
      owns h' base (blocks_of st @ ps) \<and> may_alloc h' = may_alloc h"
    and start_stops: "owns h base ps \<Longrightarrow> start h (Inl f) \<Longrightarrow> f = NoMemory \<and> (\<exists>k. \<not> may_alloc h k)"
    and body_keeps: "body k st g = Some (Inr (ok, st', g')) \<Longrightarrow> blocks_of st' = blocks_of st"
    and cleanup_frees: "owns h base (blocks_of st @ ps) \<Longrightarrow>
      \<exists>r h'. cleanup st h = Inr (r, h') \<and> owns h' base ps \<and> may_alloc h' = may_alloc h"
begin

abbreviation team_blocks :: "'st worker list \<Rightarrow> nat option list" where
  "team_blocks ws \<equiv> concat (map (worker_blocks blocks_of) ws)"

definition memory :: "nat set \<Rightarrow> nat option list \<Rightarrow> (nat \<Rightarrow> bool) \<Rightarrow> ('st, 'g) team \<Rightarrow> bool" where
  "memory base ps M s \<longleftrightarrow> owns (mem s) base (team_blocks (workers s) @ ps) \<and> may_alloc (mem s) = M"

lemma memory_update:
  assumes "memory base ps M s" and i: "i < length (workers s)"
    and step: "\<And>rest. owns (mem s) base (worker_blocks blocks_of (workers s ! i) @ rest) \<Longrightarrow>
      owns h base (worker_blocks blocks_of w @ rest) \<and> may_alloc h = may_alloc (mem s)"
  shows "owns h base (team_blocks ((workers s)[i := w]) @ ps) \<and> may_alloc h = M"
proof -
  obtain rest where r: "mset (team_blocks (workers s)) = mset (worker_blocks blocks_of (workers s ! i) @ rest)"
    "\<And>w. mset (team_blocks ((workers s)[i := w])) = mset (worker_blocks blocks_of w @ rest)"
    using blocks_update[OF i, of "worker_blocks blocks_of"] by metis
  have "owns (mem s) base (worker_blocks blocks_of (workers s ! i) @ rest @ ps)"
    by (rule owns_perm[where ps = "team_blocks (workers s) @ ps"]) (use assms(1) r(1) in \<open>simp_all add: memory_def\<close>)
  from step[OF this] have s: "owns h base (worker_blocks blocks_of w @ rest @ ps)" "may_alloc h = may_alloc (mem s)"
    by simp_all
  have "owns h base (team_blocks ((workers s)[i := w]) @ ps)"
    by (rule owns_perm[OF _ s(1)]) (use r(2)[of w] in simp)
  with s(2) assms(1) show ?thesis by (simp add: memory_def)
qed

lemma memory_step:
  assumes m: "memory base ps M s" and "omp_step start body s t"
  shows "memory base ps M t"
  using assms(2)
proof cases
  case (init_ok i st h)
  from memory_update[OF m init_ok(2), of h "Idle st"] start_owns[OF _ init_ok(4)] init_ok(3)
  show ?thesis by (simp add: memory_def init_ok(1))
next
  case (init_fail i st rc h)
  from memory_update[OF m init_fail(2), of h "Broken st"] start_owns[OF _ init_fail(4)] init_fail(3)
  show ?thesis by (simp add: memory_def init_fail(1))
next
  case (take_round i st k)
  from memory_update[OF m take_round(2), of "mem s" "Busy k st"] take_round(3)
  show ?thesis by (simp add: memory_def take_round(1))
next
  case (finish_round i k st ok st' g')
  from memory_update[OF m finish_round(2), of "mem s" "Idle st'"] finish_round(3) body_keeps[OF finish_round(4)]
  show ?thesis by (simp add: memory_def finish_round(1))
qed (use m in \<open>simp_all add: memory_def\<close>)

lemma memory_reachable:
  assumes "(omp_step start body)\<^sup>*\<^sup>* (team_start n rounds g h) s" and "owns h base ps"
  shows "memory base ps (may_alloc h) s"
  using assms(1)
proof (induction rule: rtranclp_induct)
  case base
  have "team_blocks (replicate n Unstarted) = []" by (induction n) simp_all
  with assms(2) show ?case by (simp only: memory_def team_start_def team.select_convs append.simps)
qed (rule memory_step)

lemma stops_reachable:
  assumes "(omp_step start body)\<^sup>*\<^sup>* (team_start n rounds g h) s" and "owns h base ps" "thread_stops start s f"
  shows "f = NoMemory \<and> (\<exists>k. \<not> may_alloc h k)"
proof -
  have m: "owns (mem s) base (team_blocks (workers s) @ ps)" "may_alloc (mem s) = may_alloc h"
    using memory_reachable[OF assms(1,2)] by (simp_all add: memory_def)
  have "start (mem s) (Inl f)" using assms(3) by (simp add: thread_stops_def)
  from start_stops[OF m(1) this] m(2) show ?thesis by simp
qed

text \<open>The threads release what they have allocated, in any order.\<close>

lemma leave_all_frees:
  assumes "owns h base (team_blocks ws @ ps)" and "list_all at_barrier ws"
  shows "\<exists>h'. leave_all cleanup ws h = Inr ((), h') \<and> owns h' base ps \<and> may_alloc h' = may_alloc h"
  using assms
proof (induction ws arbitrary: h)
  case (Cons w ws)
  then obtain st where w: "w = Idle st \<or> w = Broken st" by (cases w) auto
  have "owns h base (blocks_of st @ team_blocks ws @ ps)" using Cons.prems(1) w by auto
  from cleanup_frees[OF this] obtain r h1 where c: "cleanup st h = Inr (r, h1)" "owns h1 base (team_blocks ws @ ps)"
    "may_alloc h1 = may_alloc h" by blast
  with Cons.IH[OF c(2)] Cons.prems(2) w show ?case by auto
qed simp

lemma region_releases:
  assumes "omp_run start body n rounds g h s" and "owns h base ps" and "mset ws = mset (workers s)"
  shows "\<exists>h'. leave_all cleanup ws (mem s) = Inr ((), h') \<and> owns h' base ps \<and> may_alloc h' = may_alloc h"
proof -
  have m: "memory base ps (may_alloc h) s"
    using memory_reachable[OF conjunct1[OF assms(1)[unfolded omp_run_def]] assms(2)] .
  have "mset (team_blocks ws) = mset (team_blocks (workers s))"
    by (simp only: mset_concat_map assms(3))
  then have "owns (mem s) base (team_blocks ws @ ps)"
    using m owns_perm[of "team_blocks (workers s) @ ps" "team_blocks ws @ ps"] by (simp add: memory_def)
  moreover have "list_all at_barrier ws"
    using assms(1) mset_eq_setD[OF assms(3)] by (simp add: omp_run_def joined_def list_all_iff)
  ultimately show ?thesis using leave_all_frees[of "mem s" base ws ps] m unfolding memory_def by simp
qed

end

end
