(* ===== verification/ZK_IO.thy ===== *)
theory ZK_IO
  imports MPC_HM HM_Heap
begin

text \<open>
  src/hm_zk_io.c: the published commitment and the records of the proof file.
  A record is the memory image of a ZkBooCommit followed by keys, commitment
  randomness and the two opened views; record k starts at k times its size.
  The file is the list of its bytes and the operating system is a parameter:
  the number of bytes that a pwrite or pread at an offset transfers, negative
  for an error.
\<close>

section \<open>Sizes\<close>

definition sizeof_View :: nat where
  "sizeof_View = 4 * L_WORDS + 4 * MSG_WORDS + 4 * ySize"

definition sizeof_ZkBooCommit :: nat where
  "sizeof_ZkBooCommit = 2 * (4 * SHA256_DIGEST_WORDS) + MSG_WORDS * 3 * 4 + 3 * 32"

definition sizeof_ZkBooOpenDisk :: nat where
  "sizeof_ZkBooOpenDisk = 16 + 16 + 4 + 4 + sizeof_View + sizeof_View"

definition proofSize :: nat where
  "proofSize = sizeof_ZkBooCommit + sizeof_ZkBooOpenDisk"

lemma size_values:
  "sizeof_View = 8872" "sizeof_ZkBooCommit = 172" "sizeof_ZkBooOpenDisk = 17784" "proofSize = 17956"
  by (simp_all add: sizeof_View_def sizeof_ZkBooCommit_def sizeof_ZkBooOpenDisk_def proofSize_def
      param_values)

section \<open>Structs from their memory images\<close>

definition view_of_bytes :: "byte list \<Rightarrow> View" where
  "view_of_bytes bs = \<lparr>view_x = \<lparr>words = le_words (take (4 * L_WORDS) bs)\<rparr>,
     view_msg = take (4 * MSG_WORDS) (drop (4 * L_WORDS) bs),
     view_y = le_words (take (4 * ySize) (drop (4 * L_WORDS + 4 * MSG_WORDS) bs))\<rparr>"

fun triples :: "'a list \<Rightarrow> 'a arr3 list" where
  "triples (a # b # c # xs) = Arr3 a b c # triples xs"
| "triples _ = []"

definition commit_of_bytes :: "byte list \<Rightarrow> ZkBooCommit" where
  "commit_of_bytes bs =
    (let d = 4 * SHA256_DIGEST_WORDS; m = MSG_WORDS * 3 * 4 in
     \<lparr>a_yp = Arr2 (le_words (take d bs)) (le_words (take d (drop d bs))),
      a_y2p = triples (le_words (take m (drop (2 * d) bs))),
      a_h = Arr3 (take 32 (drop (2 * d + m) bs)) (take 32 (drop (2 * d + m + 32) bs))
                 (take 32 (drop (2 * d + m + 64) bs))\<rparr>)"

text \<open>Every member of a commitment record has its declared length.\<close>

definition wf_record :: "ZkBooCommit \<Rightarrow> bool" where
  "wf_record a \<longleftrightarrow> wf_commit a \<and> (\<forall>e<3. length (sel3 (a_h a) e) = 32)"

lemma length_view_bytes: "wf_view v \<Longrightarrow> length (view_bytes v) = sizeof_View"
  by (simp add: wf_view_def wf_rvec_def view_bytes_def rvec_bytes_def sizeof_View_def)

lemma view_of_bytes_inverse: "wf_view v \<Longrightarrow> view_of_bytes (view_bytes v) = v"
  by (cases v; cases "view_x v")
     (simp add: wf_view_def wf_rvec_def view_bytes_def view_of_bytes_def rvec_bytes_def)

lemma wf_view_of_bytes: "length bs = sizeof_View \<Longrightarrow> wf_view (view_of_bytes bs)"
  by (simp add: wf_view_def wf_rvec_def view_of_bytes_def sizeof_View_def param_values)

lemma wf_recordD:
  assumes "wf_record a"
  shows "length (fst2 (a_yp a)) = 8" "length (snd2 (a_yp a)) = 8" "length (a_y2p a) = 1"
    "length (at0 (a_h a)) = 32" "length (at1 (a_h a)) = 32" "length (at2 (a_h a)) = 32"
  using assms unfolding wf_record_def wf_commit_def
  by (auto simp: sel3_def param_values dest: spec[of _ 0] spec[of _ 1] spec[of _ 2])

lemma y2p_single:
  assumes "wf_record a" shows "a_y2p a = [a_y2p a ! 0]"
  using wf_recordD(3)[OF assms] by (cases "a_y2p a") auto

lemma concat_y2p:
  assumes "wf_record a" shows "concat (map arr3_words (a_y2p a)) = arr3_words (a_y2p a ! 0)"
  by (subst y2p_single[OF assms]) simp

lemma length_commit_bytes: "wf_record a \<Longrightarrow> length (commit_bytes a) = sizeof_ZkBooCommit"
  using wf_recordD[of a] by (simp add: commit_bytes_def concat_y2p arr3_words_def size_values)

lemma commit_of_bytes_inverse:
  assumes "wf_record a" shows "commit_of_bytes (commit_bytes a) = a"
proof -
  have "triples (le_words (le_bytes (arr3_words t))) = [t]" for t
    by (cases t) (simp add: arr3_words_def)
  moreover have "length (le_bytes (arr3_words t)) = 12" for t
    by (simp add: arr3_words_def)
  ultimately show ?thesis
    using wf_recordD[OF assms] y2p_single[OF assms]
    by (intro ZkBooCommit.equality)
       (simp_all add: commit_of_bytes_def commit_bytes_def Let_def param_values concat_y2p[OF assms])
qed

lemma wf_commit_of_bytes:
  assumes "length bs = sizeof_ZkBooCommit" shows "wf_record (commit_of_bytes bs)"
proof -
  have "length (triples ws) = length ws div 3" for ws :: "u32 list"
    by (induction ws rule: triples.induct) simp_all
  then show ?thesis
    using assms by (auto simp: wf_record_def wf_commit_def commit_of_bytes_def Let_def param_values
        size_values sel3_def)
qed

section \<open>The published commitment\<close>

definition commitment_size :: nat where
  "commitment_size = 16 + MSG_BYTES + SHA256_DIGEST_LENGTH"

text \<open>Copying bs into a block of memory at an index.\<close>

definition put :: "byte list \<Rightarrow> nat \<Rightarrow> byte list \<Rightarrow> fault + byte list" where
  "put buf i bs = (if i + length bs \<le> length buf
     then Inr (take i buf @ bs @ drop (i + length bs) buf) else Inl OutOfBounds)"

text \<open>The result carries the members that the code assigns, keyA, b and y; None is -1.\<close>

definition hm_zk_read_commitment :: "byte list \<Rightarrow> nat \<Rightarrow> UniversalHash \<Rightarrow> (UniversalHash \<times> byte list) option" where
  "hm_zk_read_commitment commitment commitment_len h =
    (if commitment_len \<noteq> 16 + MSG_BYTES + SHA256_DIGEST_LENGTH then None
     else Some (h\<lparr>keyA := take 16 commitment, uh_b := take MSG_BYTES (drop 16 commitment)\<rparr>,
                take SHA256_DIGEST_LENGTH (drop (16 + MSG_BYTES) commitment)))"

text \<open>junk is what the allocated block holds before it is filled.\<close>

definition hm_zk_write_commitment :: "digest_fn \<Rightarrow> byte list \<Rightarrow> hm_buffer_t option \<Rightarrow> byte list option \<Rightarrow>
    UniversalHash option \<Rightarrow> RVec option \<Rightarrow> (heap, hm_buffer_t option \<times> int) prog" where
  "hm_zk_write_commitment md junk out keyH h r =
    (case (keyH, h, out, r) of
       (Some key, Some h, Some b, Some r) \<Rightarrow>
         let len = 16 + MSG_BYTES + SHA256_DIGEST_LENGTH; b = b\<lparr>buf_len := len\<rparr> in
         bnd malloc (\<lambda>p. case p of None \<Rightarrow> ret (Some (b\<lparr>buf_data := None\<rparr>), -1)
           | Some q \<Rightarrow> (\<lambda>s. case sbind (put junk 0 (take 16 key)) (\<lambda>d.
                sbind (put d 16 (take MSG_BYTES (uh_b h))) (\<lambda>d.
                put d (16 + MSG_BYTES) (md (take L_BYTES (rvec_bytes r))))) of
                Inl f \<Rightarrow> Inl f
              | Inr d \<Rightarrow> Inr ((Some (b\<lparr>buf_data := Some q, buf_bytes := d\<rparr>), 0), s)))
     | _ \<Rightarrow> ret (out, -1))"

definition hm_zk_commitment_digest :: "hm_buffer_t \<Rightarrow> byte list" where
  "hm_zk_commitment_digest c = drop (16 + MSG_BYTES) (buf_bytes c)"

section \<open>Records of the proof file\<close>

text \<open>Reads and writes at an offset; os says how many bytes of a request are transferred.\<close>

type_synonym os = "nat \<Rightarrow> nat \<Rightarrow> int"

definition write_at :: "byte list \<Rightarrow> nat \<Rightarrow> byte list \<Rightarrow> byte list" where
  "write_at file off bs = (if bs = [] then file
     else take off (file @ replicate (off - length file) 0) @ bs @ drop (off + length bs) file)"

definition pwrite :: "os \<Rightarrow> byte list \<Rightarrow> byte list \<Rightarrow> nat \<Rightarrow> nat \<Rightarrow> byte list \<times> int" where
  "pwrite os file buf n off = (let t = os off n in
     if t < 0 then (file, -1)
     else let w = min (nat t) n in (write_at file off (take w buf), int w))"

definition pread :: "os \<Rightarrow> byte list \<Rightarrow> nat \<Rightarrow> nat \<Rightarrow> byte list \<times> int" where
  "pread os file n off = (let t = os off n in
     if t < 0 then ([], -1)
     else let bs = take (min (nat t) n) (drop off file) in (bs, int (length bs)))"

text \<open>memcpy of the pieces one after the other; the index behind the last one.\<close>

primrec put_all :: "byte list \<Rightarrow> nat \<Rightarrow> byte list list \<Rightarrow> fault + byte list \<times> nat" where
  "put_all buf i [] = Inr (buf, i)"
| "put_all buf i (b # bs) = sbind (put buf i b) (\<lambda>buf. put_all buf (i + length b) bs)"

text \<open>The result is the return code, the file and the buffer.\<close>

definition hm_zk_write_proof_round :: "os \<Rightarrow> byte list \<Rightarrow> byte list \<Rightarrow> nat \<Rightarrow> nat \<Rightarrow> ZkBooCommit \<Rightarrow>
    ZkBooOpen \<Rightarrow> fault + int \<times> byte list \<times> byte list" where
  "hm_zk_write_proof_round os file buf buffSize k a z =
    (if buffSize < proofSize then Inr (-1, file, buf) else
     case (z_ve z, z_ve1 z) of
       (Some ve, Some ve1) \<Rightarrow>
         sbind (put_all buf 0 [commit_bytes a, z_ke z, z_ke1 z, z_re z, z_re1 z, view_bytes ve,
             view_bytes ve1]) (\<lambda>(buf, bufIdx).
         let off = k * proofSize; (file, nWrite) = pwrite os file buf proofSize off in
         Inr (if nWrite = int bufIdx then 0 else -1, file, buf))
     | _ \<Rightarrow> Inl OutOfBounds)"

text \<open>The pointers ve and ve1 of z must be set; the views they point to are overwritten.\<close>

definition hm_zk_read_proof_round :: "os \<Rightarrow> byte list \<Rightarrow> byte list \<Rightarrow> nat \<Rightarrow> nat \<Rightarrow> ZkBooCommit \<Rightarrow>
    ZkBooOpen \<Rightarrow> fault + int \<times> ZkBooCommit \<times> ZkBooOpen \<times> byte list" where
  "hm_zk_read_proof_round os file buf bufSize k a z =
    (if bufSize < proofSize then Inr (-1, a, z, buf) else
     let off = k * proofSize; (bs, nRead) = pread os file proofSize off in
     sbind (put buf 0 bs) (\<lambda>buf.
     if nRead \<noteq> int proofSize then Inr (-1, a, z, buf) else
     let a = commit_of_bytes (take sizeof_ZkBooCommit buf); bufIdx = sizeof_ZkBooCommit;
         z = z\<lparr>z_ke := take 16 (drop bufIdx buf)\<rparr>; bufIdx = bufIdx + 16;
         z = z\<lparr>z_ke1 := take 16 (drop bufIdx buf)\<rparr>; bufIdx = bufIdx + 16;
         z = z\<lparr>z_re := take 4 (drop bufIdx buf)\<rparr>; bufIdx = bufIdx + 4;
         z = z\<lparr>z_re1 := take 4 (drop bufIdx buf)\<rparr>; bufIdx = bufIdx + 4
     in if z_ve z = None \<or> z_ve1 z = None then Inr (-1, a, z, buf) else
     let z = z\<lparr>z_ve := Some (view_of_bytes (take sizeof_View (drop bufIdx buf)))\<rparr>;
         bufIdx = bufIdx + sizeof_View;
         z = z\<lparr>z_ve1 := Some (view_of_bytes (take sizeof_View (drop bufIdx buf)))\<rparr>
     in Inr (0, a, z, buf)))"

section \<open>What a record holds\<close>

text \<open>The bytes of a record, and the record that proofSize bytes stand for.\<close>

definition record_bytes :: "ZkBooCommit \<Rightarrow> ZkBooOpen \<Rightarrow> byte list" where
  "record_bytes a z = commit_bytes a @ z_ke z @ z_ke1 z @ z_re z @ z_re1 z
     @ view_bytes (the (z_ve z)) @ view_bytes (the (z_ve1 z))"

definition open_of_bytes :: "byte list \<Rightarrow> ZkBooOpen" where
  "open_of_bytes bs = \<lparr>z_ke = take 16 bs, z_ke1 = take 16 (drop 16 bs),
     z_ve = Some (view_of_bytes (take sizeof_View (drop 40 bs))),
     z_ve1 = Some (view_of_bytes (take sizeof_View (drop (40 + sizeof_View) bs))),
     z_re = take 4 (drop 32 bs), z_re1 = take 4 (drop 36 bs)\<rparr>"

lemma length_record_bytes:
  "wf_record a \<Longrightarrow> wf_open z \<Longrightarrow> length (record_bytes a z) = proofSize"
  by (auto simp: record_bytes_def wf_open_def length_commit_bytes length_view_bytes size_values)

lemma open_of_bytes_inverse:
  assumes "wf_open z"
  shows "open_of_bytes (z_ke z @ z_ke1 z @ z_re z @ z_re1 z @ view_bytes (the (z_ve z))
     @ view_bytes (the (z_ve1 z))) = z"
  using assms by (cases z) (auto simp: wf_open_def open_of_bytes_def view_of_bytes_inverse length_view_bytes)

lemma wf_open_of_bytes: "length bs = sizeof_ZkBooOpenDisk \<Longrightarrow> wf_open (open_of_bytes bs)"
  by (simp add: wf_open_def open_of_bytes_def wf_view_of_bytes size_values)

lemma record_of_bytes_inverse:
  assumes "wf_record a" "wf_open z"
  shows "commit_of_bytes (take sizeof_ZkBooCommit (record_bytes a z)) = a"
    "open_of_bytes (drop sizeof_ZkBooCommit (record_bytes a z)) = z"
  using assms by (simp_all add: record_bytes_def length_commit_bytes commit_of_bytes_inverse
      open_of_bytes_inverse)

text \<open>Packing the pieces into a buffer that holds them all.\<close>

lemma put_all_eq:
  "length (concat bs) \<le> length buf - i \<Longrightarrow> i \<le> length buf \<Longrightarrow>
   put_all buf i bs = Inr (take i buf @ concat bs @ drop (i + length (concat bs)) buf,
     i + length (concat bs))"
proof (induction bs arbitrary: buf i)
  case (Cons b bs)
  have "i + length b \<le> length buf" using Cons.prems by simp
  with Cons show ?case by (simp add: put_def ac_simps)
qed simp

lemma write_proof_round_eq:
  assumes "wf_record a" "wf_open z" "length buf = buffSize" "proofSize \<le> buffSize"
  shows "hm_zk_write_proof_round os file buf buffSize k a z =
    (let t = os (k * proofSize) proofSize in
     Inr (if int proofSize \<le> t then 0 else -1,
          if t < 0 then file
          else write_at file (k * proofSize) (take (nat t) (record_bytes a z)),
          record_bytes a z @ drop proofSize buf))"
proof -
  obtain ve ve1 where v: "z_ve z = Some ve" "z_ve1 z = Some ve1"
    using assms(2) by (auto simp: wf_open_def)
  have b: "concat [commit_bytes a, z_ke z, z_ke1 z, z_re z, z_re1 z, view_bytes ve, view_bytes ve1]
      = record_bytes a z" by (simp add: record_bytes_def v)
  have p: "put_all buf 0 [commit_bytes a, z_ke z, z_ke1 z, z_re z, z_re1 z, view_bytes ve,
      view_bytes ve1] = Inr (record_bytes a z @ drop proofSize buf, proofSize)"
    using put_all_eq[of "[commit_bytes a, z_ke z, z_ke1 z, z_re z, z_re1 z, view_bytes ve,
      view_bytes ve1]" buf 0] assms(3,4) length_record_bytes[OF assms(1,2)] unfolding b by simp
  show ?thesis
    using assms(4) length_record_bytes[OF assms(1,2)]
    by (simp add: hm_zk_write_proof_round_def v p pwrite_def Let_def min_def del: put_all.simps)
       (auto simp: size_values)
qed

lemma read_proof_round_eq:
  assumes "length buf = bufSize" "proofSize \<le> bufSize" "z_ve z \<noteq> None" "z_ve1 z \<noteq> None"
  shows "\<exists>a' z' buf'. hm_zk_read_proof_round os file buf bufSize k a z =
    (let t = os (k * proofSize) proofSize; bs = take proofSize (drop (k * proofSize) file) in
     Inr (if int proofSize \<le> t \<and> length bs = proofSize
       then (0, commit_of_bytes (take sizeof_ZkBooCommit bs), open_of_bytes (drop sizeof_ZkBooCommit bs),
             buf')
       else (-1, a', z', buf'))) \<and> z_ve z' \<noteq> None \<and> z_ve1 z' \<noteq> None \<and> length buf' = bufSize"
proof (cases "int proofSize \<le> os (k * proofSize) proofSize")
  case True
  define bs where "bs = take proofSize (drop (k * proofSize) file)"
  have t: "pread os file proofSize (k * proofSize) = (bs, int (length bs))"
  proof -
    have "min (nat (os (k * proofSize) proofSize)) proofSize = proofSize" using True by simp
    then show ?thesis using True by (simp add: pread_def Let_def bs_def)
  qed
  have l: "length bs \<le> proofSize" by (simp add: bs_def)
  then have p: "put buf 0 bs = Inr (bs @ drop (length bs) buf)"
    using assms(1,2) by (simp add: put_def)
  have run: "hm_zk_read_proof_round os file buf bufSize k a z = (if length bs = proofSize
      then Inr (0, commit_of_bytes (take sizeof_ZkBooCommit bs), open_of_bytes (drop sizeof_ZkBooCommit bs),
             bs @ drop (length bs) buf)
      else Inr (-1, a, z, bs @ drop (length bs) buf))"
    using assms(2-4) unfolding hm_zk_read_proof_round_def Let_def t prod.case p sbind_Inr
    by (auto simp: open_of_bytes_def size_values)
  have "length (bs @ drop (length bs) buf) = bufSize" using assms(1,2) l by simp
  then show ?thesis
    unfolding run Let_def bs_def[symmetric] using True assms(3,4) by auto
next
  case False
  define r where "r = pread os file proofSize (k * proofSize)"
  have l: "length (fst r) \<le> proofSize" and n: "snd r \<noteq> int proofSize"
    using False by (auto simp: r_def pread_def Let_def)
  then have p: "put buf 0 (fst r) = Inr (fst r @ drop (length (fst r)) buf)"
    using assms(1,2) by (simp add: put_def)
  have "hm_zk_read_proof_round os file buf bufSize k a z = Inr (-1, a, z, fst r @ drop (length (fst r)) buf)"
    using assms(2) n p by (simp add: hm_zk_read_proof_round_def r_def[symmetric] Let_def case_prod_beta)
  then show ?thesis using False assms l by auto
qed

section \<open>Records side by side\<close>

text \<open>The complete record k of the file, if there is one.\<close>

definition file_record :: "byte list \<Rightarrow> nat \<Rightarrow> byte list option" where
  "file_record file k = (let bs = take proofSize (drop (k * proofSize) file) in
     if length bs = proofSize then Some bs else None)"

lemma take_drop_eqI:
  assumes "i + n \<le> length xs" "i + n \<le> length ys" "\<And>j. i \<le> j \<Longrightarrow> j < i + n \<Longrightarrow> xs ! j = ys ! j"
  shows "take n (drop i xs) = take n (drop i ys)"
  by (rule nth_equalityI) (use assms in auto)

lemma length_write_at: "bs \<noteq> [] \<Longrightarrow> length (write_at file off bs) = max (length file) (off + length bs)"
  by (auto simp: write_at_def)

lemma length_write_at_le: "length file \<le> n \<Longrightarrow> off + length bs \<le> n \<Longrightarrow> length (write_at file off bs) \<le> n"
  by (cases "bs = []") (simp_all add: write_at_def)

lemma write_at_nth:
  assumes "j < length (write_at file off bs)" and "j < length file"
  shows "write_at file off bs ! j = (if off \<le> j \<and> j < off + length bs then bs ! (j - off) else file ! j)"
  using assms by (auto simp: write_at_def nth_append split: if_splits)

lemma file_record_write_same:
  assumes "length bs = proofSize"
  shows "file_record (write_at file (k * proofSize) bs) k = Some bs"
  using assms by (auto simp: file_record_def write_at_def size_values Let_def)

lemma file_record_write_other:
  assumes "file_record file j = Some bs" "j \<noteq> k" "length b \<le> proofSize"
  shows "file_record (write_at file (k * proofSize) b) j = Some bs"
proof (cases "b = []")
  case False
  let ?f = "write_at file (k * proofSize) b"
  have j: "j * proofSize + proofSize \<le> length file"
    using assms(1) by (auto simp: file_record_def Let_def size_values split: if_splits)
  have j': "j * proofSize + proofSize \<le> length ?f" using j False by (simp add: length_write_at)
  have apart: "j * proofSize + proofSize \<le> k * proofSize \<or> k * proofSize + proofSize \<le> j * proofSize"
    using assms(2) mult_le_mono1[of "Suc j" k proofSize] mult_le_mono1[of "Suc k" j proofSize]
    by (cases "j < k") auto
  have "take proofSize (drop (j * proofSize) ?f) = take proofSize (drop (j * proofSize) file)"
  proof (rule take_drop_eqI[OF j' j])
    fix i assume i: "j * proofSize \<le> i" "i < j * proofSize + proofSize"
    then have "\<not> (k * proofSize \<le> i \<and> i < k * proofSize + length b)" using apart assms(3) by linarith
    then show "?f ! i = file ! i" using i j j' by (subst write_at_nth) auto
  qed
  then show ?thesis using assms(1) by (simp add: file_record_def)
qed (use assms in \<open>simp add: write_at_def\<close>)

text \<open>Writing and reading a record, in terms of file\_record.\<close>

lemma write_round_ok:
  assumes "hm_zk_write_proof_round os file buf n k a z = Inr (0, file', buf')"
    and "wf_record a" "wf_open z" "length buf = n"
  shows "file' = write_at file (k * proofSize) (record_bytes a z)"
proof -
  have n: "proofSize \<le> n"
    using assms(1) by (auto simp: hm_zk_write_proof_round_def split: if_splits)
  have "int proofSize \<le> os (k * proofSize) proofSize"
    "file' = write_at file (k * proofSize) (take (nat (os (k * proofSize) proofSize)) (record_bytes a z))"
    using assms(1) unfolding write_proof_round_eq[OF assms(2-4) n] by (auto simp: Let_def split: if_splits)
  then show ?thesis using length_record_bytes[OF assms(2,3)] by simp
qed

lemma write_round_other:
  assumes "hm_zk_write_proof_round os file buf n j a z = Inr (rc, file', buf')"
    and "wf_record a" "wf_open z" "length buf = n" "file_record file k = Some bs" "j \<noteq> k"
  shows "file_record file' k = Some bs"
proof (cases "proofSize \<le> n")
  case True
  then have "file' = file \<or>
      file' = write_at file (j * proofSize) (take (nat (os (j * proofSize) proofSize)) (record_bytes a z))"
    using assms(1) unfolding write_proof_round_eq[OF assms(2-4) True] by (auto simp: Let_def)
  then show ?thesis
    using assms(5,6) length_record_bytes[OF assms(2,3)] file_record_write_other[OF assms(5)] by auto
qed (use assms(1,5) in \<open>auto simp: hm_zk_write_proof_round_def split: if_splits\<close>)

lemma read_round_record:
  assumes "length buf = n" "proofSize \<le> n" "z_ve z \<noteq> None" "z_ve1 z \<noteq> None"
    and "int proofSize \<le> os (k * proofSize) proofSize" "file_record file k = Some bs"
  obtains buf' where "hm_zk_read_proof_round os file buf n k a z = Inr (0,
      commit_of_bytes (take sizeof_ZkBooCommit bs), open_of_bytes (drop sizeof_ZkBooCommit bs), buf')"
    "length buf' = n"
proof -
  have "bs = take proofSize (drop (k * proofSize) file)" "length bs = proofSize"
    using assms(6) by (auto simp: file_record_def Let_def split: if_splits)
  with that assms(5) read_proof_round_eq[where os = os and ?file = "file" and k = k and a = a, OF assms(1-4)] show ?thesis
    by (auto simp: Let_def)
qed

text \<open>A read that returns 0 read the whole record of the file.\<close>

lemma read_round_zero:
  assumes "hm_zk_read_proof_round os file buf n k a z = Inr (rc, a', z', buf')"
    and "length buf = n" "proofSize \<le> n" "z_ve z \<noteq> None" "z_ve1 z \<noteq> None"
  shows "length buf' = n" "z_ve z' \<noteq> None" "z_ve1 z' \<noteq> None"
    "rc = 0 \<longleftrightarrow> int proofSize \<le> os (k * proofSize) proofSize \<and> file_record file k \<noteq> None"
    "rc = 0 \<Longrightarrow> file_record file k = Some bs \<Longrightarrow> a' = commit_of_bytes (take sizeof_ZkBooCommit bs)
       \<and> z' = open_of_bytes (drop sizeof_ZkBooCommit bs)"
    "rc = 0 \<or> rc = -1"
  using assms(1) read_proof_round_eq[where os = os and ?file = "file" and k = k and a = a, OF assms(2-5)]
  by (auto simp: Let_def file_record_def open_of_bytes_def split: if_splits)

lemma file_record_wf:
  assumes "file_record file k = Some bs"
  shows "wf_record (commit_of_bytes (take sizeof_ZkBooCommit bs))"
    "wf_open (open_of_bytes (drop sizeof_ZkBooCommit bs))"
proof -
  have "length bs = proofSize" using assms by (auto simp: file_record_def Let_def split: if_splits)
  then show "wf_record (commit_of_bytes (take sizeof_ZkBooCommit bs))"
    "wf_open (open_of_bytes (drop sizeof_ZkBooCommit bs))"
    by (auto intro!: wf_commit_of_bytes wf_open_of_bytes simp: size_values)
qed

text \<open>Publishing and reading a commitment.\<close>

lemma write_commitment_run:
  assumes "owns h base ps" "length junk = commitment_size" "length key = 16" "MSG_BYTES \<le> length (uh_b u)"
    and "length (md (take L_BYTES (rvec_bytes r))) = SHA256_DIGEST_LENGTH"
  obtains b' h' rc where
    "hm_zk_write_commitment md junk (Some b) (Some key) (Some u) (Some r) h = Inr ((Some b', rc), h')"
    "owns h' base (buf_data b' # ps)" "may_alloc h' = may_alloc h" "rc = 0 \<or> rc = -1"
    "rc = 0 \<Longrightarrow> buf_data b' \<noteq> None \<and> buf_len b' = commitment_size \<and>
       buf_bytes b' = key @ take MSG_BYTES (uh_b u) @ md (take L_BYTES (rvec_bytes r))"
    "rc \<noteq> 0 \<Longrightarrow> buf_data b' = None"
proof -
  from assms(1) obtain p h1 where m: "malloc h = Inr (p, h1)" "owns h1 base (p # ps)"
    "may_alloc h1 = may_alloc h" by (auto elim: owns_malloc)
  let ?len = "16 + MSG_BYTES + SHA256_DIGEST_LENGTH"
  show ?thesis
  proof (cases p)
    case None
    with m show ?thesis
      by (intro that[of "b\<lparr>buf_len := ?len, buf_data := None\<rparr>" "-1" h1])
         (simp_all add: hm_zk_write_commitment_def Let_def)
  next
    case (Some q)
    let ?d = "key @ take MSG_BYTES (uh_b u) @ md (take L_BYTES (rvec_bytes r))"
    have "sbind (put junk 0 (take 16 key)) (\<lambda>d. sbind (put d 16 (take MSG_BYTES (uh_b u))) (\<lambda>d.
        put d (16 + MSG_BYTES) (md (take L_BYTES (rvec_bytes r))))) = Inr ?d"
      using assms(2-5) by (simp add: put_def commitment_size_def param_values)
    with m Some show ?thesis
      by (intro that[of "b\<lparr>buf_len := ?len, buf_data := Some q, buf_bytes := ?d\<rparr>" 0 h1])
         (simp_all add: hm_zk_write_commitment_def Let_def commitment_size_def)
  qed
qed

section \<open>Properties\<close>

text \<open>C28: Records of the proof file round trip.  After a successful write of record k, any later
  write of another record, whether it succeeds, fails or stops short, leaves record k readable,
  and reading it returns the commitment and the opening that were written.\<close>

theorem proof_record_roundtrip:
  assumes "hm_zk_write_proof_round os file buf n k a z = Inr (0, file1, buf1)"
    and "hm_zk_write_proof_round os' file1 buf' n' j a' z' = Inr (rc, file2, buf2)" and "j \<noteq> k"
    and "wf_record a" "wf_open z" "length buf = n" and "wf_record a'" "wf_open z'" "length buf' = n'"
    and "length rbuf = m" "proofSize \<le> m" "z_ve z0 \<noteq> None" "z_ve1 z0 \<noteq> None"
    and "int proofSize \<le> os2 (k * proofSize) proofSize"
  shows "\<exists>rbuf'. hm_zk_read_proof_round os2 file2 rbuf m k a0 z0 = Inr (0, a, z, rbuf')"
proof -
  have "file_record file1 k = Some (record_bytes a z)"
    using write_round_ok[OF assms(1,4-6)] length_record_bytes[OF assms(4,5)]
    by (simp add: file_record_write_same)
  from write_round_other[OF assms(2,7-9) this assms(3)]
  show ?thesis
    by (rule read_round_record[where ?os = os2 and k = k, OF assms(10-14)])
       (use record_of_bytes_inverse[OF assms(4,5)] in auto)
qed

definition demo_record :: ZkBooCommit where
  "demo_record = \<lparr>a_yp = Arr2 (replicate 8 1) (replicate 8 2), a_y2p = [Arr3 1 0 1],
     a_h = Arr3 (replicate 32 3) (replicate 32 4) (replicate 32 5)\<rparr>"

definition demo_open :: ZkBooOpen where
  "demo_open = \<lparr>z_ke = replicate 16 1, z_ke1 = replicate 16 2, z_ve = Some zero_view,
     z_ve1 = Some zero_view, z_re = replicate 4 3, z_re1 = replicate 4 4\<rparr>"

lemma demo_record_wf: "wf_record demo_record" "wf_open demo_open"
  by (simp_all add: demo_record_def demo_open_def wf_record_def wf_commit_def wf_open_def wf_view_def
      wf_rvec_def zero_view_def zero_rvec_def param_values sel3_def)

lemma demo_write:
  "\<exists>file' buf'. hm_zk_write_proof_round (\<lambda>_ n. int n) f (replicate proofSize 0) proofSize k
     demo_record demo_open = Inr (0, file', buf')"
  by (subst write_proof_round_eq[OF demo_record_wf]) simp_all

lemma proof_record_roundtrip_witness:
  "\<exists>file1 buf1 file2 buf2 rbuf.
     hm_zk_write_proof_round (\<lambda>_ n. int n) [] (replicate proofSize 0) proofSize 1 demo_record demo_open
       = Inr (0, file1, buf1) \<and>
     hm_zk_write_proof_round (\<lambda>_ n. int n) file1 (replicate proofSize 0) proofSize 0 demo_record demo_open
       = Inr (0, file2, buf2) \<and>
     hm_zk_read_proof_round (\<lambda>_ n. int n) file2 (replicate proofSize 0) proofSize 1 demo_record demo_open
       = Inr (0, demo_record, demo_open, rbuf)"
proof -
  obtain f1 b1 f2 b2 where w:
    "hm_zk_write_proof_round (\<lambda>_ n. int n) [] (replicate proofSize 0) proofSize 1 demo_record demo_open
       = Inr (0, f1, b1)"
    "hm_zk_write_proof_round (\<lambda>_ n. int n) f1 (replicate proofSize 0) proofSize 0 demo_record demo_open
       = Inr (0, f2, b2)"
    using demo_write by metis
  have "\<exists>rbuf. hm_zk_read_proof_round (\<lambda>_ n. int n) f2 (replicate proofSize 0) proofSize 1 demo_record demo_open
       = Inr (0, demo_record, demo_open, rbuf)"
    by (rule proof_record_roundtrip[OF w _ demo_record_wf _ demo_record_wf])
       (simp_all add: demo_open_def)
  with w show ?thesis by blast
qed

text \<open>C30: Reading a proof record is safe on every file.  With a buffer of the size the verifier
  allocates and its two view pointers set, the read stays inside its buffers whatever the file
  holds, returns 0 exactly when the file has the whole record and the system transfers it, and
  then every member that it filled in has its declared length.\<close>

theorem read_proof_round_safe:
  assumes "length buf = n" "proofSize \<le> n" "z_ve z \<noteq> None" "z_ve1 z \<noteq> None"
  shows "\<exists>rc a' z' buf'. hm_zk_read_proof_round os file buf n k a z = Inr (rc, a', z', buf') \<and>
     (rc = 0 \<longleftrightarrow> int proofSize \<le> os (k * proofSize) proofSize \<and> (k + 1) * proofSize \<le> length file) \<and>
     (rc = 0 \<longrightarrow> wf_record a' \<and> wf_open z')"
proof -
  obtain rc a' z' buf' where r: "hm_zk_read_proof_round os file buf n k a z = Inr (rc, a', z', buf')"
    using read_proof_round_eq[where os = os and ?file = "file" and k = k and a = a, OF assms]
    by (auto simp: Let_def split: if_splits)
  have c: "file_record file k \<noteq> None \<longleftrightarrow> (k + 1) * proofSize \<le> length file"
    by (auto simp: file_record_def Let_def size_values)
  have "wf_record a' \<and> wf_open z'" if "rc = 0"
  proof -
    from read_round_zero(4)[OF r assms] that obtain bs where "file_record file k = Some bs" by auto
    with read_round_zero(5)[OF r assms that this] file_record_wf[OF this] show ?thesis by simp
  qed
  with r read_round_zero(4)[OF r assms] c show ?thesis by blast
qed

lemma read_proof_round_safe_witness:
  "\<exists>rc a' z' buf'. hm_zk_read_proof_round (\<lambda>_ n. int n) [1, 2, 3] (replicate proofSize 0) proofSize 0
       demo_record demo_open = Inr (rc, a', z', buf') \<and> rc \<noteq> 0"
  using read_proof_round_safe[of "replicate proofSize 0" proofSize demo_open "\<lambda>_ n. int n" "[1, 2, 3]" 0
      demo_record] by (auto simp: demo_open_def size_values)

text \<open>C31: The published commitment round trips.  hm\_zk\_write\_commitment returns 0 or -1 and, when
  it returns 0, the buffer it hands out is accepted by hm\_zk\_read\_commitment, which returns the
  matrix key, the hash bits and the digest of the opening vector; hm\_zk\_commitment\_digest
  points to that digest; a commitment of any other length is refused.\<close>

theorem commitment_roundtrip:
  assumes "owns h base []" "length junk = commitment_size" "length key = 16" "length (uh_b u) = MSG_BYTES"
    and "length (md (take L_BYTES (rvec_bytes r))) = SHA256_DIGEST_LENGTH"
  shows "\<exists>b' rc h'. hm_zk_write_commitment md junk (Some b) (Some key) (Some u) (Some r) h
       = Inr ((Some b', rc), h') \<and> (rc = 0 \<or> rc = -1) \<and> owns h' base [buf_data b'] \<and>
     (rc = 0 \<longrightarrow>
       hm_zk_read_commitment (buf_bytes b') (buf_len b') h0
         = Some (h0\<lparr>keyA := key, uh_b := uh_b u\<rparr>, md (take L_BYTES (rvec_bytes r))) \<and>
       hm_zk_commitment_digest b' = md (take L_BYTES (rvec_bytes r)) \<and>
       (\<forall>n. n \<noteq> buf_len b' \<longrightarrow> hm_zk_read_commitment (buf_bytes b') n h0 = None))"
proof -
  obtain b' h' rc where w:
    "hm_zk_write_commitment md junk (Some b) (Some key) (Some u) (Some r) h = Inr ((Some b', rc), h')"
    "owns h' base [buf_data b']" "rc = 0 \<or> rc = -1"
    "rc = 0 \<Longrightarrow> buf_len b' = commitment_size \<and>
       buf_bytes b' = key @ take MSG_BYTES (uh_b u) @ md (take L_BYTES (rvec_bytes r))"
    by (rule write_commitment_run[where b = b and md = md and r = r and u = u, OF assms(1-3)])
       (use assms(4,5) in auto)
  then show ?thesis
    using assms(3-5)
    by (auto simp: hm_zk_read_commitment_def hm_zk_commitment_digest_def commitment_size_def param_values)
qed

lemma commitment_roundtrip_witness:
  "\<exists>b' h'. hm_zk_write_commitment sha256 (replicate commitment_size 9) (Some \<lparr>buf_data = None, buf_bytes = [], buf_len = 0\<rparr>)
       (Some (replicate 16 1)) (Some \<lparr>keyA = [], uh_A = [], uh_b = [1]\<rparr>) (Some zero_rvec)
       \<lparr>live = [], requests = 0, may_alloc = (\<lambda>_. True)\<rparr> = Inr ((Some b', 0), h') \<and>
     hm_zk_read_commitment (buf_bytes b') (buf_len b') demo_hash
       = Some (demo_hash\<lparr>keyA := replicate 16 1, uh_b := [1]\<rparr>, sha256 (take L_BYTES (rvec_bytes zero_rvec)))"
proof -
  let ?h = "\<lparr>live = [], requests = 0, may_alloc = (\<lambda>_. True)\<rparr>"
  have o: "owns ?h {} []" by (simp add: owns_def heap_ok_def)
  show ?thesis
    using commitment_roundtrip[OF o, of "replicate commitment_size 9" "replicate 16 1"
        "\<lparr>keyA = [], uh_A = [], uh_b = [1]\<rparr>" sha256 zero_rvec
        "\<lparr>buf_data = None, buf_bytes = [], buf_len = 0\<rparr>" demo_hash]
    by (auto simp: param_values hm_zk_write_commitment_def malloc_def put_def commitment_size_def Let_def)
qed

end
