(* ===== verification/Thread_State.thy ===== *)
theory Thread_State
  imports ZK_IO Parallel_Rounds
begin

text \<open>
  src/thread_state.h and src/thread_state.c: what each thread of the prover
  and of the verifier allocates before its first round and releases after its
  last.  Pointers are blocks of the heap; the contents of the blocks are
  members of the same records.  setupSHA256 aborts the process when its context
  cannot be allocated, which is the error NoMemory.
\<close>

section \<open>The two records\<close>

record ProverThreadState =
  rShares :: "RVec arr3"
  msgShares :: "u32 arr3 list"
  rand_block :: "nat option"
  randomness :: "byte list arr3"
  views_block :: "nat option"
  views :: "View arr3"
  p_ctx_chal :: "nat option"
  p_ctx_hash :: "nat option"
  p_bufWrite :: "nat option"
  p_buf :: "byte list"
  p_bufSize :: nat

record VerifierThreadState =
  v_a :: ZkBooCommit
  v_z :: ZkBooOpen
  v_ve :: "nat option"
  v_ve1 :: "nat option"
  v_ctx_chal :: "nat option"
  v_bufWrite :: "nat option"
  v_buf :: "byte list"
  v_bufSize :: nat

text \<open>memset(st, 0, sizeof(*st)); the contents behind a NULL pointer are empty.\<close>

definition zero_prover :: ProverThreadState where
  "zero_prover = \<lparr>rShares = Arr3 \<lparr>words = replicate L_WORDS 0\<rparr> \<lparr>words = replicate L_WORDS 0\<rparr> \<lparr>words = replicate L_WORDS 0\<rparr>,
     msgShares = replicate MSG_WORDS (Arr3 0 0 0), rand_block = None, randomness = Arr3 [] [] [],
     views_block = None, views = (let v = \<lparr>view_x = \<lparr>words = []\<rparr>, view_msg = [], view_y = []\<rparr> in Arr3 v v v),
     p_ctx_chal = None, p_ctx_hash = None, p_bufWrite = None, p_buf = [], p_bufSize = 0\<rparr>"

definition zero_verifier :: VerifierThreadState where
  "zero_verifier = \<lparr>v_a = commit_of_bytes (replicate sizeof_ZkBooCommit 0),
     v_z = \<lparr>z_ke = replicate 16 0, z_ke1 = replicate 16 0, z_ve = None, z_ve1 = None,
       z_re = replicate 4 0, z_re1 = replicate 4 0\<rparr>,
     v_ve = None, v_ve1 = None, v_ctx_chal = None, v_bufWrite = None, v_buf = [], v_bufSize = 0\<rparr>"

section \<open>Release\<close>

definition free_if :: "nat option \<Rightarrow> (heap, unit) prog" where
  "free_if p = (if p \<noteq> None then free_block p else ret ())"

definition prover_thread_state_cleanup :: "ProverThreadState option \<Rightarrow> (heap, ProverThreadState option) prog" where
  "prover_thread_state_cleanup st = (case st of None \<Rightarrow> ret None
     | Some s \<Rightarrow> bnd (free_if (p_ctx_chal s)) (\<lambda>_. bnd (free_if (p_ctx_hash s)) (\<lambda>_.
         bnd (free_if (p_bufWrite s)) (\<lambda>_. bnd (free_if (views_block s)) (\<lambda>_.
         bnd (free_if (rand_block s)) (\<lambda>_. ret (Some zero_prover)))))))"

definition verifier_thread_state_cleanup :: "VerifierThreadState option \<Rightarrow> (heap, VerifierThreadState option) prog" where
  "verifier_thread_state_cleanup st = (case st of None \<Rightarrow> ret None
     | Some s \<Rightarrow> bnd (free_if (v_ctx_chal s)) (\<lambda>_. bnd (free_if (v_ve s)) (\<lambda>_.
         bnd (free_if (v_ve1 s)) (\<lambda>_. bnd (free_if (v_bufWrite s)) (\<lambda>_. ret (Some zero_verifier))))))"

section \<open>Allocation\<close>

text \<open>p = malloc(...); if (!p) goto fail; with the pointer kept by store.\<close>

definition alloc_or_fail :: "('s \<Rightarrow> (heap, 's option) prog) \<Rightarrow> (nat option \<Rightarrow> 's \<Rightarrow> 's) \<Rightarrow> 's \<Rightarrow>
    ('s \<Rightarrow> (heap, 's option \<times> int) prog) \<Rightarrow> (heap, 's option \<times> int) prog" where
  "alloc_or_fail cleanup store st rest = bnd malloc (\<lambda>p. let st = store p st in
     if p = None then bnd (cleanup st) (\<lambda>st. ret (st, -1)) else rest st)"

definition alloc_or_abort :: "(nat option \<Rightarrow> 's \<Rightarrow> 's) \<Rightarrow> 's \<Rightarrow> ('s \<Rightarrow> (heap, 's option \<times> int) prog) \<Rightarrow>
    (heap, 's option \<times> int) prog" where
  "alloc_or_abort store st rest = bnd malloc (\<lambda>p. if p = None then throw NoMemory else rest (store p st))"

text \<open>The arguments rnd, vs and buf are what the allocated blocks hold.\<close>

definition prover_thread_state_init :: "byte list arr3 \<Rightarrow> View arr3 \<Rightarrow> byte list \<Rightarrow> bool \<Rightarrow> nat \<Rightarrow>
    (heap, ProverThreadState option \<times> int) prog" where
  "prover_thread_state_init rnd vs buf st_given bufSize =
    (if \<not> st_given then ret (None, -1) else
     let cleanup = (\<lambda>st. prover_thread_state_cleanup (Some st));
         st = zero_prover\<lparr>p_bufSize := bufSize\<rparr>
     in alloc_or_fail cleanup (\<lambda>p st. st\<lparr>rand_block := p, randomness := rnd\<rparr>) st (\<lambda>st.
        alloc_or_fail cleanup (\<lambda>p st. st\<lparr>views_block := p, views := vs\<rparr>) st (\<lambda>st.
        alloc_or_fail cleanup (\<lambda>p st. st\<lparr>p_bufWrite := p, p_buf := buf\<rparr>) st (\<lambda>st.
        alloc_or_fail cleanup (\<lambda>p st. st\<lparr>p_ctx_chal := p\<rparr>) st (\<lambda>st.
        alloc_or_abort (\<lambda>p st. st\<lparr>p_ctx_hash := p\<rparr>) st (\<lambda>st.
        ret (Some (st\<lparr>rShares := rShares zero_prover, msgShares := msgShares zero_prover\<rparr>), 0)))))))"

definition verifier_thread_state_init :: "View \<Rightarrow> View \<Rightarrow> byte list \<Rightarrow> bool \<Rightarrow> nat \<Rightarrow>
    (heap, VerifierThreadState option \<times> int) prog" where
  "verifier_thread_state_init ve ve1 buf st_given bufSize =
    (if \<not> st_given then ret (None, -1) else
     let cleanup = (\<lambda>st. verifier_thread_state_cleanup (Some st));
         st = zero_verifier\<lparr>v_bufSize := bufSize\<rparr>
     in alloc_or_fail cleanup (\<lambda>p st. st\<lparr>v_bufWrite := p, v_buf := buf\<rparr>) st (\<lambda>st.
        alloc_or_fail cleanup (\<lambda>p st. st\<lparr>v_ve := p, v_z := (v_z st)\<lparr>z_ve := map_option (\<lambda>_. ve) p\<rparr>\<rparr>) st (\<lambda>st.
        alloc_or_fail cleanup (\<lambda>p st. st\<lparr>v_ve1 := p, v_z := (v_z st)\<lparr>z_ve1 := map_option (\<lambda>_. ve1) p\<rparr>\<rparr>) st (\<lambda>st.
        alloc_or_fail cleanup (\<lambda>p st. st\<lparr>v_ctx_chal := p\<rparr>) st (\<lambda>st. ret (Some st, 0))))))"

section \<open>Lemmas\<close>

lemma free_if_eq: "free_if p = free_block p"
  by (cases p) (simp_all add: free_if_def free_block_def ret_def)

definition prover_blocks :: "ProverThreadState \<Rightarrow> nat option list" where
  "prover_blocks s = [p_ctx_chal s, p_ctx_hash s, p_bufWrite s, views_block s, rand_block s]"

definition verifier_blocks :: "VerifierThreadState \<Rightarrow> nat option list" where
  "verifier_blocks s = [v_ctx_chal s, v_ve s, v_ve1 s, v_bufWrite s]"

lemma prover_cleanup_run:
  assumes "owns h base (prover_blocks s)"
  obtains h' where "prover_thread_state_cleanup (Some s) h = Inr (Some zero_prover, h')" "owns h' base []"
    "may_alloc h' = may_alloc h"
proof -
  have "owns h base (prover_blocks s @ [])" using assms by simp
  then obtain h' where "free_all (prover_blocks s) h = Inr ((), h')" "owns h' base []" "may_alloc h' = may_alloc h"
    by (rule free_all_owns)
  then show ?thesis
    by (intro that[of h'])
       (auto simp: prover_blocks_def prover_thread_state_cleanup_def free_if_eq bnd_Inr_iff)
qed

lemma verifier_cleanup_run:
  assumes "owns h base (verifier_blocks s)"
  obtains h' where "verifier_thread_state_cleanup (Some s) h = Inr (Some zero_verifier, h')" "owns h' base []"
    "may_alloc h' = may_alloc h"
proof -
  have "owns h base (verifier_blocks s @ [])" using assms by simp
  then obtain h' where "free_all (verifier_blocks s) h = Inr ((), h')" "owns h' base []" "may_alloc h' = may_alloc h"
    by (rule free_all_owns)
  then show ?thesis
    by (intro that[of h'])
       (auto simp: verifier_blocks_def verifier_thread_state_cleanup_def free_if_eq bnd_Inr_iff)
qed

text \<open>
  What the caller of an initialisation relies on: the result owns the blocks
  that its record names, or is -1 with a zero record and no block.  The
  judgement init_post composes allocations; R relates the initialised record, M
  says which requests succeed.
\<close>

definition init_post :: "nat set \<Rightarrow> ('s \<Rightarrow> nat option list) \<Rightarrow> 's \<Rightarrow> (nat \<Rightarrow> bool) \<Rightarrow> ('s \<Rightarrow> bool) \<Rightarrow>
    fault + ('s option \<times> int) \<times> heap \<Rightarrow> bool" where
  "init_post base blocks_of zero M R r \<longleftrightarrow> (case r of Inl f \<Rightarrow> f = NoMemory \<and> (\<exists>k. \<not> M k)
     | Inr ((st, rc), h) \<Rightarrow> may_alloc h = M \<and> (case st of None \<Rightarrow> False
        | Some s \<Rightarrow> owns h base (blocks_of s) \<and> (rc = 0 \<and> R s \<or> rc = -1 \<and> s = zero)))"

lemma alloc_or_fail_post:
  assumes "owns h base (blocks_of st)" "may_alloc h = M"
    and cleanup: "\<And>s h. owns h base (blocks_of s) \<Longrightarrow>
        \<exists>h'. cleanup s h = Inr (Some zero, h') \<and> owns h' base [] \<and> may_alloc h' = may_alloc h"
    and zero: "\<And>h. owns h base [] \<Longrightarrow> owns h base (blocks_of zero)"
    and store: "\<And>p. mset (blocks_of (store p st)) + {#None#} = mset (p # blocks_of st)"
    and rest: "\<And>p h'. owns h' base (blocks_of (store (Some p) st)) \<Longrightarrow> may_alloc h' = M \<Longrightarrow>
        init_post base blocks_of zero M R (rest (store (Some p) st) h')"
  shows "init_post base blocks_of zero M R (alloc_or_fail cleanup store st rest h)"
proof -
  from assms(1) obtain p h1 where m: "malloc h = Inr (p, h1)" "owns h1 base (p # blocks_of st)"
    "may_alloc h1 = may_alloc h" by (auto elim: owns_malloc)
  have "owns h1 base (None # blocks_of (store p st))"
    by (rule owns_perm[OF _ m(2)]) (use store[of p] in simp)
  then have o: "owns h1 base (blocks_of (store p st))" by (simp add: owns_def)
  show ?thesis
  proof (cases p)
    case None
    with cleanup[OF o] obtain h2 where "cleanup (store None st) h1 = Inr (Some zero, h2)" "owns h2 base []"
      "may_alloc h2 = may_alloc h1" by auto
    with None m zero assms(2) show ?thesis by (simp add: alloc_or_fail_def Let_def init_post_def)
  next
    case (Some q)
    with m rest[of h1 q] o assms(2) show ?thesis by (simp add: alloc_or_fail_def Let_def)
  qed
qed

lemma alloc_or_abort_post:
  assumes "owns h base (blocks_of st)" "may_alloc h = M"
    and store: "\<And>p. mset (blocks_of (store p st)) + {#None#} = mset (p # blocks_of st)"
    and rest: "\<And>p h'. owns h' base (blocks_of (store (Some p) st)) \<Longrightarrow> may_alloc h' = M \<Longrightarrow>
        init_post base blocks_of zero M R (rest (store (Some p) st) h')"
  shows "init_post base blocks_of zero M R (alloc_or_abort store st rest h)"
proof -
  from assms(1) obtain p h1 where m: "malloc h = Inr (p, h1)" "owns h1 base (p # blocks_of st)"
    "may_alloc h1 = may_alloc h" by (auto elim: owns_malloc)
  have "owns h1 base (None # blocks_of (store p st))"
    by (rule owns_perm[OF _ m(2)]) (use store[of p] in simp)
  then have "owns h1 base (blocks_of (store p st))" by (simp add: owns_def)
  with m rest[of h1] assms(2) malloc_fails[of h h1] show ?thesis
    by (cases p) (simp_all add: alloc_or_abort_def init_post_def)
qed

lemma owns_zero: "owns h base [] \<Longrightarrow> owns h base (prover_blocks (zero_prover\<lparr>p_bufSize := n\<rparr>))"
  "owns h base [] \<Longrightarrow> owns h base (verifier_blocks (zero_verifier\<lparr>v_bufSize := n\<rparr>))"
  "owns h base [] \<Longrightarrow> owns h base (prover_blocks zero_prover)"
  "owns h base [] \<Longrightarrow> owns h base (verifier_blocks zero_verifier)"
  by (simp_all add: owns_def prover_blocks_def zero_prover_def verifier_blocks_def zero_verifier_def)

lemma prover_init_post:
  assumes "owns h base []"
  shows "init_post base prover_blocks zero_prover (may_alloc h)
     (\<lambda>s. randomness s = rnd \<and> views s = vs \<and> p_buf s = buf \<and> p_bufSize s = n \<and> None \<notin> set (prover_blocks s))
     (prover_thread_state_init rnd vs buf True n h)"
proof -
  have c: "\<exists>h'. prover_thread_state_cleanup (Some s) h = Inr (Some zero_prover, h') \<and> owns h' base [] \<and>
      may_alloc h' = may_alloc h"
    if "owns h base (prover_blocks s)" for s h using prover_cleanup_run[OF that] by metis
  note step = alloc_or_fail_post[where blocks_of = prover_blocks, OF _ _ c owns_zero(3)]
    alloc_or_abort_post[where blocks_of = prover_blocks]
  show ?thesis
    unfolding prover_thread_state_init_def Let_def if_False not_True_eq_False
    by ((rule step, (assumption | rule owns_zero(1)[OF assms]), (assumption | rule refl), (assumption+)?,
        simp add: prover_blocks_def zero_prover_def)+)
       (simp add: init_post_def prover_blocks_def zero_prover_def)
qed

lemma verifier_init_post:
  assumes "owns h base []"
  shows "init_post base verifier_blocks zero_verifier (may_alloc h)
     (\<lambda>s. z_ve (v_z s) = Some ve \<and> z_ve1 (v_z s) = Some ve1 \<and> v_buf s = buf \<and> v_bufSize s = n \<and>
        None \<notin> set (verifier_blocks s))
     (verifier_thread_state_init ve ve1 buf True n h)"
proof -
  have c: "\<exists>h'. verifier_thread_state_cleanup (Some s) h = Inr (Some zero_verifier, h') \<and> owns h' base [] \<and>
      may_alloc h' = may_alloc h"
    if "owns h base (verifier_blocks s)" for s h using verifier_cleanup_run[OF that] by metis
  note step = alloc_or_fail_post[where blocks_of = verifier_blocks, OF _ _ c owns_zero(4)]
  show ?thesis
    unfolding verifier_thread_state_init_def Let_def if_False not_True_eq_False
    by ((rule step, (assumption | rule owns_zero(2)[OF assms]), (assumption | rule refl), (assumption+)?,
        simp add: verifier_blocks_def zero_verifier_def)+)
       (simp add: init_post_def verifier_blocks_def zero_verifier_def)
qed

section \<open>Threads that were initialised\<close>

text \<open>
  The start of a thread of the region, with the buffer size that the two callers
  pass; the new blocks hold arbitrary contents of their sizes.
\<close>

definition verifier_bufSize :: nat where
  "verifier_bufSize = sizeof_ZkBooCommit + (16 + 16 + 8 + 8 + 4 + 4) + 2 * sizeof_View"

definition prover_start :: "ProverThreadState thread_start" where
  "prover_start h r \<longleftrightarrow> (\<exists>rnd vs buf. (\<forall>e<3. length (sel3 rnd e) = RAND_BYTES \<and> wf_view (sel3 vs e))
     \<and> length buf = proofSize \<and> r = prover_thread_state_init rnd vs buf True proofSize h)"

definition verifier_start :: "VerifierThreadState thread_start" where
  "verifier_start h r \<longleftrightarrow> (\<exists>ve ve1 buf. wf_view ve \<and> wf_view ve1 \<and> length buf = verifier_bufSize
     \<and> r = verifier_thread_state_init ve ve1 buf True verifier_bufSize h)"

definition prover_leave :: "ProverThreadState \<Rightarrow> (heap, ProverThreadState option) prog" where
  "prover_leave st = prover_thread_state_cleanup (Some st)"

definition verifier_leave :: "VerifierThreadState \<Rightarrow> (heap, VerifierThreadState option) prog" where
  "verifier_leave st = verifier_thread_state_cleanup (Some st)"

text \<open>A state that a thread of the verifier can start with.\<close>

definition fresh_verifier :: "VerifierThreadState \<Rightarrow> bool" where
  "fresh_verifier st \<longleftrightarrow> (\<exists>h h'. verifier_start h (Inr ((Some st, 0), h')))"

lemma owns_live: "heap_ok h \<Longrightarrow> owns h (set (live h)) []"
  by (simp add: owns_Nil)

lemma prover_init_state:
  assumes "prover_thread_state_init rnd vs buf True n h = Inr ((p, rc), h')"
  shows "\<exists>st. p = Some st \<and> (rc = 0 \<longrightarrow> views st = vs \<and> p_buf st = buf \<and> p_bufSize st = n)"
  using assms
  by (auto simp: prover_thread_state_init_def prover_thread_state_cleanup_def alloc_or_fail_def alloc_or_abort_def
      bnd_Inr_iff Let_def split: if_splits)

lemma verifier_init_state:
  assumes "verifier_thread_state_init ve ve1 buf True n h = Inr ((p, rc), h')"
  shows "\<exists>st. p = Some st \<and> (rc = 0 \<longrightarrow> z_ve (v_z st) = Some ve \<and> z_ve1 (v_z st) = Some ve1 \<and> v_buf st = buf \<and>
     v_bufSize st = n)"
  using assms
  by (auto simp: verifier_thread_state_init_def verifier_thread_state_cleanup_def alloc_or_fail_def
      bnd_Inr_iff Let_def split: if_splits)

lemma prover_start_state:
  assumes "prover_start h (Inr ((p, rc), h'))"
  shows "\<exists>st. p = Some st \<and> (rc = 0 \<longrightarrow> (\<forall>e<3. wf_view (sel3 (views st) e)) \<and> length (p_buf st) = proofSize \<and>
     p_bufSize st = proofSize)"
proof -
  obtain rnd vs buf where a: "\<forall>e<3. length (sel3 rnd e) = RAND_BYTES \<and> wf_view (sel3 vs e)" "length buf = proofSize"
    "prover_thread_state_init rnd vs buf True proofSize h = Inr ((p, rc), h')"
    using assms by (auto simp: prover_start_def)
  from prover_init_state[OF a(3)] a(1,2) show ?thesis by auto
qed

lemma verifier_start_state:
  assumes "verifier_start h (Inr ((p, rc), h'))"
  shows "\<exists>st. p = Some st \<and> (rc = 0 \<longrightarrow> length (v_buf st) = verifier_bufSize \<and> v_bufSize st = verifier_bufSize \<and>
     z_ve (v_z st) \<noteq> None \<and> z_ve1 (v_z st) \<noteq> None)"
proof -
  obtain ve ve1 buf where a: "length buf = verifier_bufSize"
    "verifier_thread_state_init ve ve1 buf True verifier_bufSize h = Inr ((p, rc), h')"
    using assms by (auto simp: verifier_start_def)
  from verifier_init_state[OF a(2)] a(1) show ?thesis by auto
qed

lemma wf_zero_view: "wf_view zero_view"
  by (simp add: wf_view_def wf_rvec_def zero_view_def zero_rvec_def param_values)

lemma start_total: "\<exists>r. prover_start h r" "\<exists>r. verifier_start h r"
proof -
  let ?r = "Arr3 (replicate RAND_BYTES 0) (replicate RAND_BYTES 0) (replicate RAND_BYTES 0)"
  have "\<forall>e<3. length (sel3 ?r e) = RAND_BYTES \<and> wf_view (sel3 (Arr3 zero_view zero_view zero_view) e)"
    by (simp add: wf_zero_view sel3_def)
  then show "\<exists>r. prover_start h r" unfolding prover_start_def by (metis length_replicate)
  show "\<exists>r. verifier_start h r" unfolding verifier_start_def by (metis length_replicate wf_zero_view)
qed

text \<open>On a heap on which every request succeeds a thread starts.\<close>

lemma verifier_starts:
  assumes "\<forall>k. may_alloc h k"
  shows "\<exists>st h'. verifier_start h (Inr ((Some st, 0), h'))"
proof -
  have "\<exists>st h'. verifier_thread_state_init zero_view zero_view (replicate verifier_bufSize 0) True
      verifier_bufSize h = Inr ((Some st, 0), h')"
    using assms by (simp add: verifier_thread_state_init_def alloc_or_fail_def malloc_def bnd_def ret_def Let_def)
  then show ?thesis unfolding verifier_start_def by (metis length_replicate wf_zero_view)
qed

lemma prover_starts:
  assumes "\<forall>k. may_alloc h k"
  shows "\<exists>st h'. prover_start h (Inr ((Some st, 0), h'))"
proof -
  let ?r = "Arr3 (replicate RAND_BYTES 0) (replicate RAND_BYTES 0) (replicate RAND_BYTES 0)"
  have "\<exists>st h'. prover_thread_state_init ?r (Arr3 zero_view zero_view zero_view) (replicate proofSize 0) True
      proofSize h = Inr ((Some st, 0), h')"
    using assms
    by (simp add: prover_thread_state_init_def alloc_or_fail_def alloc_or_abort_def malloc_def bnd_def ret_def Let_def)
  moreover have "\<forall>e<3. length (sel3 ?r e) = RAND_BYTES \<and> wf_view (sel3 (Arr3 zero_view zero_view zero_view) e)"
    by (simp add: wf_zero_view sel3_def)
  ultimately show ?thesis unfolding prover_start_def by (metis length_replicate)
qed

lemma fresh_verifier_exists: "\<exists>st. fresh_verifier st"
  using verifier_starts[of "\<lparr>live = [], requests = 0, may_alloc = (\<lambda>_. True)\<rparr>"] by (auto simp: fresh_verifier_def)

text \<open>The verifier's initialisation has no call that aborts, and frees only what it has allocated.\<close>

lemma verifier_init_returns: "verifier_thread_state_init ve ve1 buf True n h \<noteq> Inl f"
  by (auto simp: verifier_thread_state_init_def alloc_or_fail_def malloc_def bnd_def ret_def Let_def
      verifier_thread_state_cleanup_def free_if_def free_block_def zero_verifier_def)

lemma free_block_fault: "free_block p h = Inl f \<Longrightarrow> f = BadFree"
  by (auto simp: free_block_def split: option.splits if_splits)

lemma verifier_cleanup_fault: "verifier_thread_state_cleanup st h = Inl f \<Longrightarrow> f = BadFree"
  unfolding verifier_thread_state_cleanup_def free_if_eq bnd_def ret_def
  by (drule sym) (auto split: option.splits sum.splits dest!: free_block_fault sym[of "Inl _"])

lemma init_post_released:
  assumes "init_post base blocks_of zero M R r" and "\<And>s. R s \<Longrightarrow> None \<notin> set (blocks_of s)"
    and cleanup: "\<And>s h. owns h base (blocks_of s) \<Longrightarrow> \<exists>h'. cleanup (Some s) h = Inr (Some zero, h') \<and> owns h' base []"
    and zero: "set (blocks_of zero) \<subseteq> {None}"
  shows "case r of Inl f \<Rightarrow> f = NoMemory
     | Inr ((st, rc), h1) \<Rightarrow> (\<exists>s h2. st = Some s \<and>
         (rc = 0 \<and> None \<notin> set (blocks_of s) \<or> rc = -1 \<and> s = zero \<and> set (live h1) = base) \<and>
         cleanup st h1 = Inr (Some zero, h2) \<and> set (live h2) = base)"
proof (cases r)
  case (Inr a)
  then obtain s rc h1 where r: "r = Inr ((Some s, rc), h1)" and o: "owns h1 base (blocks_of s)"
    and c: "rc = 0 \<and> R s \<or> rc = -1 \<and> s = zero"
    using assms(1) by (cases a) (auto simp: init_post_def split: option.splits)
  have "set (live h1) = base" if "s = zero"
    using o zero that by (auto simp: owns_def blocks_def)
  with r c assms(2)[of s] cleanup[OF o] show ?thesis by (auto simp: owns_Nil)
qed (use assms(1) in \<open>simp add: init_post_def\<close>)

lemma verifier_init_no_abort: "verifier_thread_state_init ve ve1 buf b n h \<noteq> Inl NoMemory"
  by (auto simp: verifier_thread_state_init_def alloc_or_fail_def malloc_def bnd_def ret_def Let_def
      dest: verifier_cleanup_fault split: sum.splits if_splits)

section \<open>Threads on the heap of a region\<close>

lemma init_post_frame:
  assumes "owns h base ps" and "init_post (base \<union> blocks ps) blocks_of zero (may_alloc h) R (Inr ((Some st, rc), h'))"
  shows "owns h' base (blocks_of st @ ps) \<and> may_alloc h' = may_alloc h"
  using assms owns_back[OF assms(1)] by (simp add: init_post_def)

lemma prover_start_owns:
  assumes "owns h base ps" "prover_start h (Inr ((Some st, rc), h'))"
  shows "owns h' base (prover_blocks st @ ps) \<and> may_alloc h' = may_alloc h"
proof -
  obtain rnd vs buf where i: "prover_thread_state_init rnd vs buf True proofSize h = Inr ((Some st, rc), h')"
    using assms(2) by (auto simp: prover_start_def)
  show ?thesis
    by (rule init_post_frame[OF assms(1) prover_init_post[OF owns_aside[OF assms(1)], of rnd vs buf proofSize, unfolded i]])
qed

lemma verifier_start_owns:
  assumes "owns h base ps" "verifier_start h (Inr ((Some st, rc), h'))"
  shows "owns h' base (verifier_blocks st @ ps) \<and> may_alloc h' = may_alloc h"
proof -
  obtain ve ve1 buf where i: "verifier_thread_state_init ve ve1 buf True verifier_bufSize h = Inr ((Some st, rc), h')"
    using assms(2) by (auto simp: verifier_start_def)
  show ?thesis
    by (rule init_post_frame[OF assms(1) verifier_init_post[OF owns_aside[OF assms(1)], of ve ve1 buf verifier_bufSize, unfolded i]])
qed

lemma prover_start_stops:
  assumes "owns h base ps" "prover_start h (Inl f)"
  shows "f = NoMemory \<and> (\<exists>k. \<not> may_alloc h k)"
proof -
  obtain rnd vs buf where "prover_thread_state_init rnd vs buf True proofSize h = Inl f"
    using assms(2) by (auto simp: prover_start_def)
  with prover_init_post[OF owns_aside[OF assms(1)], of rnd vs buf proofSize] show ?thesis
    by (simp add: init_post_def)
qed

lemma verifier_start_returns: "\<not> verifier_start h (Inl f)"
  using verifier_init_returns by (metis verifier_start_def)

lemma prover_leave_frees:
  assumes "owns h base (prover_blocks st @ ps)"
  shows "\<exists>r h'. prover_leave st h = Inr (r, h') \<and> owns h' base ps \<and> may_alloc h' = may_alloc h"
proof -
  from free_all_owns[OF assms] obtain h' where "free_all (prover_blocks st) h = Inr ((), h')" "owns h' base ps"
    "may_alloc h' = may_alloc h" by metis
  then show ?thesis
    by (auto simp: prover_leave_def prover_blocks_def prover_thread_state_cleanup_def free_if_eq bnd_Inr_iff)
qed

lemma verifier_leave_frees:
  assumes "owns h base (verifier_blocks st @ ps)"
  shows "\<exists>r h'. verifier_leave st h = Inr (r, h') \<and> owns h' base ps \<and> may_alloc h' = may_alloc h"
proof -
  from free_all_owns[OF assms] obtain h' where "free_all (verifier_blocks st) h = Inr ((), h')" "owns h' base ps"
    "may_alloc h' = may_alloc h" by metis
  then show ?thesis
    by (auto simp: verifier_leave_def verifier_blocks_def verifier_thread_state_cleanup_def free_if_eq bnd_Inr_iff)
qed

text \<open>C26: Thread states neither leak nor are freed twice.  Whatever allocations fail, the
  initialisation of a prover or verifier thread aborts for lack of memory or returns a record: 0 with
  every block allocated, or -1 with the zero record and no block.  In both cases the cleanup at the
  end of the region, which the code runs without looking at the return code, frees exactly the
  blocks of the thread; no free of an unallocated block occurs.\<close>

theorem thread_state_no_leak:
  assumes "heap_ok h"
  shows "(case prover_thread_state_init rnd vs buf True n h of Inl f \<Rightarrow> f = NoMemory
       | Inr ((st, rc), h1) \<Rightarrow> (\<exists>s h2. st = Some s \<and>
           (rc = 0 \<and> None \<notin> set (prover_blocks s) \<or> rc = -1 \<and> s = zero_prover \<and> set (live h1) = set (live h)) \<and>
           prover_thread_state_cleanup st h1 = Inr (Some zero_prover, h2) \<and> set (live h2) = set (live h)))
     \<and> (case verifier_thread_state_init ve ve1 buf True n h of Inl f \<Rightarrow> False
       | Inr ((st, rc), h1) \<Rightarrow> (\<exists>s h2. st = Some s \<and>
           (rc = 0 \<and> None \<notin> set (verifier_blocks s) \<or> rc = -1 \<and> s = zero_verifier \<and> set (live h1) = set (live h)) \<and>
           verifier_thread_state_cleanup st h1 = Inr (Some zero_verifier, h2) \<and> set (live h2) = set (live h)))"
proof -
  note o = owns_live[OF assms]
  have p: "\<exists>h'. prover_thread_state_cleanup (Some s) h1 = Inr (Some zero_prover, h') \<and> owns h' (set (live h)) []"
    if "owns h1 (set (live h)) (prover_blocks s)" for s h1 using prover_cleanup_run[OF that] by metis
  have v: "\<exists>h'. verifier_thread_state_cleanup (Some s) h1 = Inr (Some zero_verifier, h') \<and> owns h' (set (live h)) []"
    if "owns h1 (set (live h)) (verifier_blocks s)" for s h1 using verifier_cleanup_run[OF that] by metis
  have zero: "set (prover_blocks zero_prover) \<subseteq> {None}" "set (verifier_blocks zero_verifier) \<subseteq> {None}"
    by (simp_all add: prover_blocks_def zero_prover_def verifier_blocks_def zero_verifier_def)
  have P: "case prover_thread_state_init rnd vs buf True n h of Inl f \<Rightarrow> f = NoMemory
     | Inr ((st, rc), h1) \<Rightarrow> (\<exists>s h2. st = Some s \<and>
         (rc = 0 \<and> None \<notin> set (prover_blocks s) \<or> rc = -1 \<and> s = zero_prover \<and> set (live h1) = set (live h)) \<and>
         prover_thread_state_cleanup st h1 = Inr (Some zero_prover, h2) \<and> set (live h2) = set (live h))"
    by (rule init_post_released[OF prover_init_post[OF o]]) (use p zero in simp_all)
  have V: "case verifier_thread_state_init ve ve1 buf True n h of Inl f \<Rightarrow> f = NoMemory
     | Inr ((st, rc), h1) \<Rightarrow> (\<exists>s h2. st = Some s \<and>
         (rc = 0 \<and> None \<notin> set (verifier_blocks s) \<or> rc = -1 \<and> s = zero_verifier \<and> set (live h1) = set (live h)) \<and>
         verifier_thread_state_cleanup st h1 = Inr (Some zero_verifier, h2) \<and> set (live h2) = set (live h))"
    by (rule init_post_released[OF verifier_init_post[OF o]]) (use v zero in simp_all)
  have "verifier_thread_state_init ve ve1 buf True n h \<noteq> Inl f" for f
    using V verifier_init_no_abort[of ve ve1 buf True n h]
    by (cases "verifier_thread_state_init ve ve1 buf True n h") auto
  with P V show ?thesis by (cases "verifier_thread_state_init ve ve1 buf True n h") auto
qed

lemma thread_state_no_leak_witness:
  "\<exists>s h1 h2. verifier_thread_state_init zero_view zero_view [] True 0
       \<lparr>live = [7], requests = 8, may_alloc = (\<lambda>k. k < 10)\<rparr> = Inr ((Some s, -1), h1) \<and>
     verifier_thread_state_cleanup (Some s) h1 = Inr (Some zero_verifier, h2) \<and> set (live h2) = {7}"
proof -
  let ?h = "\<lparr>live = [7], requests = 8, may_alloc = (\<lambda>k. k < 10)\<rparr>"
  have ok: "heap_ok ?h" by (simp add: heap_ok_def)
  have "\<exists>s h1. verifier_thread_state_init zero_view zero_view [] True 0 ?h = Inr ((Some s, -1), h1)"
    by (simp add: verifier_thread_state_init_def alloc_or_fail_def malloc_def bnd_def ret_def Let_def
        verifier_thread_state_cleanup_def free_if_def free_block_def zero_verifier_def)
  then obtain s h1 where "verifier_thread_state_init zero_view zero_view [] True 0 ?h = Inr ((Some s, -1), h1)"
    by blast
  with thread_state_no_leak[OF ok, of "Arr3 [] [] []" "Arr3 zero_view zero_view zero_view" "[]" 0 zero_view zero_view]
  show ?thesis by auto
qed

end
