(* ===== verification/HM_ZK.thy ===== *)
theory HM_ZK
  imports MPC_Verify_Safe Parallel_Rounds Thread_State
begin

unbundle bit_operations_syntax

text \<open>
  src/hm_zk.c: committing to a bit with a proof file, and verifying the proof.
  Both functions prepare shared data and then run their rounds in an OpenMP
  region, the step relation of Parallel\_Rounds.  The buffers of the caller, the
  shared digest context and the states of the threads are blocks of one heap.  A
  run of a function that returns and a run that the process does not survive are
  separate predicates.  What RAND\_bytes leaves in a
  buffer, the contents of uninitialised memory and the results of the
  operating system are arguments.
\<close>

section \<open>Helpers\<close>

definition test_randomness :: "bool \<Rightarrow> int" where
  "test_randomness rand_ok = (if \<not> rand_ok then -1 else 0)"

text \<open>ctx is the context of the thread, which HH initialises again for every view.\<close>

definition hash_views :: "digest_fn \<Rightarrow> byte list \<Rightarrow> byte list arr3 \<Rightarrow> byte list arr3 \<Rightarrow> View arr3 \<Rightarrow>
    ZkBooCommit \<Rightarrow> ZkBooCommit" where
  "hash_views md ctx keys rs localViews a =
    (let hash1 = HH md ctx (at0 keys) (at0 localViews) (at0 rs);
         a = a\<lparr>a_h := Arr3 hash1 (at1 (a_h a)) (at2 (a_h a))\<rparr>;
         hash1 = HH md ctx (at1 keys) (at1 localViews) (at1 rs);
         a = a\<lparr>a_h := Arr3 (at0 (a_h a)) hash1 (at2 (a_h a))\<rparr>;
         hash1 = HH md ctx (at2 keys) (at2 localViews) (at2 rs)
     in a\<lparr>a_h := Arr3 (at0 (a_h a)) (at1 (a_h a)) hash1\<rparr>)"

text \<open>The context that both functions build from the matrix and the hash bits.\<close>

definition base_context :: "UniversalHash \<Rightarrow> byte list" where
  "base_context h = setupSHA256 @ le_bytes (uh_A h) @ uh_b h"

text \<open>The block of a digest context; without memory setupSHA256 aborts the process.\<close>

definition setupSHA256_block :: "(heap, nat option) prog" where
  "setupSHA256_block = bnd malloc (\<lambda>p. if p = None then throw NoMemory else ret p)"

text \<open>The end of a region: the threads release their states, then base\_ctx is freed.\<close>

definition region_end :: "('st \<Rightarrow> (heap, 'st option) prog) \<Rightarrow> nat option \<Rightarrow> 'st worker list \<Rightarrow> (heap, unit) prog" where
  "region_end cleanup base_ctx ws = bnd (leave_all cleanup ws) (\<lambda>_. free_block base_ctx)"

text \<open>Ways not to return from a region: a thread aborts the process, or a release frees a bad pointer.\<close>

definition region_stops :: "'st thread_start \<Rightarrow> ('st \<Rightarrow> (heap, 'st option) prog) \<Rightarrow> ('st, 'g) round_body \<Rightarrow> nat \<Rightarrow> 'g \<Rightarrow>
    nat option \<Rightarrow> heap \<Rightarrow> fault \<Rightarrow> bool" where
  "region_stops start cleanup body n g base_ctx h f \<longleftrightarrow>
     (\<exists>s. (omp_step start body)\<^sup>*\<^sup>* (team_start n NUM_ROUNDS g h) s \<and>
       (thread_stops start s f \<or>
        joined s \<and> (\<exists>ws. mset ws = mset (workers s) \<and> region_end cleanup base_ctx ws (mem s) = Inl f)))"

section \<open>hm\_bit\_commit\<close>

record commit_env =
  rand_test :: bool
  rand_r :: "byte list option"
  rand_keys :: "byte list"
  rand_keyH :: "byte list"
  rand_rs :: "byte list"
  rand_shares :: "nat \<Rightarrow> byte list \<times> byte list \<times> byte list"
  old_hash :: UniversalHash
  old_block :: "byte list"
  old_record :: "nat \<Rightarrow> ZkBooCommit"
  proof_opened :: bool

text \<open>What the rounds of the prover share.\<close>

record commit_job =
  job_h :: UniversalHash
  job_r :: RVec
  job_msg :: "byte list"
  job_keys :: "byte list arr3 list"
  job_rs :: "byte list arr3 list"
  job_ctx :: "byte list"
  job_digest :: "byte list"
  job_base_ctx :: "nat option"

definition with_result :: "fault + 'a \<Rightarrow> ('a \<Rightarrow> ('s, 'b) prog) \<Rightarrow> ('s, 'b) prog" where
  "with_result m f = (\<lambda>s. case m of Inl e \<Rightarrow> Inl e | Inr x \<Rightarrow> f x s)"

text \<open>The label cleanup: at every jump to it, file and base\_ctx are still NULL.\<close>

definition commit_cleanup :: "hm_buffer_t option \<Rightarrow> hm_buffer_t option \<Rightarrow>
    (heap, hm_buffer_t option \<times> hm_buffer_t option \<times> commit_job option) prog" where
  "commit_cleanup commitment_out opening_out =
     bnd (hm_buffer_free commitment_out) (\<lambda>c. bnd (hm_buffer_free opening_out) (\<lambda>op. ret (c, op, None)))"

text \<open>Everything before the parallel region; the job is None when the function returns -1.\<close>

definition hm_bit_commit_setup :: "digest_fn \<Rightarrow> keystream \<Rightarrow> commit_env \<Rightarrow> byte \<Rightarrow> hm_buffer_t option \<Rightarrow>
    hm_buffer_t option \<Rightarrow> (heap, hm_buffer_t option \<times> hm_buffer_t option \<times> commit_job option) prog" where
  "hm_bit_commit_setup md stream env b commitment_out opening_out =
    (if test_randomness (rand_test env) \<noteq> 0 then ret (commitment_out, opening_out, None) else
     let msg = replicate (MSG_WORDS * 4) 0; msg = msg[0 := (msg ! 0) XOR (b AND 1)] in
     case rand_r env of None \<Rightarrow> commit_cleanup commitment_out opening_out
     | Some rnd \<Rightarrow>
       let r = rvec_normalize \<lparr>words = le_words rnd\<rparr> in
       bnd (hm_buffer_copy opening_out (Some (rvec_bytes r)) L_BYTES) (\<lambda>(opening_out, rc).
       if rc \<noteq> 0 then commit_cleanup commitment_out opening_out else
       let (keys, keyH, rs) = generate_keys_and_rs (rand_keys env) (rand_keyH env) (rand_rs env) in
       with_result (mpc_hm_hash_init stream (uh_b (old_hash env)) keyH msg r) (\<lambda>(A, hb).
       let h = (old_hash env)\<lparr>uh_A := A, uh_b := hb\<rparr> in
       bnd (hm_zk_write_commitment md (old_block env) commitment_out (Some keyH) (Some h) (Some r))
         (\<lambda>(commitment_out, rc).
       if rc \<noteq> 0 then commit_cleanup commitment_out opening_out else
       if \<not> proof_opened env then commit_cleanup commitment_out opening_out else
       bnd setupSHA256_block (\<lambda>base_ctx.
       ret (commitment_out, opening_out,
         Some \<lparr>job_h = h, job_r = r, job_msg = msg, job_keys = keys, job_rs = rs,
               job_ctx = base_context h,
               job_digest = (case commitment_out of None \<Rightarrow> [] | Some c \<Rightarrow> hm_zk_commitment_digest c),
               job_base_ctx = base_ctx\<rparr>))))))"

text \<open>One round; buffSize is the size of a record on disk.\<close>

definition prover_round :: "digest_fn \<Rightarrow> keystream \<Rightarrow> os \<Rightarrow> commit_env \<Rightarrow> commit_job \<Rightarrow>
    (ProverThreadState, byte list) round_body" where
  "prover_round md stream os env job k st file =
    (let (rnd0, rnd1, rndm) = rand_shares env k;
         (rs3, ms) = share_secrets rnd0 rnd1 rndm (job_r job) (job_msg job);
         keys = job_keys job ! k; rs = job_rs job ! k;
         rnd = generate_randomness stream keys;
         st = st\<lparr>rShares := rs3, msgShares := ms, randomness := rnd\<rparr>
     in case mpc_hm_prove (views st) (old_record env k) rnd (job_h job) rs3 ms of
          Inl f \<Rightarrow> Some (Inl f)
        | Inr (vs, a) \<Rightarrow>
          let st = st\<lparr>views := vs\<rparr>; a = hash_views md [] keys rs vs a in
          (case generate_challenge md (job_ctx job) a (job_digest job) of
             None \<Rightarrow> None
           | Some e \<Rightarrow>
             let z = zk_open e keys rs vs in
             (case hm_zk_write_proof_round os file (p_buf st) (p_bufSize st) k a z of
                Inl f \<Rightarrow> Some (Inl f)
              | Inr (rc, file, buf) \<Rightarrow> Some (Inr (rc = 0, st\<lparr>p_buf := buf\<rparr>, file)))))"

text \<open>
  A run with n threads that returns: the buffers of the caller, the proof file,
  the return code and the heap afterwards.  ws is the order in which the threads
  release their states.  fopen with mode wb leaves an empty file; when the
  function returns before the region, the file is whatever it was.
\<close>

definition hm_bit_commit :: "digest_fn \<Rightarrow> keystream \<Rightarrow> os \<Rightarrow> commit_env \<Rightarrow> nat \<Rightarrow> byte \<Rightarrow> heap \<Rightarrow>
    hm_buffer_t option \<Rightarrow> hm_buffer_t option \<Rightarrow> hm_buffer_t option \<Rightarrow> hm_buffer_t option \<Rightarrow> byte list \<Rightarrow> int \<Rightarrow> heap \<Rightarrow> bool" where
  "hm_bit_commit md stream os env n b h0 c0 o0 c op file rc h \<longleftrightarrow>
     (\<exists>job h1. hm_bit_commit_setup md stream env b c0 o0 h0 = Inr ((c, op, job), h1) \<and>
       (case job of None \<Rightarrow> rc = -1 \<and> h = h1
        | Some job \<Rightarrow> \<exists>s ws. omp_run prover_start (prover_round md stream os env job) n NUM_ROUNDS [] h1 s \<and>
            mset ws = mset (workers s) \<and> region_end prover_leave (job_base_ctx job) ws (mem s) = Inr ((), h) \<and>
            file = shared s \<and> rc = (if err s then -1 else 0)))"

text \<open>A run that does not return: the process aborts for lack of memory, or a pointer is freed wrongly.\<close>

definition hm_bit_commit_stops :: "digest_fn \<Rightarrow> keystream \<Rightarrow> os \<Rightarrow> commit_env \<Rightarrow> nat \<Rightarrow> byte \<Rightarrow> heap \<Rightarrow>
    hm_buffer_t option \<Rightarrow> hm_buffer_t option \<Rightarrow> fault \<Rightarrow> bool" where
  "hm_bit_commit_stops md stream os env n b h0 c0 o0 f \<longleftrightarrow>
     hm_bit_commit_setup md stream env b c0 o0 h0 = Inl f \<or>
     (\<exists>c op job h1. hm_bit_commit_setup md stream env b c0 o0 h0 = Inr ((c, op, Some job), h1) \<and>
       region_stops prover_start prover_leave (prover_round md stream os env job) n [] (job_base_ctx job) h1 f)"

section \<open>hm\_bit\_verify\<close>

text \<open>The result is the hash, the digest and the contents of the opened proof file; None is -1.\<close>

definition hm_bit_verify_setup :: "keystream \<Rightarrow> bool \<Rightarrow> UniversalHash \<Rightarrow> byte list option \<Rightarrow> nat \<Rightarrow> bool \<Rightarrow>
    byte list option \<Rightarrow> (UniversalHash \<times> byte list \<times> byte list) option" where
  "hm_bit_verify_setup stream rand_ok h0 commitment commitment_len path_given file =
    (if test_randomness rand_ok \<noteq> 0 then None else
     (case commitment of None \<Rightarrow> None | Some c \<Rightarrow>
     if commitment_len = 0 \<or> \<not> path_given then None else
     (case file of None \<Rightarrow> None | Some f \<Rightarrow>
     (case hm_zk_read_commitment c commitment_len h0 of None \<Rightarrow> None | Some (h, y) \<Rightarrow>
     let h = h\<lparr>uh_A := mpc_hm_expand_matrix stream A_WORDS (keyA h)\<rparr> in Some (h, y, f)))))"

text \<open>alloc says whether the allocations of mpc\_sha256\_verify in round k succeed.\<close>

definition verifier_round :: "digest_fn \<Rightarrow> keystream \<Rightarrow> os \<Rightarrow> (nat \<Rightarrow> bool) \<Rightarrow> UniversalHash \<Rightarrow> byte list \<Rightarrow>
    (VerifierThreadState, byte list) round_body" where
  "verifier_round md stream os alloc h y k st file =
    (case hm_zk_read_proof_round os file (v_buf st) (v_bufSize st) k (v_a st) (v_z st) of
       Inl f \<Rightarrow> Some (Inl f)
     | Inr (rc, a, z, buf) \<Rightarrow>
       let st = st\<lparr>v_buf := buf, v_a := a, v_z := z\<rparr> in
       if rc \<noteq> 0 then Some (Inr (False, st, file)) else
       (case H3 md (base_context h) y [a] 1 of
          None \<Rightarrow> None
        | Some es \<Rightarrow>
          (case mpc_hm_verify md stream (alloc k) h a z y (es ! 0) of
             Inr _ \<Rightarrow> Some (Inr (True, st, file))
           | Inl OutOfBounds \<Rightarrow> Some (Inl OutOfBounds)
           | Inl _ \<Rightarrow> Some (Inr (False, st, file)))))"

text \<open>A run on the heap m0 that returns; m1 is the heap afterwards.\<close>

definition hm_bit_verify_on :: "digest_fn \<Rightarrow> keystream \<Rightarrow> os \<Rightarrow> (nat \<Rightarrow> bool) \<Rightarrow> nat \<Rightarrow> bool \<Rightarrow> UniversalHash \<Rightarrow>
    byte list option \<Rightarrow> nat \<Rightarrow> bool \<Rightarrow> byte list option \<Rightarrow> VerifierThreadState worker list \<Rightarrow> int \<Rightarrow> heap \<Rightarrow> heap \<Rightarrow> bool" where
  "hm_bit_verify_on md stream os alloc n rand_ok h0 commitment commitment_len path_given file threads rc m0 m1 \<longleftrightarrow>
     (case hm_bit_verify_setup stream rand_ok h0 commitment commitment_len path_given file of
        None \<Rightarrow> threads = [] \<and> rc = -1 \<and> m1 = m0
      | Some (h, y, f) \<Rightarrow> \<exists>base_ctx m s ws. setupSHA256_block m0 = Inr (base_ctx, m) \<and>
          omp_run verifier_start (verifier_round md stream os alloc h y) n NUM_ROUNDS f m s \<and> threads = workers s \<and>
          mset ws = mset threads \<and> region_end verifier_leave base_ctx ws (mem s) = Inr ((), m1) \<and>
          rc = (if err s then -1 else 0))"

definition hm_bit_verify_stops :: "digest_fn \<Rightarrow> keystream \<Rightarrow> os \<Rightarrow> (nat \<Rightarrow> bool) \<Rightarrow> nat \<Rightarrow> bool \<Rightarrow> UniversalHash \<Rightarrow>
    byte list option \<Rightarrow> nat \<Rightarrow> bool \<Rightarrow> byte list option \<Rightarrow> heap \<Rightarrow> fault \<Rightarrow> bool" where
  "hm_bit_verify_stops md stream os alloc n rand_ok h0 commitment commitment_len path_given file m0 e \<longleftrightarrow>
     (\<exists>h y f. hm_bit_verify_setup stream rand_ok h0 commitment commitment_len path_given file = Some (h, y, f) \<and>
       (setupSHA256_block m0 = Inl e \<or> (\<exists>base_ctx m. setupSHA256_block m0 = Inr (base_ctx, m) \<and>
          region_stops verifier_start verifier_leave (verifier_round md stream os alloc h y) n f base_ctx m e)))"

text \<open>The same for the claims that do not speak of memory: a run on some heap.\<close>

definition hm_bit_verify :: "digest_fn \<Rightarrow> keystream \<Rightarrow> os \<Rightarrow> (nat \<Rightarrow> bool) \<Rightarrow> nat \<Rightarrow> bool \<Rightarrow> UniversalHash \<Rightarrow>
    byte list option \<Rightarrow> nat \<Rightarrow> bool \<Rightarrow> byte list option \<Rightarrow> VerifierThreadState worker list \<Rightarrow> int \<Rightarrow> bool" where
  "hm_bit_verify md stream os alloc n rand_ok h0 commitment commitment_len path_given file threads rc \<longleftrightarrow>
     (\<exists>m0 m1. hm_bit_verify_on md stream os alloc n rand_ok h0 commitment commitment_len path_given file threads rc m0 m1)"

section \<open>The heap of the two regions\<close>

text \<open>A round changes what its thread holds, not where.\<close>

lemma prover_round_blocks:
  "prover_round md stream os env job k st g = Some (Inr (ok, st', g')) \<Longrightarrow> prover_blocks st' = prover_blocks st"
  by (auto simp: prover_round_def prover_blocks_def Let_def split: prod.splits sum.splits option.splits)

lemma verifier_round_blocks:
  "verifier_round md stream os alloc h y k st g = Some (Inr (ok, st', g')) \<Longrightarrow> verifier_blocks st' = verifier_blocks st"
  by (auto simp: verifier_round_def verifier_blocks_def Let_def
      split: prod.splits sum.splits option.splits fault.splits if_splits)

interpretation prover_heap: region_memory prover_start "prover_round md stream os env job" prover_blocks prover_leave
  for md stream os env job
  by unfold_locales (rule prover_start_owns prover_start_stops prover_round_blocks prover_leave_frees; assumption)+

interpretation verifier_heap: region_memory verifier_start "verifier_round md stream os alloc h y" verifier_blocks
  verifier_leave for md stream os alloc h y
proof unfold_locales
  show "f = NoMemory \<and> (\<exists>k. \<not> may_alloc h k)" if "owns h base ps" "verifier_start h (Inl f)" for h base ps f
    using verifier_start_returns that(2) by simp
qed (rule verifier_start_owns verifier_round_blocks verifier_leave_frees; assumption)+

lemma setupSHA256_run:
  assumes "owns h base ps"
  shows "case setupSHA256_block h of Inl f \<Rightarrow> f = NoMemory \<and> (\<exists>k. \<not> may_alloc h k)
    | Inr (p, h') \<Rightarrow> p \<noteq> None \<and> owns h' base (p # ps) \<and> may_alloc h' = may_alloc h"
proof -
  from owns_malloc[OF assms] obtain p h' where m: "malloc h = Inr (p, h')" "owns h' base (p # ps)"
    "may_alloc h' = may_alloc h" by metis
  with malloc_fails[of h h'] show ?thesis by (cases p) (simp_all add: setupSHA256_block_def)
qed

text \<open>A region that returns leaves the heap as it was before base\_ctx was allocated; one that does not
  return lacks memory.\<close>

lemma prover_region_end:
  assumes "omp_run prover_start (prover_round md stream os env job) n NUM_ROUNDS g h s" "owns h base (p # ps)"
    and "mset ws = mset (workers s)"
  shows "\<exists>h'. region_end prover_leave p ws (mem s) = Inr ((), h') \<and> owns h' base ps \<and> may_alloc h' = may_alloc h"
proof -
  from prover_heap.region_releases[OF assms] obtain h1 where
    1: "leave_all prover_leave ws (mem s) = Inr ((), h1)" "owns h1 base (p # ps)" "may_alloc h1 = may_alloc h" by blast
  from owns_free[OF 1(2)] obtain h2 where "free_block p h1 = Inr ((), h2)" "owns h2 base ps" "may_alloc h2 = may_alloc h1"
    by metis
  with 1 show ?thesis by (simp add: region_end_def)
qed

lemma verifier_region_end:
  assumes "omp_run verifier_start (verifier_round md stream os alloc hh y) n NUM_ROUNDS g h s" "owns h base (p # ps)"
    and "mset ws = mset (workers s)"
  shows "\<exists>h'. region_end verifier_leave p ws (mem s) = Inr ((), h') \<and> owns h' base ps \<and> may_alloc h' = may_alloc h"
proof -
  from verifier_heap.region_releases[OF assms] obtain h1 where
    1: "leave_all verifier_leave ws (mem s) = Inr ((), h1)" "owns h1 base (p # ps)" "may_alloc h1 = may_alloc h" by blast
  from owns_free[OF 1(2)] obtain h2 where "free_block p h1 = Inr ((), h2)" "owns h2 base ps" "may_alloc h2 = may_alloc h1"
    by metis
  with 1 show ?thesis by (simp add: region_end_def)
qed

lemma prover_region_stops:
  assumes "region_stops prover_start prover_leave (prover_round md stream os env job) n g p h f" "owns h base (p # ps)"
  shows "f = NoMemory \<and> (\<exists>k. \<not> may_alloc h k)"
  using assms(1) prover_heap.stops_reachable[OF _ assms(2)] prover_region_end[OF _ assms(2)]
  unfolding region_stops_def omp_run_def by (metis Inl_Inr_False)

lemma verifier_region_stops:
  assumes "region_stops verifier_start verifier_leave (verifier_round md stream os alloc hh y) n g p h f" "owns h base (p # ps)"
  shows "f = NoMemory \<and> (\<exists>k. \<not> may_alloc h k)"
  using assms(1) verifier_heap.stops_reachable[OF _ assms(2)] verifier_region_end[OF _ assms(2)]
  unfolding region_stops_def omp_run_def by (metis Inl_Inr_False)

text \<open>The heap after a verification, and the runs of it that do not return.\<close>

lemma verify_heap:
  assumes "hm_bit_verify_on md stream os alloc n rand_ok h0 cm len path_given fl threads rc m0 m1" "owns m0 base ps"
  shows "owns m1 base ps \<and> may_alloc m1 = may_alloc m0"
proof (cases "hm_bit_verify_setup stream rand_ok h0 cm len path_given fl")
  case None
  with assms show ?thesis by (simp add: hm_bit_verify_on_def)
next
  case (Some q)
  obtain h y f where q: "q = (h, y, f)" by (cases q)
  from assms(1) obtain p m s ws where 1: "setupSHA256_block m0 = Inr (p, m)"
    "omp_run verifier_start (verifier_round md stream os alloc h y) n NUM_ROUNDS f m s"
    "mset ws = mset (workers s)" "region_end verifier_leave p ws (mem s) = Inr ((), m1)"
    by (auto simp: hm_bit_verify_on_def Some q)
  have 2: "owns m base (p # ps)" "may_alloc m = may_alloc m0" using setupSHA256_run[OF assms(2)] 1(1) by simp_all
  from verifier_region_end[OF 1(2) 2(1) 1(3)] 1(4) 2(2) show ?thesis by simp
qed

lemma verify_stops:
  assumes "hm_bit_verify_stops md stream os alloc n rand_ok h0 cm len path_given fl m0 e" "owns m0 base ps"
  shows "e = NoMemory \<and> (\<exists>k. \<not> may_alloc m0 k)"
proof -
  from assms(1) obtain h y f where
    "setupSHA256_block m0 = Inl e \<or> (\<exists>p m. setupSHA256_block m0 = Inr (p, m) \<and>
       region_stops verifier_start verifier_leave (verifier_round md stream os alloc h y) n f p m e)"
    by (auto simp: hm_bit_verify_stops_def)
  then show ?thesis
  proof
    assume "setupSHA256_block m0 = Inl e"
    with setupSHA256_run[OF assms(2)] show ?thesis by simp
  next
    assume "\<exists>p m. setupSHA256_block m0 = Inr (p, m) \<and>
       region_stops verifier_start verifier_leave (verifier_round md stream os alloc h y) n f p m e"
    then obtain p m where m: "setupSHA256_block m0 = Inr (p, m)"
      "region_stops verifier_start verifier_leave (verifier_round md stream os alloc h y) n f p m e" by blast
    have "owns m base (p # ps)" "may_alloc m = may_alloc m0" using setupSHA256_run[OF assms(2)] m(1) by simp_all
    with verifier_region_stops[OF m(2)] show ?thesis by metis
  qed
qed

end
