(* ===== verification/ZK_Verifier.thy ===== *)
theory ZK_Verifier
  imports HM_ZK
begin

text \<open>
  The verifier of src/hm\_zk.c as a client of the region of Parallel\_Rounds:
  what hm\_bit\_verify returns, that it is memory safe on every file, and that
  it ends.
\<close>

section \<open>The challenge of one round\<close>

lemma H3_one:
  assumes "H3 md ctx y [a] 1 = Some es"
  obtains e where "es = [e]" "e < 3"
proof -
  have "h3_loop md (md (ctx @ y @ commit_bytes a)) 1 0 0 [] = Some es"
    using assms by (simp add: H3_def Let_def)
  from h3_loop_range[OF this] have "length es = 1" "\<forall>e\<in>set es. e < 3" by simp_all
  with that show ?thesis by (cases es) auto
qed

lemma generate_challenge_range:
  assumes "generate_challenge md ctx a y = Some e"
  shows "e < 3" "H3 md ctx y [a] 1 = Some [e]"
proof -
  from assms obtain es where es: "H3 md ctx y [a] 1 = Some es" "e = hd es"
    by (auto simp: generate_challenge_def)
  from es(1) obtain d where "es = [d]" "d < 3" by (rule H3_one)
  with es show "e < 3" "H3 md ctx y [a] 1 = Some [e]" by simp_all
qed

section \<open>The verifier's region\<close>

text \<open>A record of the proof file that the verifier accepts, whatever its position.\<close>

definition record_accepted :: "digest_fn \<Rightarrow> keystream \<Rightarrow> bool \<Rightarrow> UniversalHash \<Rightarrow> byte list \<Rightarrow> byte list \<Rightarrow> bool" where
  "record_accepted md stream alloc_ok h y bs \<longleftrightarrow>
     (let a = commit_of_bytes (take sizeof_ZkBooCommit bs); z = open_of_bytes (drop sizeof_ZkBooCommit bs) in
      case H3 md (base_context h) y [a] 1 of None \<Rightarrow> False
      | Some es \<Rightarrow> mpc_hm_verify md stream alloc_ok h a z y (es ! 0) = Inr ())"

definition round_accepted :: "digest_fn \<Rightarrow> keystream \<Rightarrow> os \<Rightarrow> (nat \<Rightarrow> bool) \<Rightarrow> UniversalHash \<Rightarrow> byte list \<Rightarrow>
    byte list \<Rightarrow> nat \<Rightarrow> bool" where
  "round_accepted md stream os alloc h y file k \<longleftrightarrow> int proofSize \<le> os (k * proofSize) proofSize \<and>
     (case file_record file k of None \<Rightarrow> False | Some bs \<Rightarrow> record_accepted md stream (alloc k) h y bs)"

definition verifier_ok :: "VerifierThreadState \<Rightarrow> bool" where
  "verifier_ok st \<longleftrightarrow> length (v_buf st) = v_bufSize st \<and> proofSize \<le> v_bufSize st \<and>
     z_ve (v_z st) \<noteq> None \<and> z_ve1 (v_z st) \<noteq> None"

definition wf_hash :: "UniversalHash \<Rightarrow> bool" where
  "wf_hash h \<longleftrightarrow> L_WORDS \<le> length (uh_A h) \<and> uh_b h \<noteq> []"

lemma verifier_start_ok:
  assumes "verifier_start h (Inr ((p, rc), h'))"
  shows "\<exists>st. p = Some st \<and> (rc = 0 \<longrightarrow> verifier_ok st)"
  using verifier_start_state[OF assms] by (auto simp: verifier_ok_def verifier_bufSize_def size_values)

lemma fresh_verifier_ok: "fresh_verifier st \<Longrightarrow> verifier_ok st"
  using verifier_start_ok unfolding fresh_verifier_def by fastforce

lemma wf_verdict:
  assumes "wf_hash h" "wf_record a" "wf_open z" "H3 md ctx y [a] 1 = Some es"
  shows "mpc_hm_verify md stream alloc_ok h a z y (es ! 0) \<noteq> Inl OutOfBounds"
proof -
  from assms(4) obtain e where "es = [e]" "e < 3" by (rule H3_one)
  then show ?thesis
    using mpc_hm_verify_total[of z a e h md stream alloc_ok y] assms(1-3)
    by (auto simp: wf_hash_def wf_record_def split: if_splits)
qed

lemma verifier_round_result:
  assumes h: "wf_hash h" and st: "verifier_ok st"
    and r: "verifier_round md stream os alloc h y k st file = Some r"
  shows "\<exists>st'. r = Inr (round_accepted md stream os alloc h y file k, st', file) \<and> verifier_ok st'"
proof -
  have st': "length (v_buf st) = v_bufSize st" "proofSize \<le> v_bufSize st"
    "z_ve (v_z st) \<noteq> None" "z_ve1 (v_z st) \<noteq> None"
    using st by (simp_all add: verifier_ok_def)
  obtain rc a z buf where rd: "hm_zk_read_proof_round os file (v_buf st) (v_bufSize st) k (v_a st) (v_z st)
      = Inr (rc, a, z, buf)"
    using read_proof_round_eq[where os = os and ?file = "file" and k = k and a = "v_a st", OF st']
    by (auto simp: Let_def split: if_splits)
  define st2 where "st2 = st\<lparr>v_buf := buf, v_a := a, v_z := z\<rparr>"
  have ok: "verifier_ok st2"
    using st' read_round_zero(1-3)[OF rd st'] by (simp add: verifier_ok_def st2_def)
  show ?thesis
  proof (cases "rc = 0")
    case False
    then have "\<not> round_accepted md stream os alloc h y file k"
      using read_round_zero(4)[OF rd st'] by (auto simp: round_accepted_def)
    with False ok r rd show ?thesis by (auto simp: verifier_round_def st2_def)
  next
    case True
    then obtain bs where bs: "file_record file k = Some bs" "int proofSize \<le> os (k * proofSize) proofSize"
      using read_round_zero(4)[OF rd st'] by auto
    note az = read_round_zero(5)[OF rd st' True bs(1)]
    have wf: "wf_record a" "wf_open z" using file_record_wf[OF bs(1)] az by simp_all
    from r True rd obtain es where es: "H3 md (base_context h) y [a] 1 = Some es"
      by (auto simp: verifier_round_def Let_def split: option.splits)
    have acc: "round_accepted md stream os alloc h y file k
        \<longleftrightarrow> mpc_hm_verify md stream (alloc k) h a z y (es ! 0) = Inr ()"
      using bs az es by (simp add: round_accepted_def record_accepted_def Let_def)
    have "r = Inr (mpc_hm_verify md stream (alloc k) h a z y (es ! 0) = Inr (), st2, file)"
      using r True rd es wf_verdict[OF h wf es, of stream "alloc k"]
      by (auto simp: verifier_round_def st2_def Let_def split: sum.splits fault.splits)
    then show ?thesis using acc ok by simp
  qed
qed

interpretation verifier: parallel_rounds verifier_start "verifier_round md stream os alloc h y" NUM_ROUNDS
  verifier_ok "\<lambda>f. f = file \<and> wf_hash h" "round_accepted md stream os alloc h y file" "\<lambda>_ _. True"
  for md stream os alloc h y "file"
proof unfold_locales
  show "\<exists>r. verifier_start h r" for h by (rule start_total)
  show "\<exists>st. p = Some st \<and> (rc = 0 \<longrightarrow> verifier_ok st)" if "verifier_start h (Inr ((p, rc), h'))" for h p rc h'
    by (rule verifier_start_ok[OF that])
  show "\<exists>ok st' g'. r = Inr (ok, st', g') \<and> verifier_ok st' \<and> (g' = file \<and> wf_hash h) \<and>
      ok = round_accepted md stream os alloc h y file k \<and> (ok \<longrightarrow> True) \<and> (\<forall>j. j \<noteq> k \<longrightarrow> True \<longrightarrow> True)"
    if "verifier_ok st" "g = file \<and> wf_hash h" "verifier_round md stream os alloc h y k st g = Some r"
    for k st g r
    using verifier_round_result[of h st md stream os alloc y k g r] that by blast
qed

text \<open>The setup reads a hash of the declared size.\<close>

lemma verify_setup_hash:
  assumes "hm_bit_verify_setup stream rand_ok h0 (Some c) len path_given fl = Some (h, y, f)"
    and "len = length c"
  shows "wf_hash h" "fl = Some f" "length y = 32"
    "h = h0\<lparr>keyA := take 16 c, uh_b := take MSG_BYTES (drop 16 c),
            uh_A := mpc_hm_expand_matrix stream A_WORDS (take 16 c)\<rparr>"
    "y = take SHA256_DIGEST_LENGTH (drop (16 + MSG_BYTES) c)"
  using assms
  by (auto simp: hm_bit_verify_setup_def hm_zk_read_commitment_def wf_hash_def Let_def param_values
      split: if_splits option.splits)

section \<open>What hm\_bit\_verify decides\<close>

lemma verify_run_region:
  assumes "hm_bit_verify md stream os alloc n rand_ok h0 cm len path_given fl threads rc"
    and "hm_bit_verify_setup stream rand_ok h0 cm len path_given fl = Some (h, y, f)"
  obtains m s where "omp_run verifier_start (verifier_round md stream os alloc h y) n NUM_ROUNDS f m s"
    "threads = workers s" "rc = (if err s then -1 else 0)"
  using assms by (auto simp: hm_bit_verify_def hm_bit_verify_on_def)

lemma verify_run_none:
  "hm_bit_verify md stream os alloc n rand_ok h0 cm len path_given fl threads rc \<Longrightarrow>
   hm_bit_verify_setup stream rand_ok h0 cm len path_given fl = None \<Longrightarrow> threads = [] \<and> rc = -1"
  by (auto simp: hm_bit_verify_def hm_bit_verify_on_def)

lemma verify_run_result:
  assumes "hm_bit_verify md stream os alloc n rand_ok h0 (Some c) (length c) path_given fl threads rc"
    and "hm_bit_verify_setup stream rand_ok h0 (Some c) (length c) path_given fl = Some (h, y, f)"
  shows "rc = 0 \<longleftrightarrow> \<not> list_ex is_broken threads \<and> (\<forall>k<NUM_ROUNDS. round_accepted md stream os alloc h y f k)"
    "rc = 0 \<or> rc = -1"
proof -
  obtain m s where s: "omp_run verifier_start (verifier_round md stream os alloc h y) n NUM_ROUNDS f m s"
    "threads = workers s" "rc = (if err s then -1 else 0)" by (rule verify_run_region[OF assms])
  have "f = f \<and> wf_hash h" using verify_setup_hash(1)[OF assms(2) refl] by simp
  from verifier.join_result(3)[OF s(1) this] s(2,3)
  show "rc = 0 \<longleftrightarrow> \<not> list_ex is_broken threads \<and> (\<forall>k<NUM_ROUNDS. round_accepted md stream os alloc h y f k)"
    "rc = 0 \<or> rc = -1" by auto
qed

lemma verify_run_cases:
  assumes "hm_bit_verify md stream os alloc n rand_ok h0 (Some c) (length c) path_given fl threads rc"
  shows "rc = 0 \<or> rc = -1" "rc = 0 \<longleftrightarrow> (\<exists>h y f.
      hm_bit_verify_setup stream rand_ok h0 (Some c) (length c) path_given fl = Some (h, y, f) \<and>
      \<not> list_ex is_broken threads \<and> (\<forall>k<NUM_ROUNDS. round_accepted md stream os alloc h y f k))"
proof -
  let ?S = "hm_bit_verify_setup stream rand_ok h0 (Some c) (length c) path_given fl"
  show "rc = 0 \<or> rc = -1"
    using verify_run_none[OF assms] verify_run_result(2)[OF assms] by (cases ?S) auto
  show "rc = 0 \<longleftrightarrow> (\<exists>h y f. ?S = Some (h, y, f) \<and>
      \<not> list_ex is_broken threads \<and> (\<forall>k<NUM_ROUNDS. round_accepted md stream os alloc h y f k))"
  proof (cases ?S)
    case None
    then show ?thesis using verify_run_none[OF assms] by simp
  next
    case (Some p)
    then show ?thesis using verify_run_result(1)[OF assms] by (cases p) simp
  qed
qed

text \<open>The challenge loop returns for every commitment record.\<close>

definition challenge_returns :: "digest_fn \<Rightarrow> bool" where
  "challenge_returns md \<longleftrightarrow> (\<forall>ctx y a. wf_record a \<longrightarrow> H3 md ctx y [a] 1 \<noteq> None)"

lemma verifier_round_None:
  assumes "verifier_round md stream os alloc h y k st f = None" and "verifier_ok st"
  shows "\<exists>bs. file_record f k = Some bs \<and>
    H3 md (base_context h) y [commit_of_bytes (take sizeof_ZkBooCommit bs)] 1 = None"
proof -
  have st': "length (v_buf st) = v_bufSize st" "proofSize \<le> v_bufSize st"
    "z_ve (v_z st) \<noteq> None" "z_ve1 (v_z st) \<noteq> None"
    using assms(2) by (simp_all add: verifier_ok_def)
  from assms(1) obtain a z buf where rd: "hm_zk_read_proof_round os f (v_buf st) (v_bufSize st) k (v_a st) (v_z st) = Inr (0, a, z, buf)"
    and n: "H3 md (base_context h) y [a] 1 = None"
    by (auto simp: verifier_round_def Let_def split: sum.splits option.splits fault.splits if_splits)
  obtain bs where bs: "file_record f k = Some bs" using read_round_zero(4)[OF rd st'] by auto
  with n read_round_zero(5)[OF rd st' refl bs] show ?thesis by auto
qed

lemma verifier_round_returns:
  assumes "challenge_returns md" and "verifier_ok st"
  shows "verifier_round md stream os alloc h y k st f \<noteq> None"
proof
  assume "verifier_round md stream os alloc h y k st f = None"
  from verifier_round_None[OF this assms(2)] obtain bs where bs: "file_record f k = Some bs"
    "H3 md (base_context h) y [commit_of_bytes (take sizeof_ZkBooCommit bs)] 1 = None" by blast
  have "H3 md (base_context h) y [commit_of_bytes (take sizeof_ZkBooCommit bs)] 1 \<noteq> None"
    using file_record_wf(1)[OF bs(1)] assms(1) unfolding challenge_returns_def by blast
  with bs(2) show False by contradiction
qed

text \<open>A digest whose first two bits are 0 makes the loop return challenge 0.\<close>

lemma h3_first_pair:
  assumes "\<not> bit (md (ctx @ y @ commit_bytes a) ! 0) 0" "\<not> bit (md (ctx @ y @ commit_bytes a) ! 0) 1"
  shows "H3 md ctx y [a] 1 = Some [0]"
proof -
  have "pair_challenge (md (ctx @ y @ commit_bytes a)) 0 = Some 0"
    using assms by (simp add: pair_challenge_def digest_bit_def)
  from h3_loop_first[OF this, of md] show ?thesis by (simp add: H3_def Let_def)
qed

text \<open>SHA-256 on messages of the length of the opening vector, constant on all others.\<close>

definition demo_md :: digest_fn where
  "demo_md m = (if length m = L_BYTES then sha256 m else replicate 32 0)"

text \<open>What the library documents of its digest function: 32 bytes, and SHA-256 on the vector.\<close>

definition computes_sha256 :: "digest_fn \<Rightarrow> bool" where
  "computes_sha256 md \<longleftrightarrow> (\<forall>m. length (md m) = 32) \<and> (\<forall>m. length m = L_BYTES \<longrightarrow> md m = sha256 m)"

lemma constant_returns: "challenge_returns (\<lambda>_. replicate 32 0)"
  unfolding challenge_returns_def by (subst h3_first_pair) simp_all

lemma demo_md_ok: "computes_sha256 demo_md" "challenge_returns demo_md"
proof -
  show "computes_sha256 demo_md" by (simp add: computes_sha256_def demo_md_def)
  have "demo_md (ctx @ y @ commit_bytes a) = replicate 32 0" if "wf_record a" for ctx y a
    using length_commit_bytes[OF that] by (simp add: demo_md_def size_values param_values)
  then show "challenge_returns demo_md"
    unfolding challenge_returns_def by (intro allI impI, subst h3_first_pair) simp_all
qed

text \<open>On a heap on which every request succeeds the function has a run with one thread.\<close>

lemma verify_run_exists_on:
  assumes "hm_bit_verify_setup stream rand_ok h0 (Some c) (length c) path_given fl = Some (h, y, f)"
    and "challenge_returns md" and m0: "heap_ok m0" "\<forall>k. may_alloc m0 k"
  shows "\<exists>threads rc m1. hm_bit_verify_on md stream os alloc 1 rand_ok h0 (Some c) (length c) path_given fl threads rc m0 m1
     \<and> \<not> list_ex is_broken threads \<and> length threads = 1"
proof -
  let ?body = "verifier_round md stream os alloc h y"
  have o: "owns m0 (set (live m0)) []" by (rule owns_live[OF m0(1)])
  obtain p m where p: "setupSHA256_block m0 = Inr (p, m)" "owns m (set (live m0)) [p]" "may_alloc m = may_alloc m0"
    using setupSHA256_run[OF o] m0(2) by (cases "setupSHA256_block m0") auto
  obtain st m' where st: "verifier_start m (Inr ((Some st, 0), m'))" using verifier_starts[of m] p(3) m0(2) by metis
  have g: "f = f \<and> wf_hash h" using verify_setup_hash(1)[OF assms(1) refl] by simp
  from verifier.good_run_exists[OF st g verifier_round_returns[OF assms(2)], of stream os alloc y]
  obtain s where s: "omp_run verifier_start ?body 1 NUM_ROUNDS f m s" "\<not> list_ex is_broken (workers s)" by blast
  from verifier_region_end[OF s(1) p(2) refl] obtain m1 where
    e: "region_end verifier_leave p (workers s) (mem s) = Inr ((), m1)" by blast
  have "length (workers s) = 1" using s(1) same_team by (metis omp_run_def rtranclp_imp_relpowp)
  moreover have "hm_bit_verify_on md stream os alloc 1 rand_ok h0 (Some c) (length c) path_given fl (workers s)
      (if err s then -1 else 0) m0 m1"
    unfolding hm_bit_verify_on_def assms(1) option.case prod.case using s(1) p(1) e by blast
  ultimately show ?thesis using s(2) by blast
qed

lemma verify_run_exists:
  assumes "hm_bit_verify_setup stream rand_ok h0 (Some c) (length c) path_given fl = Some (h, y, f)"
    and "challenge_returns md"
  shows "\<exists>threads rc. hm_bit_verify md stream os alloc 1 rand_ok h0 (Some c) (length c) path_given fl threads rc
     \<and> \<not> list_ex is_broken threads"
  using verify_run_exists_on[OF assms, of "\<lparr>live = [], requests = 0, may_alloc = (\<lambda>_. True)\<rparr>" os alloc]
  unfolding hm_bit_verify_def by (auto simp: heap_ok_def)

text \<open>C3: What hm\_bit\_verify decides.  Every run of the function, with any number of threads, any
  assignment of rounds to threads and any interleaving, returns 0 or -1; it returns 0 exactly when
  the commitment has the right length and the file could be opened, every thread was initialised, and
  each of the 136 records of the file is complete and passes the checks of mpc\_hm\_verify for the
  challenge that its own commitment hashes to.  The result does not depend on the schedule.\<close>

theorem hm_bit_verify_iff:
  assumes "hm_bit_verify md stream os alloc n rand_ok h0 (Some c) (length c) path_given fl threads rc"
  shows "(rc = 0 \<or> rc = -1) \<and> (rc = 0 \<longleftrightarrow> (\<exists>h y f.
      hm_bit_verify_setup stream rand_ok h0 (Some c) (length c) path_given fl = Some (h, y, f) \<and>
      \<not> list_ex is_broken threads \<and> (\<forall>k<NUM_ROUNDS. round_accepted md stream os alloc h y f k)))"
  using verify_run_cases[OF assms] by blast

definition demo_commitment :: "byte list" where
  "demo_commitment = replicate 49 1"

definition demo_verify_hash :: UniversalHash where
  "demo_verify_hash = demo_hash\<lparr>keyA := replicate 16 1, uh_b := [1],
     uh_A := mpc_hm_expand_matrix (\<lambda>_ _. 0) A_WORDS (replicate 16 1)\<rparr>"

lemma demo_setup:
  "hm_bit_verify_setup (\<lambda>_ _. 0) True demo_hash (Some demo_commitment) (length demo_commitment) True (Some f) =
     Some (demo_verify_hash, replicate 32 1, f)"
  by (simp add: hm_bit_verify_setup_def hm_zk_read_commitment_def test_randomness_def param_values
      demo_hash_def demo_commitment_def demo_verify_hash_def)

lemma hm_bit_verify_iff_witness:
  "\<exists>threads rc. hm_bit_verify (\<lambda>_. replicate 32 0) (\<lambda>_ _. 0) (\<lambda>_ n. int n) (\<lambda>_. True) 1 True demo_hash
     (Some demo_commitment) (length demo_commitment) True (Some []) threads rc \<and> rc = -1"
proof -
  obtain threads rc where r: "hm_bit_verify (\<lambda>_. replicate 32 0) (\<lambda>_ _. 0) (\<lambda>_ n. int n) (\<lambda>_. True) 1 True
      demo_hash (Some demo_commitment) (length demo_commitment) True (Some []) threads rc"
    using verify_run_exists[OF demo_setup constant_returns] by blast
  have "\<not> round_accepted (\<lambda>_. replicate 32 0) (\<lambda>_ _. 0) (\<lambda>_ n. int n) (\<lambda>_. True) h y [] 0" for h y
    by (simp add: round_accepted_def file_record_def size_values)
  moreover have "0 < NUM_ROUNDS" by (simp add: param_values)
  ultimately have "rc \<noteq> 0" using hm_bit_verify_iff[OF r] by (metis Pair_inject option.inject demo_setup)
  with hm_bit_verify_iff[OF r] r show ?thesis by blast
qed

text \<open>C12: hm\_bit\_verify is memory safe on every proof file.  In no reachable state of its parallel
  region, whatever the file holds, whatever reads and allocations fail and whatever threads fail to
  start, has a
  round accessed memory outside its buffers or run on a thread that was not initialised; the file
  is not changed.\<close>

theorem hm_bit_verify_safe:
  assumes "hm_bit_verify_setup stream rand_ok h0 (Some c) (length c) path_given fl = Some (h, y, f)"
    and "(omp_step verifier_start (verifier_round md stream os alloc h y))\<^sup>*\<^sup>* (team_start n NUM_ROUNDS f m) s"
  shows "\<not> undefined_access s \<and> shared s = f"
proof -
  have "f = f \<and> wf_hash h" using verify_setup_hash(1)[OF assms(1) refl] by simp
  from round_invD(1,3)[OF verifier.inv_reachable[OF assms(2) this]] show ?thesis by simp
qed

lemma hm_bit_verify_safe_witness:
  "\<not> undefined_access ((team_start 2 NUM_ROUNDS [1, 2, 3] \<lparr>live = [7], requests = 9, may_alloc = (\<lambda>_. False)\<rparr>
        :: (VerifierThreadState, byte list) team)
       \<lparr>workers := [Broken zero_verifier, Unstarted], err := True,
        mem := \<lparr>live = [7], requests = 10, may_alloc = (\<lambda>_. False)\<rparr>\<rparr>)"
proof -
  let ?h = "\<lparr>live = [7], requests = 9, may_alloc = (\<lambda>_. False)\<rparr>" and ?h' = "\<lparr>live = [7], requests = 10, may_alloc = (\<lambda>_. False)\<rparr>"
  let ?s0 = "team_start 2 NUM_ROUNDS [1, 2, 3] ?h :: (VerifierThreadState, byte list) team"
    and ?body = "verifier_round (take 32) (\<lambda>_ _. 0) (\<lambda>_ n. int n) (\<lambda>_. True) demo_verify_hash (replicate 32 1)"
  have "verifier_thread_state_init zero_view zero_view (replicate verifier_bufSize 0) True verifier_bufSize ?h
      = Inr ((Some zero_verifier, -1), ?h')"
    by (simp add: verifier_thread_state_init_def alloc_or_fail_def malloc_def bnd_def ret_def Let_def
        verifier_thread_state_cleanup_def free_if_def zero_verifier_def)
  then have "verifier_start ?h (Inr ((Some zero_verifier, -1), ?h'))"
    unfolding verifier_start_def by (metis length_replicate wf_zero_view)
  then have "omp_step verifier_start ?body ?s0 (?s0\<lparr>workers := [Broken zero_verifier, Unstarted], err := True, mem := ?h'\<rparr>)"
    using omp_step.init_fail[where i = 0 and s = ?s0 and start = verifier_start and body = ?body
        and st = zero_verifier and rc = "-1" and h = ?h']
    by (simp add: team_start_def numeral_2_eq_2)
  then have "(omp_step verifier_start ?body)\<^sup>*\<^sup>* ?s0 (?s0\<lparr>workers := [Broken zero_verifier, Unstarted], err := True, mem := ?h'\<rparr>)"
    by (rule r_into_rtranclp)
  from hm_bit_verify_safe[OF demo_setup this] show ?thesis by simp
qed

text \<open>C13: hm\_bit\_verify ends.  When the challenge loop of every round returns, no reachable state of the
  region is stuck before its barrier, and every execution of n threads takes at most n + 272 steps, so
  every schedule reaches the barrier.\<close>

theorem hm_bit_verify_terminates:
  assumes "hm_bit_verify_setup stream rand_ok h0 (Some c) (length c) path_given fl = Some (h, y, f)"
    and "challenge_returns md" and "0 < n"
    and "(omp_step verifier_start (verifier_round md stream os alloc h y) ^^ m) (team_start n NUM_ROUNDS f m0) s"
  shows "m \<le> n + 272 \<and> (joined s \<or> (\<exists>t. omp_step verifier_start (verifier_round md stream os alloc h y) s t))"
proof -
  have g: "f = f \<and> wf_hash h" using verify_setup_hash(1)[OF assms(1) refl] by simp
  have "workers s \<noteq> []" using same_team[OF assms(4)] assms(3) by auto
  moreover have "m + work_left s \<le> n + 2 * NUM_ROUNDS" by (rule verifier.run_length[OF assms(4) g])
  moreover have "\<not> thread_stops verifier_start s e" for e using verifier_start_returns by (simp add: thread_stops_def)
  ultimately show ?thesis
    using verifier.progress[OF verifier.inv_reachable[OF relpowp_imp_rtranclp[OF assms(4)] g] _ _
        verifier_round_returns[OF assms(2)]]
    by (auto simp: param_values)
qed

lemma hm_bit_verify_terminates_witness:
  "joined (team_start 1 NUM_ROUNDS [] \<lparr>live = [], requests = 0, may_alloc = even\<rparr> :: (VerifierThreadState, byte list) team) \<or>
   (\<exists>t. omp_step verifier_start (verifier_round (\<lambda>_. replicate 32 0) (\<lambda>_ _. 0) (\<lambda>_ n. int n) (\<lambda>_. True)
       demo_verify_hash (replicate 32 1)) (team_start 1 NUM_ROUNDS [] \<lparr>live = [], requests = 0, may_alloc = even\<rparr>) t)"
  using hm_bit_verify_terminates[OF demo_setup[of "[]"] constant_returns, where n = 1 and m = 0
      and os = "\<lambda>_ n. int n" and alloc = "\<lambda>_. True"
      and ?s = "team_start 1 NUM_ROUNDS [] \<lparr>live = [], requests = 0, may_alloc = even\<rparr>"
      and ?m0.0 = "\<lparr>live = [], requests = 0, may_alloc = even\<rparr>"] by auto

text \<open>A file of equal records has the record at each position.\<close>

section \<open>The serial verifier\<close>

text \<open>The function compiled without OpenMP, on a thread state st: the specification of the region.\<close>

definition hm_bit_verify_serial :: "digest_fn \<Rightarrow> keystream \<Rightarrow> os \<Rightarrow> (nat \<Rightarrow> bool) \<Rightarrow> bool \<Rightarrow> UniversalHash \<Rightarrow>
    byte list option \<Rightarrow> nat \<Rightarrow> bool \<Rightarrow> byte list option \<Rightarrow> VerifierThreadState \<Rightarrow> (fault + int) option" where
  "hm_bit_verify_serial md stream os alloc rand_ok h0 commitment commitment_len path_given fl st =
     (case hm_bit_verify_setup stream rand_ok h0 commitment commitment_len path_given fl of
        None \<Rightarrow> Some (Inr (-1))
      | Some (h, y, f) \<Rightarrow>
        (case serial_rounds (verifier_round md stream os alloc h y) [0..<NUM_ROUNDS] st f False of
           None \<Rightarrow> None
         | Some (Inl e) \<Rightarrow> Some (Inl e)
         | Some (Inr (e, st, f)) \<Rightarrow> Some (Inr (if e then -1 else 0))))"

text \<open>C6: The parallel verifier refines the serial one.  Whatever the number of threads, the assignment
  of rounds and the interleaving, a run of hm\_bit\_verify in which every thread was initialised
  returns what one thread returns that takes the 136 rounds in order.  There is one exception: a
  thread that takes the rounds in order may be caught in the challenge loop of some record, where the
  parallel run returns -1 because another round failed first and the record was skipped.\<close>

theorem hm_bit_verify_refines_serial:
  assumes "hm_bit_verify md stream os alloc n rand_ok h0 (Some c) (length c) path_given fl threads rc"
    and "\<not> list_ex is_broken threads" and "fresh_verifier st"
  shows "hm_bit_verify_serial md stream os alloc rand_ok h0 (Some c) (length c) path_given fl st = Some (Inr rc) \<or>
    hm_bit_verify_serial md stream os alloc rand_ok h0 (Some c) (length c) path_given fl st = None \<and> rc = -1 \<and>
    (\<exists>h y f k bs. hm_bit_verify_setup stream rand_ok h0 (Some c) (length c) path_given fl = Some (h, y, f) \<and>
       k < NUM_ROUNDS \<and> file_record f k = Some bs \<and>
       H3 md (base_context h) y [commit_of_bytes (take sizeof_ZkBooCommit bs)] 1 = None)"
proof (cases "hm_bit_verify_setup stream rand_ok h0 (Some c) (length c) path_given fl")
  case None
  with verify_run_none[OF assms(1)] show ?thesis by (simp add: hm_bit_verify_serial_def)
next
  case (Some p)
  obtain h y f where p: "p = (h, y, f)" by (cases p)
  let ?body = "verifier_round md stream os alloc h y"
  obtain m s where s: "omp_run verifier_start ?body n NUM_ROUNDS f m s"
    "threads = workers s" "rc = (if err s then -1 else 0)" by (rule verify_run_region[OF assms(1) Some[unfolded p]])
  have g: "f = f \<and> wf_hash h" using verify_setup_hash(1)[OF Some[unfolded p] refl] by simp
  have st: "verifier_ok st" by (rule fresh_verifier_ok[OF assms(3)])
  show ?thesis
  proof (cases "serial_rounds ?body [0..<NUM_ROUNDS] st f False")
    case (Some r)
    from verifier.refines_serial[OF s(1) g _ st Some] assms(2) s(2,3) Some \<open>hm_bit_verify_setup _ _ _ _ _ _ _ = _\<close>
    show ?thesis by (auto simp: hm_bit_verify_serial_def p)
  next
    case None
    have "\<exists>k bs. k < NUM_ROUNDS \<and> file_record f k = Some bs \<and>
        H3 md (base_context h) y [commit_of_bytes (take sizeof_ZkBooCommit bs)] 1 = None"
    proof (rule ccontr)
      assume no: "\<not> ?thesis"
      have "serial_rounds ?body [0..<NUM_ROUNDS] st f False \<noteq> None"
        by (rule verifier.serial_returns[OF _ st g]) (use no verifier_round_None in fastforce)+
      with None show False by simp
    qed
    then obtain k bs where k: "k < NUM_ROUNDS" "file_record f k = Some bs"
      "H3 md (base_context h) y [commit_of_bytes (take sizeof_ZkBooCommit bs)] 1 = None" by blast
    then have "\<not> round_accepted md stream os alloc h y f k"
      by (simp add: round_accepted_def record_accepted_def Let_def)
    then have "rc = -1" using verify_run_result[OF assms(1) Some[unfolded p]] k(1) by auto
    with k None Some show ?thesis by (auto simp: hm_bit_verify_serial_def p)
  qed
qed

lemma hm_bit_verify_refines_serial_witness:
  "\<exists>st. hm_bit_verify_serial (\<lambda>_. replicate 32 0) (\<lambda>_ _. 0) (\<lambda>_ n. int n) (\<lambda>_. True) True demo_hash
     (Some demo_commitment) (length demo_commitment) True (Some []) st = Some (Inr (-1))"
proof -
  obtain st where st: "fresh_verifier st" using fresh_verifier_exists by blast
  have s: "\<exists>h y. hm_bit_verify_setup (\<lambda>_ _. 0) True demo_hash (Some demo_commitment) (length demo_commitment) True
      (Some []) = Some (h, y, [])"
    by (simp add: hm_bit_verify_setup_def hm_zk_read_commitment_def test_randomness_def demo_commitment_def
        param_values)
  then obtain h y where s: "hm_bit_verify_setup (\<lambda>_ _. 0) True demo_hash (Some demo_commitment)
      (length demo_commitment) True (Some []) = Some (h, y, [])" by blast
  from verify_run_exists[OF s constant_returns, of "\<lambda>_ n. int n" "\<lambda>_. True"] obtain threads rc where
    r: "hm_bit_verify (\<lambda>_. replicate 32 0) (\<lambda>_ _. 0) (\<lambda>_ n. int n) (\<lambda>_. True) 1 True demo_hash
      (Some demo_commitment) (length demo_commitment) True (Some []) threads rc" "\<not> list_ex is_broken threads" by blast
  have "\<not> round_accepted (\<lambda>_. replicate 32 0) (\<lambda>_ _. 0) (\<lambda>_ n. int n) (\<lambda>_. True) h y [] 0"
    by (simp add: round_accepted_def file_record_def size_values)
  moreover have "0 < NUM_ROUNDS" by (simp add: param_values)
  ultimately have "rc = -1" using verify_run_result[OF r(1) s] by blast
  have "\<not> (\<exists>h y f k bs. hm_bit_verify_setup (\<lambda>_ _. 0) True demo_hash (Some demo_commitment) (length demo_commitment) True
      (Some []) = Some (h, y, f) \<and> k < NUM_ROUNDS \<and> file_record f k = Some bs \<and>
       H3 (\<lambda>_. replicate 32 0) (base_context h) y [commit_of_bytes (take sizeof_ZkBooCommit bs)] 1 = None)"
    using s by (auto simp: file_record_def size_values)
  with hm_bit_verify_refines_serial[OF r st] \<open>rc = -1\<close> show ?thesis by blast
qed

section \<open>Repeated records\<close>

lemma file_record_replicate:
  assumes "length bs = proofSize" "k < n"
  shows "file_record (concat (replicate n bs)) k = Some bs"
proof -
  have "take proofSize (drop (k * proofSize) (concat (replicate n bs))) = bs"
    using assms(2)
  proof (induction n arbitrary: k)
    case (Suc n)
    then show ?case using assms(1) by (cases k) (simp_all add: add.commute[of proofSize])
  qed simp
  then show ?thesis using assms(1) by (simp add: file_record_def)
qed

end
