(* ===== verification/ZK_Protocol.thy ===== *)
theory ZK_Protocol
  imports ZK_Verifier
begin

unbundle bit_operations_syntax

text \<open>
  The prover of src/hm\_zk.c and the protocol from end to end: what
  hm\_bit\_commit allocates, publishes and writes, that the proof of a run that
  succeeded is accepted, and what the proof does not bind.
\<close>

section \<open>The prover's region\<close>

definition prover_ok :: "ProverThreadState \<Rightarrow> bool" where
  "prover_ok st \<longleftrightarrow> (\<forall>e<3. wf_view (sel3 (views st) e)) \<and> length (p_buf st) = p_bufSize st \<and>
     p_bufSize st = proofSize"

text \<open>Buffers that RAND\_bytes or the stack provide have their declared sizes.\<close>

definition env_ok :: "commit_env \<Rightarrow> bool" where
  "env_ok env \<longleftrightarrow>
     (case rand_r env of None \<Rightarrow> True | Some rnd \<Rightarrow> length rnd = 4 * L_WORDS) \<and>
     length (rand_keys env) = NUM_ROUNDS * 3 * 16 \<and> length (rand_keyH env) = 16 \<and>
     length (rand_rs env) = NUM_ROUNDS * 3 * 4 \<and>
     (\<forall>k. case rand_shares env k of (rnd0, rnd1, rndm) \<Rightarrow> length rnd0 = 4 * L_WORDS \<and> length rnd1 = 4 * L_WORDS) \<and>
     length (uh_b (old_hash env)) = MSG_BYTES \<and> length (old_block env) = commitment_size \<and>
     (\<forall>k. length (a_y2p (old_record env k)) = MSG_WORDS)"

definition job_ok :: "digest_fn \<Rightarrow> commit_env \<Rightarrow> commit_job \<Rightarrow> bool" where
  "job_ok md env job \<longleftrightarrow> computes_sha256 md \<and> env_ok env \<and> wf_hash (job_h job) \<and> normal_rvec (job_r job) \<and>
     (\<exists>v. load_u32_le (job_msg job) = of_bool v \<and> hash_commits (job_h job) (job_r job) v) \<and>
     (\<forall>k<NUM_ROUNDS. \<forall>e<3. length (sel3 (job_keys job ! k) e) = 16 \<and> length (sel3 (job_rs job ! k) e) = 4) \<and>
     job_ctx job = base_context (job_h job) \<and> job_digest job = sha256 (rvec_msg (job_r job))"

definition record_written :: "digest_fn \<Rightarrow> keystream \<Rightarrow> commit_job \<Rightarrow> nat \<Rightarrow> byte list \<Rightarrow> bool" where
  "record_written md stream job k file \<longleftrightarrow> (\<exists>bs. file_record file k = Some bs \<and>
     record_accepted md stream True (job_h job) (job_digest job) bs)"

lemma record_writtenD:
  assumes "record_written md stream job k file"
  shows "\<exists>bs. length bs = proofSize \<and> record_accepted md stream True (job_h job) (job_digest job) bs"
proof -
  obtain bs where "file_record file k = Some bs" "record_accepted md stream True (job_h job) (job_digest job) bs"
    using assms by (auto simp: record_written_def)
  then show ?thesis by (auto simp: file_record_def Let_def split: if_splits intro!: exI[of _ bs])
qed

lemma prover_start_ok:
  assumes "prover_start h (Inr ((p, rc), h'))"
  shows "\<exists>st. p = Some st \<and> (rc = 0 \<longrightarrow> prover_ok st)"
  using prover_start_state[OF assms] by (auto simp: prover_ok_def)

lemma hash_views_eq:
  "hash_views md ctx keys rs vs a = a\<lparr>a_h := zip3 (\<lambda>k w. H_view md k (fst w) (snd w)) keys (zip3 Pair vs rs)\<rparr>"
  by (simp add: hash_views_def Let_def HH_eq zip3_def)

lemma record_accepted_bytes:
  assumes "wf_record a" "wf_open z" "H3 md (base_context h) y [a] 1 = Some [e]"
    and "mpc_hm_verify md stream True h a z y e = Inr ()"
  shows "record_accepted md stream True h y (record_bytes a z)"
  using assms record_of_bytes_inverse[OF assms(1,2)] by (simp add: record_accepted_def Let_def)

text \<open>The commitment, views and answers of one honest round.\<close>

lemma round_run_honest:
  assumes job: "job_ok md env job" and st: "prover_ok st" and k: "k < NUM_ROUNDS"
    and sh: "share_secrets rnd0 rnd1 rndm (job_r job) (job_msg job) = (rs3, ms)" "rand_shares env k = (rnd0, rnd1, rndm)"
  obtains vs a' a where
    "mpc_hm_prove (views st) (old_record env k) (generate_randomness stream (job_keys job ! k)) (job_h job) rs3 ms
       = Inr (vs, a')"
    "a = hash_views md [] (job_keys job ! k) (job_rs job ! k) vs a'" "wf_record a"
    "\<And>e. e < 3 \<Longrightarrow> wf_view (sel3 vs e)"
    "\<And>e. e < 3 \<Longrightarrow> wf_open (zk_open e (job_keys job ! k) (job_rs job ! k) vs)"
    "\<And>e. e < 3 \<Longrightarrow> mpc_hm_verify md stream True (job_h job) a (zk_open e (job_keys job ! k) (job_rs job ! k) vs)
       (job_digest job) e = Inr ()"
proof -
  let ?keys = "job_keys job ! k" and ?rs = "job_rs job ! k"
  from job obtain v where v: "load_u32_le (job_msg job) = of_bool v" "hash_commits (job_h job) (job_r job) v"
    by (auto simp: job_ok_def)
  have env: "length rnd0 = 4 * L_WORDS" "length rnd1 = 4 * L_WORDS" "length (a_y2p (old_record env k)) = MSG_WORDS"
    using job sh(2) by (auto simp: job_ok_def env_ok_def dest: spec[of _ k])
  have r: "normal_rvec (job_r job)" and h: "L_WORDS \<le> length (uh_A (job_h job))" "uh_b (job_h job) \<noteq> []"
    using job by (simp_all add: job_ok_def wf_hash_def)
  have len: "length (sel3 ?keys e) = 16" "length (sel3 ?rs e) = 4" if "e < 3" for e
    using job k that by (simp_all add: job_ok_def)
  have s: "rs3 = share_rvec rnd0 rnd1 (job_r job)" "ms = share_msg rndm (job_msg job)"
    using sh(1) by (simp_all add: share_secrets_def)
  note wfs = share_rvec_facts[OF r env(1,2), folded s(1)]
  have ms: "ms = [ms ! 0]" "xor3 (ms ! 0) = of_bool v"
    using share_msg_facts[of rndm "job_msg job"] v(1) unfolding s(2)
    by (simp_all add: param_values length_Suc_conv) (metis nth_Cons_0)
  have bufs: "prover_buffers (generate_randomness stream ?keys) (views st)"
    using st by (simp add: prover_buffers_def generate_randomness_def prover_ok_def wf_view_def)
  have c: "hash_commits (job_h job) (rvec_xor3 rs3) v" using v(2) wfs(2) by simp
  show ?thesis
  proof (rule mpc_hm_prove_result[OF h wfs(1) bufs ms c env(3)])
    fix vs a'
    assume run: "mpc_hm_prove (views st) (old_record env k) (generate_randomness stream ?keys) (job_h job) rs3 ms
        = Inr (vs, a')" and wc: "wf_commit a'"
      and x: "\<And>e. e < 3 \<Longrightarrow> view_x (sel3 vs e) = sel3 rs3 e"
      and y: "\<And>e. e < 3 \<Longrightarrow> length (view_y (sel3 vs e)) = ySize"
      and m: "\<And>e. e < 3 \<Longrightarrow> view_msg (sel3 vs e) = store_u32_le (sel3 (ms ! 0) e) @ drop 4 (view_msg (sel3 (views st) e))"
      and ver: "\<And>md hs rs e. (\<And>i. i < 3 \<Longrightarrow> sel3 hs i = H_view md (sel3 ?keys i) (sel3 vs i) (sel3 rs i)) \<Longrightarrow>
         e < 3 \<Longrightarrow> mpc_hm_verify md stream True (job_h job) (a'\<lparr>a_h := hs\<rparr>) (zk_open e ?keys rs vs)
           (sha256 (rvec_msg (rvec_xor3 rs3))) e = Inr ()"
    have wv: "wf_view (sel3 vs e)" if "e < 3" for e
      using x[OF that] y[OF that] m[OF that] wfs(1) st that
      by (simp add: wf_view_def wf_shares_def prover_ok_def param_values)
    have "length (H_view md kk w r') = 32" for kk w r'
      using job by (simp add: job_ok_def computes_sha256_def H_view_input)
    then have wr: "wf_record (hash_views md [] ?keys ?rs vs a')"
      using wc by (simp add: wf_record_def hash_views_eq wf_commit_def)
    have wo: "wf_open (zk_open e ?keys ?rs vs)" if "e < 3" for e
      using that wv len by (simp add: wf_open_def zk_open_def)
    have "mpc_hm_verify md stream True (job_h job) (hash_views md [] ?keys ?rs vs a') (zk_open e ?keys ?rs vs)
        (job_digest job) e = Inr ()" if "e < 3" for e
      using ver[where md = md and rs = ?rs and e = e, OF _ that] job wfs(2) by (simp add: hash_views_eq job_ok_def)
    with run wr wv wo show ?thesis by (intro that[of vs a']) simp_all
  qed
qed

lemma prover_round_result:
  assumes job: "job_ok md env job" and st: "prover_ok st" and k: "k < NUM_ROUNDS"
    and r: "prover_round md stream os env job k st file = Some r"
  shows "\<exists>st' file'. r = Inr (int proofSize \<le> os (k * proofSize) proofSize, st', file') \<and> prover_ok st' \<and>
     (int proofSize \<le> os (k * proofSize) proofSize \<longrightarrow> record_written md stream job k file') \<and>
     (\<forall>j. j \<noteq> k \<longrightarrow> record_written md stream job j file \<longrightarrow> record_written md stream job j file') \<and>
     (length file \<le> NUM_ROUNDS * proofSize \<longrightarrow> length file' \<le> NUM_ROUNDS * proofSize)"
proof -
  obtain rnd0 rnd1 rndm rs3 ms where sh: "rand_shares env k = (rnd0, rnd1, rndm)"
    "share_secrets rnd0 rnd1 rndm (job_r job) (job_msg job) = (rs3, ms)" by (metis prod_cases3 surj_pair)
  show ?thesis
  proof (rule round_run_honest[OF job st k sh(2,1), of stream])
    fix vs a' a
    assume run: "mpc_hm_prove (views st) (old_record env k) (generate_randomness stream (job_keys job ! k)) (job_h job) rs3 ms
       = Inr (vs, a')" and a: "a = hash_views md [] (job_keys job ! k) (job_rs job ! k) vs a'" "wf_record a"
      and wv: "\<And>e. e < 3 \<Longrightarrow> wf_view (sel3 vs e)"
      and wo: "\<And>e. e < 3 \<Longrightarrow> wf_open (zk_open e (job_keys job ! k) (job_rs job ! k) vs)"
      and acc: "\<And>e. e < 3 \<Longrightarrow> mpc_hm_verify md stream True (job_h job) a
         (zk_open e (job_keys job ! k) (job_rs job ! k) vs) (job_digest job) e = Inr ()"
    define st1 where "st1 = st\<lparr>rShares := rs3, msgShares := ms,
       randomness := generate_randomness stream (job_keys job ! k), views := vs\<rparr>"
    from r obtain e where e: "generate_challenge md (job_ctx job) a (job_digest job) = Some e"
      by (auto simp: prover_round_def sh run a(1) Let_def split: option.splits)
    note ch = generate_challenge_range[OF e]
    define z where "z = zk_open e (job_keys job ! k) (job_rs job ! k) vs"
    have z: "wf_open z" using wo ch(1) by (simp add: z_def)
    have buf: "length (p_buf st) = p_bufSize st" "proofSize \<le> p_bufSize st"
      using st by (simp_all add: prover_ok_def)
    define t where "t = os (k * proofSize) proofSize"
    define file' where "file' = (if t < 0 then file else write_at file (k * proofSize) (take (nat t) (record_bytes a z)))"
    define buf' where "buf' = record_bytes a z @ drop proofSize (p_buf st)"
    have w: "hm_zk_write_proof_round os file (p_buf st) (p_bufSize st) k a z
        = Inr (if int proofSize \<le> t then 0 else -1, file', buf')"
      unfolding write_proof_round_eq[OF a(2) z buf] by (simp add: Let_def t_def file'_def buf'_def)
    have r': "r = Inr (int proofSize \<le> t, st1\<lparr>p_buf := buf'\<rparr>, file')"
      using r e w by (cases "int proofSize \<le> t") (auto simp: prover_round_def sh run a(1) Let_def z_def st1_def)
    have "record_accepted md stream True (job_h job) (job_digest job) (record_bytes a z)"
      using record_accepted_bytes[OF a(2) z] acc[OF ch(1)] ch(2) job by (simp add: z_def job_ok_def)
    then have here: "record_written md stream job k file'" if "int proofSize \<le> t"
      using that length_record_bytes[OF a(2) z]
      by (auto simp: record_written_def file'_def file_record_write_same)
    have there: "record_written md stream job j file'" if j: "j \<noteq> k" "record_written md stream job j file" for j
      using j(2) length_record_bytes[OF a(2) z] file_record_write_other[OF _ j(1)]
      by (auto simp: record_written_def file'_def)
    have "prover_ok (st1\<lparr>p_buf := buf'\<rparr>)"
      using st wv length_record_bytes[OF a(2) z] by (simp add: prover_ok_def st1_def buf'_def)
    moreover have "length file' \<le> NUM_ROUNDS * proofSize" if "length file \<le> NUM_ROUNDS * proofSize"
    proof -
      have "k * proofSize + proofSize \<le> NUM_ROUNDS * proofSize"
        using mult_le_mono1[of "Suc k" NUM_ROUNDS proofSize] k by (simp add: add.commute)
      then show ?thesis
        using that length_record_bytes[OF a(2) z] by (auto simp: file'_def intro!: length_write_at_le)
    qed
    ultimately show ?thesis using r' here there t_def by blast
  qed
qed

text \<open>What holds of the file at every moment: it does not grow beyond its records.\<close>

definition file_fits :: "digest_fn \<Rightarrow> commit_env \<Rightarrow> commit_job \<Rightarrow> byte list \<Rightarrow> bool" where
  "file_fits md env job file \<longleftrightarrow> job_ok md env job \<and> length file \<le> NUM_ROUNDS * proofSize"

lemma file_fits_start: "job_ok md env job \<Longrightarrow> file_fits md env job []"
  by (simp add: file_fits_def)

interpretation prover: parallel_rounds prover_start "prover_round md stream os env job" NUM_ROUNDS
  prover_ok "file_fits md env job" "\<lambda>k. int proofSize \<le> os (k * proofSize) proofSize"
  "record_written md stream job" for md stream os env job
proof unfold_locales
  show "\<exists>r. prover_start h r" for h by (rule start_total)
  show "\<exists>st. p = Some st \<and> (rc = 0 \<longrightarrow> prover_ok st)" if "prover_start h (Inr ((p, rc), h'))" for h p rc h'
    by (rule prover_start_ok[OF that])
  show "\<exists>ok st' g'. r = Inr (ok, st', g') \<and> prover_ok st' \<and> file_fits md env job g' \<and>
      ok = (int proofSize \<le> os (k * proofSize) proofSize) \<and> (ok \<longrightarrow> record_written md stream job k g') \<and>
      (\<forall>j. j \<noteq> k \<longrightarrow> record_written md stream job j g \<longrightarrow> record_written md stream job j g')"
    if "k < NUM_ROUNDS" "prover_ok st" "file_fits md env job g" "prover_round md stream os env job k st g = Some r"
    for k st g r
    using prover_round_result[OF _ that(2,1,4)] that(3) unfolding file_fits_def by blast
qed

section \<open>The setup of hm\_bit\_commit\<close>

lemma commit_cleanup_run:
  assumes "owns h base [buf_data c, buf_data p]"
  obtains c' p' h' where "commit_cleanup (Some c) (Some p) h = Inr ((Some c', Some p', None), h')"
    "owns h' base []" "buf_data c' = None" "buf_data p' = None" "may_alloc h' = may_alloc h"
proof -
  from assms obtain h1 where h1: "hm_buffer_free (Some c) h =
      Inr (Some (c\<lparr>buf_data := None, buf_bytes := [], buf_len := 0\<rparr>), h1)" "owns h1 base [buf_data p]"
      "may_alloc h1 = may_alloc h"
    by (rule hm_buffer_free_run)
  from h1(2) obtain h2 where "hm_buffer_free (Some p) h1 =
      Inr (Some (p\<lparr>buf_data := None, buf_bytes := [], buf_len := 0\<rparr>), h2)" "owns h2 base []"
      "may_alloc h2 = may_alloc h1"
    by (rule hm_buffer_free_run)
  with h1(1,3) that show ?thesis by (simp add: commit_cleanup_def)
qed

lemma keys_wf:
  assumes "generate_keys_and_rs bk bH br = (keys, keyH, rs)"
    and "length bk = NUM_ROUNDS * 3 * 16" "length bH = 16" "length br = NUM_ROUNDS * 3 * 4"
  shows "keyH = bH" "\<forall>k<NUM_ROUNDS. \<forall>e<3. length (sel3 (keys ! k) e) = 16 \<and> length (sel3 (rs ! k) e) = 4"
  using assms by (auto simp: generate_keys_and_rs_def chunk3_def sel3_def param_values)

lemma load_bit_word: "load_u32_le ((replicate (MSG_WORDS * 4) 0)[0 := b AND 1]) = of_bool (bit (b :: byte) 0)"
  by (rule bit_word_eqI) (auto simp: param_values bit_load_u32_le bit_simps numeral_eq_Suc)

lemma setup_job:
  assumes md: "computes_sha256 md" and env: "env_ok env" and rnd: "rand_r env = Some rnd"
    and r: "r = rvec_normalize \<lparr>words = le_words rnd\<rparr>"
    and keys: "generate_keys_and_rs (rand_keys env) (rand_keyH env) (rand_rs env) = (keys, keyH, rs)"
    and msg: "msg = (replicate (MSG_WORDS * 4) 0)[0 := b AND 1]"
    and h: "mpc_hm_hash_init stream (uh_b (old_hash env)) keyH msg r = Inr (A, hb)"
    and j: "job = \<lparr>job_h = (old_hash env)\<lparr>uh_A := A, uh_b := hb\<rparr>, job_r = r, job_msg = msg, job_keys = keys,
       job_rs = rs, job_ctx = base_context ((old_hash env)\<lparr>uh_A := A, uh_b := hb\<rparr>),
       job_digest = sha256 (rvec_msg r), job_base_ctx = q\<rparr>"
  shows "job_ok md env job" "hash_commits (job_h job) r (bit b 0)" "length hb = MSG_BYTES"
    "A = mpc_hm_expand_matrix stream A_WORDS (rand_keyH env)"
proof -
  have wr: "wf_rvec \<lparr>words = le_words rnd\<rparr>" using env rnd by (simp add: env_ok_def wf_rvec_def param_values)
  then have r': "wf_rvec r" "normal_rvec r" by (simp_all add: r normal_rvec_normalize)
  have b: "uh_b (old_hash env) \<noteq> []" "length (uh_b (old_hash env)) = MSG_BYTES"
    using env by (auto simp: env_ok_def param_values)
  have m: "msg \<noteq> []" "msg ! 0 = b AND 1" by (simp_all add: msg param_values)
  note k = keys_wf[OF keys]
  from h mpc_hm_hash_init_eq[OF r'(1) m(1) b(1), of stream keyH]
  have A: "A = mpc_hm_expand_matrix stream A_WORDS keyH"
    and hb: "hb = (uh_b (old_hash env))[0 := SETBIT (uh_b (old_hash env) ! 0) 0
        (of_bool (hash_row0 A r \<noteq> bit (msg ! 0) 0))]" by (auto simp: Let_def)
  show "A = mpc_hm_expand_matrix stream A_WORDS (rand_keyH env)" using A k(1) env by (simp add: env_ok_def)
  show "length hb = MSG_BYTES" using hb b(2) by simp
  have "bit (hb ! 0) 0 = (hash_row0 A r \<noteq> bit b 0)"
    using bit_SETBIT[of 0 "uh_b (old_hash env) ! 0" 0] b
    by (simp add: hb m(2) param_values bit_simps)
  then show c: "hash_commits (job_h job) r (bit b 0)" by (simp add: j hash_commits_def)
  have "wf_hash (job_h job)"
    using b(2) by (auto simp: j wf_hash_def A hb param_values)
  moreover have "load_u32_le msg = of_bool (bit b 0)" by (simp add: msg load_bit_word)
  ultimately show "job_ok md env job"
    using md env r'(2) c k(2) unfolding job_ok_def by (auto simp: j env_ok_def)
qed

text \<open>What the setup leaves in the two buffers and in the job.\<close>

definition published :: "keystream \<Rightarrow> commit_env \<Rightarrow> byte \<Rightarrow> commit_job \<Rightarrow> hm_buffer_t \<Rightarrow> hm_buffer_t \<Rightarrow> bool" where
  "published stream env b job c p \<longleftrightarrow>
     buf_bytes c = rand_keyH env @ uh_b (job_h job) @ sha256 (rvec_msg (job_r job)) \<and>
     buf_len c = commitment_size \<and> buf_bytes p = rvec_msg (job_r job) \<and> buf_len p = L_BYTES \<and>
     buf_data c \<noteq> None \<and> buf_data p \<noteq> None \<and>
     length (uh_b (job_h job)) = MSG_BYTES \<and>
     uh_A (job_h job) = mpc_hm_expand_matrix stream A_WORDS (rand_keyH env) \<and>
     hash_commits (job_h job) (job_r job) (bit b 0)"

text \<open>
  What the setup may end with: an abort for lack of memory, no job and empty
  buffers, or a job for what the two buffers publish and the block of base\_ctx.
  M says which requests succeed.
\<close>

definition setup_post :: "digest_fn \<Rightarrow> keystream \<Rightarrow> commit_env \<Rightarrow> byte \<Rightarrow> nat set \<Rightarrow> (nat \<Rightarrow> bool) \<Rightarrow>
    fault + (hm_buffer_t option \<times> hm_buffer_t option \<times> commit_job option) \<times> heap \<Rightarrow> bool" where
  "setup_post md stream env b base M res \<longleftrightarrow>
     (case res of Inl f \<Rightarrow> f = NoMemory \<and> (\<exists>k. \<not> M k)
      | Inr ((c', p', job), h) \<Rightarrow> \<exists>c p. c' = Some c \<and> p' = Some p \<and> may_alloc h = M \<and>
         (case job of None \<Rightarrow> owns h base [] \<and> buf_data c = None \<and> buf_data p = None
          | Some j \<Rightarrow> owns h base [job_base_ctx j, buf_data c, buf_data p] \<and> job_base_ctx j \<noteq> None \<and>
              job_ok md env j \<and> published stream env b j c p))"

lemma cleanup_post:
  assumes "owns h base [buf_data c, buf_data p]"
  shows "setup_post md stream env b base (may_alloc h) (commit_cleanup (Some c) (Some p) h)"
proof (rule commit_cleanup_run[OF assms])
  fix c' p' h'
  assume "commit_cleanup (Some c) (Some p) h = Inr ((Some c', Some p', None), h')"
    "owns h' base []" "buf_data c' = None" "buf_data p' = None" "may_alloc h' = may_alloc h"
  then show ?thesis by (simp add: setup_post_def)
qed

text \<open>The setup once the opening is copied out.\<close>

lemma setup_publishes:
  assumes md: "computes_sha256 md" and env: "env_ok env" "rand_test env" "rand_r env = Some rnd"
    and r: "r = rvec_normalize \<lparr>words = le_words rnd\<rparr>"
    and cp: "hm_buffer_copy (Some p0) (Some (rvec_bytes r)) L_BYTES h = Inr ((Some p1, 0), h1)"
    and own: "owns h1 base [buf_data p1]" "may_alloc h1 = may_alloc h"
    and p1: "buf_data p1 \<noteq> None" "buf_bytes p1 = take L_BYTES (rvec_bytes r)" "buf_len p1 = L_BYTES"
  shows "setup_post md stream env b base (may_alloc h) (hm_bit_commit_setup md stream env b (Some c0) (Some p0) h)"
proof -
  define msg where "msg = (replicate (MSG_WORDS * 4) 0)[0 := b AND 1]"
  have msg': "(replicate (MSG_WORDS * 4) 0)[0 := replicate (MSG_WORDS * 4) 0 ! 0 XOR (b AND 1)] = msg"
    by (simp add: msg_def param_values)
  obtain keys keyH rs where keys: "generate_keys_and_rs (rand_keys env) (rand_keyH env) (rand_rs env) = (keys, keyH, rs)"
    by (metis prod_cases3)
  have kH: "keyH = rand_keyH env" using keys_wf(1)[OF keys] env(1) by (simp add: env_ok_def)
  have "wf_rvec \<lparr>words = le_words rnd\<rparr>" using env by (simp add: env_ok_def wf_rvec_def)
  then have wr: "wf_rvec r" by (simp add: r)
  have "msg \<noteq> []" "uh_b (old_hash env) \<noteq> []" using env(1) by (auto simp: msg_def env_ok_def param_values)
  then obtain A hb where h: "mpc_hm_hash_init stream (uh_b (old_hash env)) keyH msg r = Inr (A, hb)"
    using mpc_hm_hash_init_eq[OF wr] by (auto simp: Let_def)
  define hh where "hh = (old_hash env)\<lparr>uh_A := A, uh_b := hb\<rparr>"
  define j where "j q = \<lparr>job_h = hh, job_r = r, job_msg = msg, job_keys = keys, job_rs = rs,
    job_ctx = base_context hh, job_digest = sha256 (rvec_msg r), job_base_ctx = q\<rparr>" for q
  note job = setup_job[OF md env(1,3) r keys msg_def h j_def[unfolded hh_def]]
  have mdr: "md (take L_BYTES (rvec_bytes r)) = sha256 (rvec_msg r)"
    using md wr by (simp add: computes_sha256_def rvec_msg_def wf_rvec_def rvec_bytes_def param_values)
  have lens: "length (old_block env) = commitment_size" "length keyH = 16" "MSG_BYTES \<le> length (uh_b hh)"
    "length (md (take L_BYTES (rvec_bytes r))) = SHA256_DIGEST_LENGTH"
    using env(1) kH job(3) mdr by (simp_all add: env_ok_def hh_def param_values)
  obtain c2 h2 rc2 where w: "hm_zk_write_commitment md (old_block env) (Some c0) (Some keyH) (Some hh) (Some r) h1
      = Inr ((Some c2, rc2), h2)" "owns h2 base [buf_data c2, buf_data p1]"
    "may_alloc h2 = may_alloc h"
    "rc2 = 0 \<Longrightarrow> buf_data c2 \<noteq> None \<and> buf_len c2 = commitment_size \<and>
       buf_bytes c2 = keyH @ take MSG_BYTES (uh_b hh) @ md (take L_BYTES (rvec_bytes r))"
    by (rule write_commitment_run[where b = c0 and md = md and r = r and u = hh, OF own(1) lens]) (simp add: own(2))
  note run = hm_bit_commit_setup_def test_randomness_def Let_def keys with_result_def hh_def msg' h cp w(1)
  show ?thesis
  proof (cases "rc2 = 0 \<and> proof_opened env")
    case False
    then have "hm_bit_commit_setup md stream env b (Some c0) (Some p0) h = commit_cleanup (Some c2) (Some p1) h2"
      using env(2,3) r h cp w(1) by (auto simp: run)
    with cleanup_post[OF w(2)] w(3) show ?thesis by simp
  next
    case True
    have dig: "hm_zk_commitment_digest c2 = sha256 (rvec_msg r)"
      using True w(4) lens(2) job(3) mdr by (simp add: hm_zk_commitment_digest_def hh_def param_values)
    have pub: "published stream env b (j q) c2 p1" for q
      using True w(4) p1 job kH mdr by (simp add: published_def j_def hh_def rvec_msg_def)
    have run: "hm_bit_commit_setup md stream env b (Some c0) (Some p0) h =
        bnd setupSHA256_block (\<lambda>q. ret (Some c2, Some p1, Some (j q))) h2"
      using env(2,3) r cp True h w(1) dig by (simp add: run j_def)
    show ?thesis
    proof (cases "setupSHA256_block h2")
      case (Inl f)
      with run setupSHA256_run[OF w(2)] w(3) show ?thesis by (simp add: setup_post_def bnd_def)
    next
      case (Inr a)
      then obtain q h3 where a: "a = (q, h3)" by (cases a)
      with run Inr setupSHA256_run[OF w(2)] w(3) pub job(1)
      show ?thesis by (simp add: setup_post_def bnd_def ret_def j_def)
    qed
  qed
qed

lemma commit_setup_post:
  assumes md: "computes_sha256 md" and env: "env_ok env" and own: "owns h base []"
    and bufs: "buf_data c0 = None" "buf_data p0 = None"
  shows "setup_post md stream env b base (may_alloc h) (hm_bit_commit_setup md stream env b (Some c0) (Some p0) h)"
proof -
  have own2: "owns h base [buf_data c0, buf_data p0]" using own bufs by (simp add: owns_def)
  consider (test) "\<not> rand_test env" | (rnd) "rand_test env" "rand_r env = None"
    | (go) rnd where "rand_test env" "rand_r env = Some rnd" by (cases "rand_r env") auto
  then show ?thesis
  proof cases
    case test
    then show ?thesis using bufs own2 own by (simp add: hm_bit_commit_setup_def test_randomness_def setup_post_def ret_def)
  next
    case rnd
    then show ?thesis using cleanup_post[OF own2] by (simp add: hm_bit_commit_setup_def test_randomness_def Let_def)
  next
    case go
    define r where "r = rvec_normalize \<lparr>words = le_words rnd\<rparr>"
    have "wf_rvec \<lparr>words = le_words rnd\<rparr>" using env go by (simp add: env_ok_def wf_rvec_def)
    then have "wf_rvec r" by (simp add: r_def)
    then have len: "L_BYTES \<le> length (rvec_bytes r)" by (simp add: wf_rvec_def rvec_bytes_def param_values)
    have "0 < L_BYTES" by (simp add: param_values)
    then obtain p1 h1 rc1 where cp: "hm_buffer_copy (Some p0) (Some (rvec_bytes r)) L_BYTES h = Inr ((Some p1, rc1), h1)"
      "owns h1 base [buf_data p1]" "may_alloc h1 = may_alloc h"
      "rc1 = 0 \<Longrightarrow> buf_data p1 \<noteq> None \<and> buf_bytes p1 = take L_BYTES (rvec_bytes r) \<and> buf_len p1 = L_BYTES"
      using hm_buffer_copy_run[OF own len] by metis
    show ?thesis
    proof (cases "rc1 = 0")
      case True
      with cp(1) have "hm_buffer_copy (Some p0) (Some (rvec_bytes r)) L_BYTES h = Inr ((Some p1, 0), h1)" by simp
      from setup_publishes[OF md env go r_def this cp(2,3)] cp(4)[OF True] show ?thesis by blast
    next
      case False
      have "owns h1 base [buf_data c0, buf_data p1]" using cp(2) bufs by (simp add: owns_def)
      from cleanup_post[OF this] False cp(1,3) go show ?thesis
        by (simp add: hm_bit_commit_setup_def test_randomness_def Let_def r_def)
    qed
  qed
qed

lemma commit_setup_run:
  assumes "hm_bit_commit_setup md stream env b (Some c0) (Some p0) h = Inr ((c', p', job), h')"
    and "computes_sha256 md" "env_ok env" "owns h base []" "buf_data c0 = None" "buf_data p0 = None"
  obtains c p where "c' = Some c" "p' = Some p" "may_alloc h' = may_alloc h"
    "job = None \<Longrightarrow> owns h' base [] \<and> buf_data c = None \<and> buf_data p = None"
    "\<And>j. job = Some j \<Longrightarrow> owns h' base [job_base_ctx j, buf_data c, buf_data p] \<and> job_base_ctx j \<noteq> None \<and>
       job_ok md env j \<and> published stream env b j c p"
  using commit_setup_post[OF assms(2-6), of stream b] unfolding assms(1)
  by (auto simp: setup_post_def split: option.splits)

lemma commit_setup_job:
  assumes "hm_bit_commit_setup md stream env b (Some c0) (Some p0) h = Inr ((c', p', Some j), h')"
    and "computes_sha256 md" "env_ok env" "owns h base []" "buf_data c0 = None" "buf_data p0 = None"
  obtains c p where "c' = Some c" "p' = Some p" "may_alloc h' = may_alloc h"
    "owns h' base [job_base_ctx j, buf_data c, buf_data p]" "job_base_ctx j \<noteq> None" "job_ok md env j"
    "published stream env b j c p"
  by (rule commit_setup_run[OF assms]) (use that in simp)

lemma commit_setup_aborts:
  assumes "hm_bit_commit_setup md stream env b (Some c0) (Some p0) h = Inl f"
    and "computes_sha256 md" "env_ok env" "owns h base []" "buf_data c0 = None" "buf_data p0 = None"
  shows "f = NoMemory \<and> (\<exists>k. \<not> may_alloc h k)"
  using commit_setup_post[OF assms(2-6), of stream b] unfolding assms(1) by (simp add: setup_post_def)

section \<open>From the prover's file to the verifier\<close>

lemma mpc_hm_verify_keyA: "mpc_hm_verify md stream alloc_ok (h\<lparr>keyA := x\<rparr>) a z y e = mpc_hm_verify md stream alloc_ok h a z y e"
proof -
  have "mpc_inner_prod_verify (h\<lparr>keyA := x\<rparr>) = mpc_inner_prod_verify h"
    by (intro ext, cases h) (simp only: mpc_inner_prod_verify_def UniversalHash.update_convs
        UniversalHash.select_convs)
  then show ?thesis by (simp only: mpc_hm_verify_def)
qed

lemma record_accepted_hash:
  assumes "uh_A h' = uh_A h" "uh_b h' = uh_b h"
  shows "record_accepted md stream ok h' y bs = record_accepted md stream ok h y bs"
proof -
  have "h' = h\<lparr>keyA := keyA h'\<rparr>" using assms by simp
  then have "mpc_hm_verify md stream ok h' a z y e = mpc_hm_verify md stream ok h a z y e" for a z e
    using mpc_hm_verify_keyA[where h = h and x = "keyA h'"] by (metis (full_types))
  then show ?thesis using assms by (simp add: record_accepted_def base_context_def cong: option.case_cong)
qed

lemma published_setup:
  assumes "published stream env b job c p" "env_ok env"
  shows "buf_len c = length (buf_bytes c)"
    "\<exists>h. hm_bit_verify_setup stream True h0 (Some (buf_bytes c)) (length (buf_bytes c)) True (Some f)
       = Some (h, sha256 (rvec_msg (job_r job)), f) \<and> uh_A h = uh_A (job_h job) \<and> uh_b h = uh_b (job_h job)"
  using assms
  by (auto simp: published_def env_ok_def hm_bit_verify_setup_def hm_zk_read_commitment_def
      test_randomness_def commitment_size_def param_values)

lemma commit_run_result:
  assumes run: "hm_bit_commit md stream os env n b h0 (Some c0) (Some p0) c p file rc h1"
    and md: "computes_sha256 md" and env: "env_ok env" and heap: "heap_ok h0"
    and bufs: "buf_data c0 = None" "buf_data p0 = None"
  obtains c1 p1 where "c = Some c1" "p = Some p1" "owns h1 (set (live h0)) [buf_data c1, buf_data p1]"
    "may_alloc h1 = may_alloc h0" "rc = 0 \<or> rc = -1"
    "rc = 0 \<Longrightarrow> \<exists>job. job_ok md env job \<and> published stream env b job c1 p1 \<and>
       (\<forall>k<NUM_ROUNDS. record_written md stream job k file) \<and> length file \<le> NUM_ROUNDS * proofSize"
proof -
  from run obtain job h' where s: "hm_bit_commit_setup md stream env b (Some c0) (Some p0) h0 = Inr ((c, p, job), h')"
    and rest: "case job of None \<Rightarrow> rc = -1 \<and> h1 = h'
        | Some job \<Rightarrow> \<exists>s ws. omp_run prover_start (prover_round md stream os env job) n NUM_ROUNDS [] h' s \<and>
            mset ws = mset (workers s) \<and> region_end prover_leave (job_base_ctx job) ws (mem s) = Inr ((), h1) \<and>
            file = shared s \<and> rc = (if err s then -1 else 0)"
    unfolding hm_bit_commit_def by blast
  from commit_setup_run[OF s md env owns_live[OF heap] bufs] obtain c1 p1 where c: "c = Some c1" "p = Some p1"
    and M: "may_alloc h' = may_alloc h0"
    and none: "job = None \<Longrightarrow> owns h' (set (live h0)) [] \<and> buf_data c1 = None \<and> buf_data p1 = None"
    and some: "\<And>j. job = Some j \<Longrightarrow> owns h' (set (live h0)) [job_base_ctx j, buf_data c1, buf_data p1] \<and>
       job_base_ctx j \<noteq> None \<and> job_ok md env j \<and> published stream env b j c1 p1" by blast
  show ?thesis
  proof (cases job)
    case None
    with none rest M have "owns h1 (set (live h0)) [buf_data c1, buf_data p1]" "may_alloc h1 = may_alloc h0" "rc = -1"
      by (simp_all add: owns_def)
    with c that show ?thesis by simp
  next
    case (Some j)
    note j = some[OF Some]
    have j': "owns h' (set (live h0)) [job_base_ctx j, buf_data c1, buf_data p1]" "job_ok md env j"
      "published stream env b j c1 p1" using j by simp_all
    from rest Some obtain t ws where t: "omp_run prover_start (prover_round md stream os env j) n NUM_ROUNDS [] h' t"
      and e: "mset ws = mset (workers t)" "region_end prover_leave (job_base_ctx j) ws (mem t) = Inr ((), h1)"
        "file = shared t" "rc = (if err t then -1 else 0)" by auto
    have fits: "file_fits md env j []" by (rule file_fits_start[OF j'(2)])
    have "length file \<le> NUM_ROUNDS * proofSize"
      using prover.join_result(2)[OF t fits] by (simp add: file_fits_def e(3))
    moreover have "record_written md stream j k file" if "rc = 0" "k < NUM_ROUNDS" for k
      using prover.join_result(4)[OF t fits _ that(2)] that(1) e(3,4) by (simp split: if_splits)
    moreover have "owns h1 (set (live h0)) [buf_data c1, buf_data p1]" "may_alloc h1 = may_alloc h0"
      using prover_region_end[OF t j'(1) e(1)] e(2) M by auto
    moreover have "rc = 0 \<or> rc = -1" using e(4) by simp
    ultimately show ?thesis using c j'(2,3) that by blast
  qed
qed

text \<open>A run that does not return has run out of memory.\<close>

lemma commit_stops:
  assumes stops: "hm_bit_commit_stops md stream os env n b h0 (Some c0) (Some p0) f"
    and md: "computes_sha256 md" and env: "env_ok env" and heap: "heap_ok h0"
    and bufs: "buf_data c0 = None" "buf_data p0 = None"
  shows "f = NoMemory \<and> (\<exists>k. \<not> may_alloc h0 k)"
proof (cases "hm_bit_commit_setup md stream env b (Some c0) (Some p0) h0")
  case (Inl g)
  with stops have "hm_bit_commit_setup md stream env b (Some c0) (Some p0) h0 = Inl f"
    by (simp add: hm_bit_commit_stops_def)
  then show ?thesis by (rule commit_setup_aborts[OF _ md env owns_live[OF heap] bufs])
next
  case (Inr a)
  with stops obtain c p job h' where s: "hm_bit_commit_setup md stream env b (Some c0) (Some p0) h0 = Inr ((c, p, Some job), h')"
    and r: "region_stops prover_start prover_leave (prover_round md stream os env job) n [] (job_base_ctx job) h' f"
    by (auto simp: hm_bit_commit_stops_def)
  show ?thesis
  proof (rule commit_setup_job[OF s md env owns_live[OF heap] bufs])
    fix c1 p1
    assume M: "may_alloc h' = may_alloc h0" and "owns h' (set (live h0)) [job_base_ctx job, buf_data c1, buf_data p1]"
    from prover_region_stops[OF r this(2)] show ?thesis unfolding M .
  qed
qed

text \<open>C2: The protocol is complete.  If hm\_bit\_commit returns 0, whatever its random bytes, its
  threads and their interleaving, then every run of hm\_bit\_verify on the commitment and the proof
  file that it wrote, with any number of threads, returns 0 when the threads start and the reads and
  allocations succeed.  It rests on OpenSSL's digest being SHA-256 on the opening vector.\<close>

theorem bit_proof_complete:
  assumes "hm_bit_commit md stream os env n b h0 (Some c0) (Some p0) (Some c) p file 0 h1"
    and "computes_sha256 md" "env_ok env" "heap_ok h0" "buf_data c0 = None" "buf_data p0 = None"
    and "hm_bit_verify md stream os2 (\<lambda>_. True) m True hv (Some (buf_bytes c)) (buf_len c) True (Some file) threads rc"
    and "\<And>off. int proofSize \<le> os2 off proofSize" and "\<not> list_ex is_broken threads"
  shows "rc = 0"
proof (rule commit_run_result[OF assms(1-6)])
  fix c1 p1
  assume c: "Some c = Some c1" and "0 = (0::int) \<Longrightarrow> \<exists>job. job_ok md env job \<and> published stream env b job c1 p1 \<and>
       (\<forall>k<NUM_ROUNDS. record_written md stream job k file) \<and> length file \<le> NUM_ROUNDS * proofSize"
  then obtain job where j: "job_ok md env job" "published stream env b job c p1"
    "\<And>k. k < NUM_ROUNDS \<Longrightarrow> record_written md stream job k file" by auto
  from published_setup(2)[OF j(2) assms(3), of hv "file"] obtain h where
    h: "hm_bit_verify_setup stream True hv (Some (buf_bytes c)) (length (buf_bytes c)) True (Some file)
       = Some (h, sha256 (rvec_msg (job_r job)), file)" "uh_A h = uh_A (job_h job)" "uh_b h = uh_b (job_h job)"
    by blast
  have "round_accepted md stream os2 (\<lambda>_. True) h (sha256 (rvec_msg (job_r job))) file k" if "k < NUM_ROUNDS" for k
    using j(3)[OF that] assms(8) j(1) record_accepted_hash[OF h(2,3)]
    by (auto simp: round_accepted_def record_written_def job_ok_def)
  with verify_run_result(1)[OF assms(7)[unfolded published_setup(1)[OF j(2) assms(3)]] h(1)] assms(9)
  show "rc = 0" by blast
qed

section \<open>Runs exist\<close>

lemma prover_round_returns:
  assumes "challenge_returns md" and f: "file_fits md env job f" and st: "prover_ok st" "k < NUM_ROUNDS"
  shows "prover_round md stream os env job k st f \<noteq> None"
proof -
  have job: "job_ok md env job" using f by (simp add: file_fits_def)
  obtain rnd0 rnd1 rndm rs3 ms where sh: "rand_shares env k = (rnd0, rnd1, rndm)"
    "share_secrets rnd0 rnd1 rndm (job_r job) (job_msg job) = (rs3, ms)" by (metis prod_cases3 surj_pair)
  show ?thesis
  proof (rule round_run_honest[OF job st sh(2,1), of stream])
    fix vs a' a
    assume run: "mpc_hm_prove (views st) (old_record env k) (generate_randomness stream (job_keys job ! k)) (job_h job) rs3 ms
       = Inr (vs, a')" and a: "a = hash_views md [] (job_keys job ! k) (job_rs job ! k) vs a'" "wf_record a"
    have "generate_challenge md (job_ctx job) a (job_digest job) \<noteq> None"
      using assms(1) a(2) unfolding generate_challenge_def challenge_returns_def by simp
    then show ?thesis
      by (auto simp: prover_round_def sh run a(1)[symmetric] Let_def split: sum.splits)
  qed
qed

definition zero_buffer :: hm_buffer_t where
  "zero_buffer = \<lparr>buf_data = None, buf_bytes = [], buf_len = 0\<rparr>"

definition roomy_heap :: heap where
  "roomy_heap = \<lparr>live = [], requests = 0, may_alloc = (\<lambda>_. True)\<rparr>"

definition demo_env :: commit_env where
  "demo_env = \<lparr>rand_test = True, rand_r = Some (replicate 132 5), rand_keys = replicate 6528 1,
     rand_keyH = replicate 16 1, rand_rs = replicate 1632 2,
     rand_shares = (\<lambda>_. (replicate 132 0, replicate 132 3, replicate 12 4)),
     old_hash = demo_hash, old_block = replicate 49 0, old_record = (\<lambda>_. demo_record), proof_opened = True\<rparr>"

lemma demo_env_ok: "env_ok demo_env" "heap_ok roomy_heap"
  by (simp_all add: env_ok_def demo_env_def param_values demo_hash_def commitment_size_def demo_record_def
      heap_ok_def roomy_heap_def)

lemma demo_job:
  "\<exists>c p job h'. hm_bit_commit_setup demo_md (\<lambda>_ _. 0) demo_env 1 (Some zero_buffer) (Some zero_buffer) roomy_heap
     = Inr ((Some c, Some p, Some job), h')"
proof -
  define r where "r = rvec_normalize \<lparr>words = le_words (replicate 132 5)\<rparr>"
  have "wf_rvec \<lparr>words = le_words (replicate 132 5)\<rparr>" by (simp add: wf_rvec_def param_values)
  then have wr: "wf_rvec r" by (simp add: r_def)
  then have lr: "length (rvec_bytes r) = 132" by (simp add: wf_rvec_def rvec_bytes_def param_values)
  define m :: "byte list" where "m = (replicate (MSG_WORDS * 4) 0)[0 := replicate (MSG_WORDS * 4) 0 ! 0 XOR (1 AND 1)]"
  have m: "m \<noteq> []" by (simp add: m_def param_values)
  obtain keys rs where k: "generate_keys_and_rs (replicate 6528 1) (replicate 16 1) (replicate 1632 2) = (keys, replicate 16 1, rs)"
    by (simp add: generate_keys_and_rs_def)
  have md: "length (demo_md x) = 32" for x by (simp add: demo_md_def)
  have b: "uh_b demo_hash \<noteq> []" "length (uh_b demo_hash) = 1" by (simp_all add: demo_hash_def)
  show ?thesis
    unfolding hm_bit_commit_setup_def demo_env_def commit_env.select_convs option.case Let_def r_def[symmetric]
      m_def[symmetric] k prod.case
    using mpc_hm_hash_init_eq[OF wr m b(1), of "\<lambda>_ _. 0" "replicate 16 1"] lr md b(2)
    by (simp add: test_randomness_def hm_buffer_copy_def malloc_def roomy_heap_def bnd_def ret_def Let_def
        with_result_def hm_zk_write_commitment_def put_def setupSHA256_block_def param_values)
qed

text \<open>Without a proof file there are no rounds.\<close>

lemma commit_cleanup_no_job: "commit_cleanup c0 p0 h = Inr ((c, p, job), h') \<Longrightarrow> job = None"
  by (auto simp: commit_cleanup_def ret_def bnd_Inr_iff)

lemma with_result_Inr_iff: "with_result m f s = Inr r \<longleftrightarrow> (\<exists>x. m = Inr x \<and> f x s = Inr r)"
  by (simp add: with_result_def split: sum.splits)

lemma closed_file_no_job:
  "hm_bit_commit_setup md stream env b c0 p0 h = Inr ((c, p, job), h') \<Longrightarrow> \<not> proof_opened env \<Longrightarrow> job = None"
  unfolding hm_bit_commit_setup_def Let_def
  by (auto simp: bnd_Inr_iff ret_def with_result_Inr_iff split: if_splits option.splits prod.splits
      dest: commit_cleanup_no_job)

lemma demo_commit_run:
  "\<exists>c p file h. hm_bit_commit demo_md (\<lambda>_ _. 0) (\<lambda>_ n. int n) demo_env 1 1 roomy_heap
     (Some zero_buffer) (Some zero_buffer) (Some c) (Some p) file 0 h"
proof -
  obtain c p job h' where s: "hm_bit_commit_setup demo_md (\<lambda>_ _. 0) demo_env 1 (Some zero_buffer) (Some zero_buffer)
      roomy_heap = Inr ((Some c, Some p, Some job), h')" using demo_job by blast
  have z: "buf_data zero_buffer = None" by (simp add: zero_buffer_def)
  from commit_setup_job[OF s demo_md_ok(1) demo_env_ok(1) owns_live[OF demo_env_ok(2)] z z]
  have M: "may_alloc h' = may_alloc roomy_heap" and job: "job_ok demo_md demo_env job"
    and own: "owns h' (set (live roomy_heap)) [job_base_ctx job, buf_data c, buf_data p]" by auto
  let ?body = "prover_round demo_md (\<lambda>_ _. 0) (\<lambda>_ n. int n) demo_env job"
  have "\<forall>k. may_alloc h' k" by (simp add: M roomy_heap_def)
  from prover_starts[OF this] obtain st h1 where st: "prover_start h' (Inr ((Some st, 0), h1))" by blast
  obtain t where t: "omp_run prover_start ?body 1 NUM_ROUNDS [] h' t" "\<not> list_ex is_broken (workers t)"
    using prover.good_run_exists[OF st file_fits_start[OF job] prover_round_returns[OF demo_md_ok(2)], of "\<lambda>_ _. 0" "\<lambda>_ n. int n"]
    by blast
  have e: "\<not> err t" using prover.join_result(3)[OF t(1) file_fits_start[OF job]] t(2) by simp
  obtain h2 where h2: "region_end prover_leave (job_base_ctx job) (workers t) (mem t) = Inr ((), h2)"
    using prover_region_end[OF t(1) own refl] by blast
  have "hm_bit_commit demo_md (\<lambda>_ _. 0) (\<lambda>_ n. int n) demo_env 1 1 roomy_heap
     (Some zero_buffer) (Some zero_buffer) (Some c) (Some p) (shared t) 0 h2"
    unfolding hm_bit_commit_def using s t(1) e h2
    by (intro exI[of _ "Some job"] exI[of _ h'] conjI) (auto intro!: exI[of _ t] exI[of _ "workers t"])
  then show ?thesis by blast
qed

lemma bit_proof_complete_witness:
  "\<exists>c p file threads h. hm_bit_commit demo_md (\<lambda>_ _. 0) (\<lambda>_ n. int n) demo_env 1 1 roomy_heap
     (Some zero_buffer) (Some zero_buffer) (Some c) (Some p) file 0 h \<and>
   hm_bit_verify demo_md (\<lambda>_ _. 0) (\<lambda>_ n. int n) (\<lambda>_. True) 1 True demo_hash (Some (buf_bytes c)) (buf_len c)
     True (Some file) threads 0"
proof -
  obtain c p f h1 where run: "hm_bit_commit demo_md (\<lambda>_ _. 0) (\<lambda>_ n. int n) demo_env 1 1 roomy_heap
     (Some zero_buffer) (Some zero_buffer) (Some c) (Some p) f 0 h1" using demo_commit_run by blast
  have z: "buf_data zero_buffer = None" by (simp add: zero_buffer_def)
  from commit_run_result[OF run demo_md_ok(1) demo_env_ok z z] obtain job p1 where
    j: "published (\<lambda>_ _. 0) demo_env 1 job c p1" by (metis option.inject)
  note len = published_setup(1)[OF j demo_env_ok(1)]
  obtain h where "hm_bit_verify_setup (\<lambda>_ _. 0) True demo_hash (Some (buf_bytes c)) (length (buf_bytes c)) True (Some f)
      = Some (h, sha256 (rvec_msg (job_r job)), f)" using published_setup(2)[OF j demo_env_ok(1)] by blast
  from verify_run_exists[OF this demo_md_ok(2), of "\<lambda>_ n. int n" "\<lambda>_. True"] obtain threads rc where
    v: "hm_bit_verify demo_md (\<lambda>_ _. 0) (\<lambda>_ n. int n) (\<lambda>_. True) 1 True demo_hash (Some (buf_bytes c))
       (buf_len c) True (Some f) threads rc" "\<not> list_ex is_broken threads" by (auto simp: len)
  from bit_proof_complete[OF run demo_md_ok(1) demo_env_ok z z v(1) _ v(2)] have "rc = 0" by simp
  with run v(1) show ?thesis by blast
qed

lemma replay_rounds:
  assumes "length bs = proofSize" "record_accepted md stream True h y bs" "k < NUM_ROUNDS"
    and "\<And>off. int proofSize \<le> os off proofSize"
  shows "round_accepted md stream os (\<lambda>_. True) h y (concat (replicate NUM_ROUNDS bs)) k"
  using assms file_record_replicate[OF assms(1,3)] by (simp add: round_accepted_def)

text \<open>C10: The rounds of a proof are not bound to their positions.  If a single record is accepted for a
  commitment, then the file that repeats this record 136 times is a valid proof: every run of
  hm\_bit\_verify whose threads start and whose reads and allocations succeed returns 0.  The
  challenge of a round is a hash of that round alone, so a prover needs one lucky round instead of
  136 independent ones.\<close>

theorem proof_replay:
  assumes "hm_bit_verify_setup stream rand_ok h0 (Some c) (length c) path_given
       (Some (concat (replicate NUM_ROUNDS bs))) = Some (h, y, f)"
    and "length bs = proofSize" "record_accepted md stream True h y bs"
    and "\<And>off. int proofSize \<le> os off proofSize"
    and "hm_bit_verify md stream os (\<lambda>_. True) n rand_ok h0 (Some c) (length c) path_given
       (Some (concat (replicate NUM_ROUNDS bs))) threads rc"
    and "\<not> list_ex is_broken threads"
  shows "rc = 0"
proof -
  have "f = concat (replicate NUM_ROUNDS bs)" using verify_setup_hash(2)[OF assms(1) refl] by simp
  then show ?thesis
    using verify_run_result(1)[OF assms(5,1)] assms(6) replay_rounds[where os = os, OF assms(2,3) _ assms(4)] by simp
qed

lemma proof_replay_witness:
  "\<exists>c bs threads. length bs = proofSize \<and> hm_bit_verify demo_md (\<lambda>_ _. 0) (\<lambda>_ n. int n) (\<lambda>_. True) 1 True
     demo_hash (Some c) (length c) True (Some (concat (replicate NUM_ROUNDS bs))) threads 0"
proof -
  obtain c p f h1 where run: "hm_bit_commit demo_md (\<lambda>_ _. 0) (\<lambda>_ n. int n) demo_env 1 1 roomy_heap
     (Some zero_buffer) (Some zero_buffer) (Some c) (Some p) f 0 h1" using demo_commit_run by blast
  have z: "buf_data zero_buffer = None" by (simp add: zero_buffer_def)
  from commit_run_result[OF run demo_md_ok(1) demo_env_ok z z] obtain job p1 where
    j: "job_ok demo_md demo_env job" "published (\<lambda>_ _. 0) demo_env 1 job c p1"
      "\<And>k. k < NUM_ROUNDS \<Longrightarrow> record_written demo_md (\<lambda>_ _. 0) job k f" by (metis option.inject)
  have "0 < NUM_ROUNDS" by (simp add: param_values)
  from record_writtenD[OF j(3)[OF this]] obtain bs where bs: "length bs = proofSize"
    "record_accepted demo_md (\<lambda>_ _. 0) True (job_h job) (job_digest job) bs" by blast
  define g where "g = concat (replicate NUM_ROUNDS bs)"
  obtain h where h: "hm_bit_verify_setup (\<lambda>_ _. 0) True demo_hash (Some (buf_bytes c)) (length (buf_bytes c)) True (Some g)
      = Some (h, sha256 (rvec_msg (job_r job)), g)" "uh_A h = uh_A (job_h job)" "uh_b h = uh_b (job_h job)"
    using published_setup(2)[OF j(2) demo_env_ok(1)] by blast
  from verify_run_exists[OF h(1) demo_md_ok(2), of "\<lambda>_ n. int n" "\<lambda>_. True"] obtain threads rc where
    v: "hm_bit_verify demo_md (\<lambda>_ _. 0) (\<lambda>_ n. int n) (\<lambda>_. True) 1 True demo_hash (Some (buf_bytes c))
       (length (buf_bytes c)) True (Some g) threads rc" "\<not> list_ex is_broken threads" by blast
  have "record_accepted demo_md (\<lambda>_ _. 0) True h (sha256 (rvec_msg (job_r job))) bs"
    using bs(2) j(1) record_accepted_hash[OF h(2,3)] by (simp add: job_ok_def)
  from proof_replay[OF h(1)[unfolded g_def] bs(1) this _ v(1)[unfolded g_def] v(2)] have "rc = 0" by simp
  with bs(1) v(1) show ?thesis unfolding g_def by blast
qed

section \<open>Resources and errors of hm\_bit\_commit\<close>

text \<open>C9: What the setup of hm\_bit\_commit publishes and owns.  With zero-initialised buffers of the
  caller and whatever allocations, random calls or opening of the file fail, there are three ends.
  It returns -1 with both buffers empty and the heap as before; or it starts the rounds with exactly
  three new blocks, one in each buffer and the one of base\_ctx: the commitment is the matrix key, one
  byte of masked message and the SHA-256 digest of the opening vector, the opening is that vector, and
  bit 0 of the masked message is row 0 of the expanded matrix times the vector plus the committed
  bit; or the process aborts in setupSHA256, which takes a failed allocation.\<close>

theorem hm_bit_commit_setup_correct:
  assumes "computes_sha256 md" "env_ok env" "heap_ok h" "buf_data c0 = None" "buf_data p0 = None"
  shows "case hm_bit_commit_setup md stream env b (Some c0) (Some p0) h of
      Inl f \<Rightarrow> f = NoMemory \<and> (\<exists>k. \<not> may_alloc h k)
    | Inr ((c', p', job), h') \<Rightarrow> \<exists>c p. c' = Some c \<and> p' = Some p \<and>
       (case job of None \<Rightarrow> buf_data c = None \<and> buf_data p = None \<and> set (live h') = set (live h)
        | Some j \<Rightarrow> owns h' (set (live h)) [buf_data c, buf_data p, job_base_ctx j] \<and>
            buf_data c \<noteq> None \<and> buf_data p \<noteq> None \<and> job_base_ctx j \<noteq> None \<and>
            buf_bytes c = rand_keyH env @ uh_b (job_h j) @ sha256 (buf_bytes p) \<and>
            buf_len c = commitment_size \<and> buf_len p = L_BYTES \<and> buf_bytes p = rvec_msg (job_r j) \<and>
            bit (uh_b (job_h j) ! 0) 0 =
              (hash_row0 (mpc_hm_expand_matrix stream A_WORDS (rand_keyH env)) (job_r j) \<noteq> bit b 0))"
proof (cases "hm_bit_commit_setup md stream env b (Some c0) (Some p0) h")
  case (Inl f)
  from commit_setup_aborts[OF this assms(1,2) owns_live[OF assms(3)] assms(4,5)] Inl show ?thesis by simp
next
  case (Inr a)
  obtain c' p' job h' where a: "a = ((c', p', job), h')" by (cases a) auto
  from commit_setup_run[OF Inr[unfolded a] assms(1,2) owns_live[OF assms(3)] assms(4,5)] obtain c p where
    c: "c' = Some c" "p' = Some p" and none: "job = None \<Longrightarrow> owns h' (set (live h)) [] \<and> buf_data c = None \<and> buf_data p = None"
    and some: "\<And>j. job = Some j \<Longrightarrow> owns h' (set (live h)) [job_base_ctx j, buf_data c, buf_data p] \<and>
       job_base_ctx j \<noteq> None \<and> job_ok md env j \<and> published stream env b j c p" by blast
  show ?thesis
  proof (cases job)
    case None
    with none c show ?thesis by (simp add: Inr a owns_Nil)
  next
    case (Some j)
    have "owns h' (set (live h)) [buf_data c, buf_data p, job_base_ctx j]"
      by (rule owns_perm[where ps = "[job_base_ctx j, buf_data c, buf_data p]"]) (use some[OF Some] in simp_all)
    with some[OF Some] c Some show ?thesis by (simp add: Inr a published_def hash_commits_def)
  qed
qed

lemma hm_bit_commit_setup_correct_witness:
  "\<exists>c p j h'. hm_bit_commit_setup demo_md (\<lambda>_ _. 0) demo_env 1 (Some zero_buffer) (Some zero_buffer) roomy_heap
      = Inr ((Some c, Some p, Some j), h') \<and> card (set (live h')) = 3"
proof -
  obtain c p j h' where s: "hm_bit_commit_setup demo_md (\<lambda>_ _. 0) demo_env 1 (Some zero_buffer) (Some zero_buffer)
      roomy_heap = Inr ((Some c, Some p, Some j), h')" using demo_job by blast
  have z: "buf_data zero_buffer = None" by (simp add: zero_buffer_def)
  from hm_bit_commit_setup_correct[OF demo_md_ok(1) demo_env_ok z z, of "\<lambda>_ _. 0" 1] s
  obtain x y q where o: "owns h' (set (live roomy_heap)) [Some x, Some y, Some q]" by auto
  then have "set (live h') = {x, y, q}" "distinct [x, y, q]" by (auto simp: owns_def roomy_heap_def)
  with s show ?thesis by auto
qed

text \<open>C27: The error path of hm\_bit\_commit frees what the caller's buffers hold.  When drawing the
  opening vector fails, the function releases both output buffers although it has not assigned them
  yet: if the pointer in commitment\_out is not an allocated block, as in a buffer that the caller
  left uninitialised, the call frees an invalid pointer.\<close>

theorem hm_bit_commit_uninitialised_free:
  assumes "rand_test env" "rand_r env = None" and "buf_data c0 = Some q" "q \<notin> set (live h)"
  shows "hm_bit_commit_setup md stream env b (Some c0) p0 h = Inl BadFree"
  using assms by (simp add: hm_bit_commit_setup_def test_randomness_def commit_cleanup_def hm_buffer_free_def
      bnd_def free_block_def Let_def)

lemma hm_bit_commit_uninitialised_free_witness:
  "hm_bit_commit_setup demo_md (\<lambda>_ _. 0) (demo_env\<lparr>rand_r := None\<rparr>) 1 (Some (zero_buffer\<lparr>buf_data := Some 5\<rparr>))
     (Some zero_buffer) roomy_heap = Inl BadFree"
  by (rule hm_bit_commit_uninitialised_free[where q = 5]) (simp_all add: demo_env_def roomy_heap_def)

text \<open>C14: The prover's region is memory safe and ends.  The setup is one that started from empty buffers
  of the caller and produced a job; the digest is SHA-256 on the opening vector.  Then, whatever the
  challenge loop does, no reachable state of the region has accessed memory outside its buffers or run
  a round on a thread that was not initialised, and every execution of n threads takes at most
  n + 272 steps.  For digests whose challenge loop always returns, the region of one or more threads
  is never stuck before its barrier: it takes a step, or a thread that has not started aborts the
  process because an allocation failed.\<close>

theorem prover_region_safe:
  assumes "hm_bit_commit_setup md stream env b (Some c0) (Some p0) h = Inr ((c, p, Some job), h')"
    and "computes_sha256 md" "env_ok env" "heap_ok h" "buf_data c0 = None" "buf_data p0 = None"
    and "(omp_step prover_start (prover_round md stream os env job) ^^ m) (team_start n NUM_ROUNDS [] h') s"
  shows "\<not> undefined_access s \<and> m \<le> n + 272 \<and>
     (challenge_returns md \<and> 0 < n \<longrightarrow> joined s \<or>
        (\<exists>t. omp_step prover_start (prover_round md stream os env job) s t) \<or>
        thread_stops prover_start s NoMemory \<and> (\<exists>k. \<not> may_alloc h k))"
proof -
  obtain c1 p1 where "c = Some c1" "p = Some p1" and M: "may_alloc h' = may_alloc h"
    and own: "owns h' (set (live h)) [job_base_ctx job, buf_data c1, buf_data p1]" and "job_base_ctx job \<noteq> None"
    and job: "job_ok md env job" and "published stream env b job c1 p1"
    by (rule commit_setup_job[OF assms(1-3) owns_live[OF assms(4)] assms(5,6)])
  note reach = relpowp_imp_rtranclp[OF assms(7)]
  have len: "m + work_left s \<le> n + 2 * NUM_ROUNDS" by (rule prover.run_length[OF assms(7) file_fits_start[OF job]])
  have i: "prover.inv md env job os stream s" by (rule prover.inv_reachable[OF reach file_fits_start[OF job]])
  have "(\<exists>t. omp_step prover_start (prover_round md stream os env job) s t) \<or>
      thread_stops prover_start s NoMemory \<and> (\<exists>k. \<not> may_alloc h k)"
    if ret: "challenge_returns md" and n: "0 < n" and "\<not> joined s"
  proof -
    have "workers s \<noteq> []" using same_team[OF assms(7)] n by auto
    from prover.progress[where md = md and env = env and job = job and os = os and stream = stream,
        OF i \<open>\<not> joined s\<close> this prover_round_returns[OF ret]]
    show ?thesis using prover_heap.stops_reachable[OF reach own] M by metis
  qed
  then show ?thesis using len round_invD(1)[OF i] by (auto simp: param_values)
qed

lemma prover_region_safe_witness:
  "\<exists>job h'. \<not> undefined_access (team_start 3 NUM_ROUNDS [] h' :: (ProverThreadState, byte list) team) \<and>
     (\<exists>t. omp_step prover_start (prover_round demo_md (\<lambda>_ _. 0) (\<lambda>_ n. int n) demo_env job) (team_start 3 NUM_ROUNDS [] h') t)"
proof -
  obtain c p job h' where s: "hm_bit_commit_setup demo_md (\<lambda>_ _. 0) demo_env 1 (Some zero_buffer) (Some zero_buffer)
      roomy_heap = Inr ((c, p, Some job), h')" using demo_job by blast
  have z: "buf_data zero_buffer = None" by (simp add: zero_buffer_def)
  from prover_region_safe[OF s demo_md_ok(1) demo_env_ok z z, of 0 "\<lambda>_ n. int n" 3 "team_start 3 NUM_ROUNDS [] h'"]
    demo_md_ok(2)
  show ?thesis by (auto simp: joined_def team_start_def param_values roomy_heap_def)
qed

end
