(* ===== verification/Example_Bit.thy ===== *)
theory Example_Bit
  imports ZK_Protocol
begin

unbundle bit_operations_syntax

text \<open>
  examples/bit\_commit.c and examples/bit\_commit.cpp as whole programs:
  commit to the bit 1, verify the proof file, release the two buffers.  The C
  program has one cleanup label; the C++ program owns its buffers through the
  class HmBuffer, whose moves are here too.  A run takes one heap through both
  library calls and the cleanup.  Printing is left out, but for the
  size of the proof file that the C program reports and that the C++ program
  asks for with a call that may throw; remove
  deletes the file at the end and has no further effect on the run.
\<close>

section \<open>The class HmBuffer\<close>

definition empty_buffer :: hm_buffer_t where
  "empty_buffer = \<lparr>buf_data = None, buf_bytes = [], buf_len = 0\<rparr>"

definition HmBuffer_destroy :: "hm_buffer_t \<Rightarrow> (heap, unit) prog" where
  "HmBuffer_destroy b = bnd (hm_buffer_free (Some b)) (\<lambda>_. ret ())"

text \<open>HmBuffer(HmBuffer \&\&other): the new object and what is left in other.\<close>

definition HmBuffer_move :: "hm_buffer_t \<Rightarrow> hm_buffer_t \<times> hm_buffer_t" where
  "HmBuffer_move other = (other, empty_buffer)"

text \<open>operator=(HmBuffer \&\&other); self says that other is the same object.\<close>

definition HmBuffer_assign :: "bool \<Rightarrow> hm_buffer_t \<Rightarrow> hm_buffer_t \<Rightarrow> (heap, hm_buffer_t \<times> hm_buffer_t) prog" where
  "HmBuffer_assign self this other =
    (if self then ret (this, other)
     else bnd (hm_buffer_free (Some this)) (\<lambda>_. ret (other, empty_buffer)))"

section \<open>The programs\<close>

text \<open>file is None when fopen fails; ftell at the end of the file is its length.\<close>

definition get_file_size :: "byte list option \<Rightarrow> int" where
  "get_file_size file = (case file of None \<Rightarrow> -1 | Some f \<Rightarrow> int (length f))"

definition bit_cleanup :: "hm_buffer_t option \<Rightarrow> hm_buffer_t option \<Rightarrow> (heap, unit) prog" where
  "bit_cleanup commitment opening =
     bnd (hm_buffer_free commitment) (\<lambda>_. bnd (hm_buffer_free opening) (\<lambda>_. ret ()))"

text \<open>
  How a process ends: with an exit code, the heap at the end of main given; inside
  the library, in handleErrors or with a bad free; by an exception that nobody
  catches.
\<close>

datatype process_end = Exits int heap | Stops fault | Terminated

definition exit_after :: "fault + unit \<times> heap \<Rightarrow> int \<Rightarrow> process_end" where
  "exit_after cleaned rc = (case cleaned of Inl f \<Rightarrow> Stops f | Inr (_, h) \<Rightarrow> Exits rc h)"

text \<open>
  From a successful commitment on: verify what it published, on the heap h, and
  clean up.  reopened says whether the verifier can open the file that the prover
  wrote; m is the number of threads, junk the uninitialised hash of the verifier.
\<close>

definition bit_verified :: "digest_fn \<Rightarrow> keystream \<Rightarrow> os \<Rightarrow> (nat \<Rightarrow> bool) \<Rightarrow> nat \<Rightarrow> bool \<Rightarrow> UniversalHash \<Rightarrow> bool \<Rightarrow>
    hm_buffer_t option \<Rightarrow> byte list \<Rightarrow> (heap, unit) prog \<Rightarrow> heap \<Rightarrow> VerifierThreadState worker list \<Rightarrow> process_end \<Rightarrow> bool" where
  "bit_verified md stream os2 alloc m rand_ok junk reopened commitment fl cleanup h threads out \<longleftrightarrow>
     (case commitment of None \<Rightarrow> False | Some c \<Rightarrow>
        (\<exists>f. hm_bit_verify_stops md stream os2 alloc m rand_ok junk
            (map_option (\<lambda>_. buf_bytes c) (buf_data c)) (buf_len c) True (if reopened then Some fl else None)
            h f \<and> threads = [] \<and> out = Stops f) \<or>
        (\<exists>code2 h2. hm_bit_verify_on md stream os2 alloc m rand_ok junk
            (map_option (\<lambda>_. buf_bytes c) (buf_data c)) (buf_len c) True (if reopened then Some fl else None)
            threads code2 h h2 \<and> out = exit_after (cleanup h2) (if code2 \<noteq> 0 then 1 else 0)))"

text \<open>One run of the C program; n is the number of threads of the commitment.\<close>

definition bit_commit_main :: "digest_fn \<Rightarrow> keystream \<Rightarrow> os \<Rightarrow> os \<Rightarrow> (nat \<Rightarrow> bool) \<Rightarrow> commit_env \<Rightarrow> nat \<Rightarrow> nat \<Rightarrow>
    bool \<Rightarrow> UniversalHash \<Rightarrow> bool \<Rightarrow> heap \<Rightarrow> VerifierThreadState worker list \<Rightarrow> process_end \<Rightarrow> bool" where
  "bit_commit_main md stream os os2 alloc env n m rand_ok junk reopened h0 threads out \<longleftrightarrow>
     (\<exists>f. hm_bit_commit_stops md stream os env n 1 h0 (Some empty_buffer) (Some empty_buffer) f \<and>
        threads = [] \<and> out = Stops f) \<or>
     (\<exists>commitment opening fl code h. hm_bit_commit md stream os env n 1 h0 (Some empty_buffer) (Some empty_buffer)
         commitment opening fl code h \<and>
       (if code \<noteq> 0 then threads = [] \<and> out = exit_after (bit_cleanup commitment opening h) 1
        else bit_verified md stream os2 alloc m rand_ok junk reopened commitment fl
          (bit_cleanup commitment opening) h threads out))"

text \<open>The destructors of opening and commitment, in this order.\<close>

definition bit_leave_scope :: "hm_buffer_t option \<Rightarrow> hm_buffer_t option \<Rightarrow> (heap, unit) prog" where
  "bit_leave_scope commitment opening =
     bnd (hm_buffer_free opening) (\<lambda>_. bnd (hm_buffer_free commitment) (\<lambda>_. ret ()))"

text \<open>stat\_ok says whether std::filesystem::file\_size can determine the size; otherwise it throws.\<close>

definition bit_commit_cpp_main :: "digest_fn \<Rightarrow> keystream \<Rightarrow> os \<Rightarrow> os \<Rightarrow> (nat \<Rightarrow> bool) \<Rightarrow> commit_env \<Rightarrow> nat \<Rightarrow> nat \<Rightarrow>
    bool \<Rightarrow> UniversalHash \<Rightarrow> bool \<Rightarrow> bool \<Rightarrow> heap \<Rightarrow> VerifierThreadState worker list \<Rightarrow> process_end \<Rightarrow> bool" where
  "bit_commit_cpp_main md stream os os2 alloc env n m rand_ok junk stat_ok reopened h0 threads out \<longleftrightarrow>
     (\<exists>f. hm_bit_commit_stops md stream os env n 1 h0 (Some empty_buffer) (Some empty_buffer) f \<and>
        threads = [] \<and> out = Stops f) \<or>
     (\<exists>commitment opening fl code h. hm_bit_commit md stream os env n 1 h0 (Some empty_buffer) (Some empty_buffer)
         commitment opening fl code h \<and>
       (if code \<noteq> 0 then threads = [] \<and> out = exit_after (bit_leave_scope commitment opening h) 1
        else if \<not> stat_ok then threads = [] \<and> out = Terminated
        else bit_verified md stream os2 alloc m rand_ok junk reopened commitment fl
          (bit_leave_scope commitment opening) h threads out))"

section \<open>Properties\<close>

lemma buffers_released:
  assumes "owns h base [buf_data c, buf_data p]"
  shows "\<exists>h'. bit_cleanup (Some c) (Some p) h = Inr ((), h') \<and> set (live h') = base"
    "\<exists>h'. bit_leave_scope (Some c) (Some p) h = Inr ((), h') \<and> set (live h') = base"
proof -
  from hm_buffer_free_run[OF assms] obtain c' h1 where "hm_buffer_free (Some c) h = Inr (c', h1)" "owns h1 base [buf_data p]"
    by metis
  moreover from hm_buffer_free_run[OF this(2)] obtain p' h2 where "hm_buffer_free (Some p) h1 = Inr (p', h2)" "owns h2 base []"
    by metis
  ultimately show "\<exists>h'. bit_cleanup (Some c) (Some p) h = Inr ((), h') \<and> set (live h') = base"
    by (auto simp: bit_cleanup_def bnd_Inr_iff ret_def owns_Nil)
  have "owns h base [buf_data p, buf_data c]" by (rule owns_perm[OF _ assms]) simp
  from hm_buffer_free_run[OF this] obtain p' h1 where "hm_buffer_free (Some p) h = Inr (p', h1)" "owns h1 base [buf_data c]"
    by metis
  moreover from hm_buffer_free_run[OF this(2)] obtain c' h2 where "hm_buffer_free (Some c) h1 = Inr (c', h2)" "owns h2 base []"
    by metis
  ultimately show "\<exists>h'. bit_leave_scope (Some c) (Some p) h = Inr ((), h') \<and> set (live h') = base"
    by (auto simp: bit_leave_scope_def bnd_Inr_iff ret_def owns_Nil)
qed

text \<open>The verification that both programs run after a commitment with code 0.\<close>

definition all_fine :: "os \<Rightarrow> (nat \<Rightarrow> bool) \<Rightarrow> bool \<Rightarrow> bool \<Rightarrow> VerifierThreadState worker list \<Rightarrow> bool" where
  "all_fine os2 alloc rand_ok reopened threads \<longleftrightarrow> (\<forall>off. int proofSize \<le> os2 off proofSize) \<and> alloc = (\<lambda>_. True) \<and>
     rand_ok \<and> reopened \<and> \<not> list_ex is_broken threads"

lemma verify_after_commit:
  assumes job: "job_ok md env job" "published stream env b job c p" "\<And>k. k < NUM_ROUNDS \<Longrightarrow> record_written md stream job k fl"
    and env: "env_ok env"
    and run: "hm_bit_verify md stream os2 alloc m rand_ok junk (map_option (\<lambda>_. buf_bytes c) (buf_data c)) (buf_len c)
       True (if reopened then Some fl else None) threads code"
  shows "all_fine os2 alloc rand_ok reopened threads \<Longrightarrow> code = 0"
proof -
  assume fine: "all_fine os2 alloc rand_ok reopened threads"
  have len: "buf_len c = length (buf_bytes c)" and data: "map_option (\<lambda>_. buf_bytes c) (buf_data c) = Some (buf_bytes c)"
    using published_setup(1)[OF job(2) env] job(2) by (auto simp: published_def)
  from published_setup(2)[OF job(2) env, of junk fl] obtain h where
    h: "hm_bit_verify_setup stream True junk (Some (buf_bytes c)) (length (buf_bytes c)) True (Some fl)
       = Some (h, sha256 (rvec_msg (job_r job)), fl)" "uh_A h = uh_A (job_h job)" "uh_b h = uh_b (job_h job)"
    by blast
  have "round_accepted md stream os2 (\<lambda>_. True) h (sha256 (rvec_msg (job_r job))) fl k" if "k < NUM_ROUNDS" for k
    using job(3)[OF that] fine job(1) record_accepted_hash[OF h(2,3)]
    by (auto simp: round_accepted_def record_written_def job_ok_def all_fine_def)
  moreover have "hm_bit_verify md stream os2 (\<lambda>_. True) m True junk (Some (buf_bytes c)) (length (buf_bytes c)) True
      (Some fl) threads code" using run fine len data by (simp add: all_fine_def)
  ultimately show "code = 0" using verify_run_result(1)[OF _ h(1)] fine by (simp add: all_fine_def)
qed

text \<open>How the programs end once the commitment has returned, for both kinds of cleanup.\<close>

definition good_end :: "heap \<Rightarrow> bool \<Rightarrow> process_end \<Rightarrow> bool" where
  "good_end h0 fine out \<longleftrightarrow> (case out of
      Exits rc h \<Rightarrow> (rc = 0 \<or> rc = 1) \<and> set (live h) = set (live h0) \<and> (fine \<longrightarrow> rc = 0)
    | Stops f \<Rightarrow> f = NoMemory \<and> (\<exists>k. \<not> may_alloc h0 k)
    | Terminated \<Rightarrow> False)"

lemma good_exit:
  assumes "cleaned = Inr ((), h)" "set (live h) = set (live h0)" "rc = 0 \<or> rc = 1" "fine \<Longrightarrow> rc = 0"
  shows "good_end h0 fine (exit_after cleaned rc)"
  using assms by (simp add: good_end_def exit_after_def)

lemma commit_stops_end:
  assumes "hm_bit_commit_stops md stream os env n 1 h0 (Some empty_buffer) (Some empty_buffer) f"
    and "computes_sha256 md" "env_ok env" "heap_ok h0"
  shows "good_end h0 fine (Stops f)"
proof -
  have z: "buf_data empty_buffer = None" by (simp add: empty_buffer_def)
  from commit_stops[OF assms z z] show ?thesis by (simp add: good_end_def)
qed

lemma commit_end:
  assumes run: "hm_bit_commit md stream os env n 1 h0 (Some empty_buffer) (Some empty_buffer) commitment opening fl code h"
    and ok: "computes_sha256 md" "env_ok env" "heap_ok h0"
    and cleanup: "\<forall>c p h. owns h (set (live h0)) [buf_data c, buf_data p] \<longrightarrow>
       (\<exists>h'. cleanup (Some c) (Some p) h = Inr ((), h') \<and> set (live h') = set (live h0))"
  shows "good_end h0 False (exit_after (cleanup commitment opening h) 1)"
    "code = 0 \<Longrightarrow> bit_verified md stream os2 alloc m rand_ok junk reopened commitment fl (cleanup commitment opening) h
       threads out \<Longrightarrow> good_end h0 (all_fine os2 alloc rand_ok reopened threads) out"
proof -
  have z: "buf_data empty_buffer = None" by (simp add: empty_buffer_def)
  from commit_run_result[OF run ok z z] obtain c p where
    c: "commitment = Some c" "opening = Some p" and own: "owns h (set (live h0)) [buf_data c, buf_data p]"
    and M: "may_alloc h = may_alloc h0"
    and job: "code = 0 \<longrightarrow> (\<exists>job. job_ok md env job \<and> published stream env 1 job c p \<and>
       (\<forall>k<NUM_ROUNDS. record_written md stream job k fl) \<and> length fl \<le> NUM_ROUNDS * proofSize)" by blast
  from cleanup own obtain h' where "cleanup (Some c) (Some p) h = Inr ((), h')" "set (live h') = set (live h0)" by blast
  with good_exit[of _ _ h0 1 False] show "good_end h0 False (exit_after (cleanup commitment opening h) 1)"
    by (simp add: c)
  assume 0: "code = 0" and "bit_verified md stream os2 alloc m rand_ok junk reopened commitment fl
    (cleanup commitment opening) h threads out"
  then consider (stops) f where "hm_bit_verify_stops md stream os2 alloc m rand_ok junk
        (map_option (\<lambda>_. buf_bytes c) (buf_data c)) (buf_len c) True (if reopened then Some fl else None) h f" "out = Stops f"
    | (returns) code2 h2 where "hm_bit_verify_on md stream os2 alloc m rand_ok junk
        (map_option (\<lambda>_. buf_bytes c) (buf_data c)) (buf_len c) True (if reopened then Some fl else None) threads code2 h h2"
      "out = exit_after (cleanup commitment opening h2) (if code2 \<noteq> 0 then 1 else 0)"
    unfolding bit_verified_def c(1) option.case by blast
  then show "good_end h0 (all_fine os2 alloc rand_ok reopened threads) out"
  proof cases
    case stops
    from verify_stops[OF stops(1) own] M show ?thesis by (simp add: good_end_def stops(2))
  next
    case returns
    from job 0 obtain j where j: "job_ok md env j" "published stream env 1 j c p"
      "\<And>k. k < NUM_ROUNDS \<Longrightarrow> record_written md stream j k fl" by blast
    have "hm_bit_verify md stream os2 alloc m rand_ok junk (map_option (\<lambda>_. buf_bytes c) (buf_data c)) (buf_len c) True
        (if reopened then Some fl else None) threads code2" using returns(1) unfolding hm_bit_verify_def by blast
    note fine = verify_after_commit[OF j ok(2) this]
    have "owns h2 (set (live h0)) [buf_data c, buf_data p]" using verify_heap[OF returns(1) own] by simp
    with cleanup obtain h3 where h3: "cleanup commitment opening h2 = Inr ((), h3)" "set (live h3) = set (live h0)"
      unfolding c by blast
    show ?thesis unfolding returns(2) by (rule good_exit[OF h3]) (use fine in auto)
  qed
qed

text \<open>C19: examples/bit\_commit.c and examples/bit\_commit.cpp from start to the end of the process.
  Whatever fails in the library and whatever the schedules of the two regions, a run that ends does
  so in one of three ways.  It exits with 0 or 1, and then the blocks of both buffers, of base\_ctx in
  the commitment and in the verification, and of every thread state have been freed exactly once, so
  that the heap has the blocks it had before; when the verification was reached, its threads started
  and the reads and allocations succeeded, the exit code is 0.  Or setupSHA256 aborts the process,
  which takes a failed allocation.  Or, in the C++ program alone, std::filesystem::file\_size cannot
  determine the size of the proof file, and its exception, which is not caught, ends the process.
  Buffers and contexts that H, the tapes and the circuits allocate and release within one call are
  not on this heap, and an abort inside these calls is left out.\<close>

theorem bit_commit_main_correct:
  assumes "computes_sha256 md" "env_ok env" "heap_ok h0"
  shows "(bit_commit_main md stream os os2 alloc env n m rand_ok junk reopened h0 threads out \<longrightarrow>
      (case out of
         Exits rc h \<Rightarrow> (rc = 0 \<or> rc = 1) \<and> set (live h) = set (live h0) \<and>
           (all_fine os2 alloc rand_ok reopened threads \<and> threads \<noteq> [] \<longrightarrow> rc = 0)
       | Stops f \<Rightarrow> f = NoMemory \<and> (\<exists>k. \<not> may_alloc h0 k)
       | Terminated \<Rightarrow> False)) \<and>
    (bit_commit_cpp_main md stream os os2 alloc env n m rand_ok junk stat_ok reopened h0 threads out \<longrightarrow>
      (case out of
         Exits rc h \<Rightarrow> (rc = 0 \<or> rc = 1) \<and> set (live h) = set (live h0) \<and>
           (all_fine os2 alloc rand_ok reopened threads \<and> threads \<noteq> [] \<longrightarrow> rc = 0)
       | Stops f \<Rightarrow> f = NoMemory \<and> (\<exists>k. \<not> may_alloc h0 k)
       | Terminated \<Rightarrow> \<not> stat_ok))"
proof -
  let ?fine = "all_fine os2 alloc rand_ok reopened threads \<and> threads \<noteq> []"
  have weaken: "good_end h0 ?fine out" if "good_end h0 fine out" "?fine \<longrightarrow> fine" for fine
    using that by (auto simp: good_end_def split: process_end.splits)
  have released: "\<forall>c p h. owns h (set (live h0)) [buf_data c, buf_data p] \<longrightarrow>
      (\<exists>h'. bit_cleanup (Some c) (Some p) h = Inr ((), h') \<and> set (live h') = set (live h0))"
    "\<forall>c p h. owns h (set (live h0)) [buf_data c, buf_data p] \<longrightarrow>
      (\<exists>h'. bit_leave_scope (Some c) (Some p) h = Inr ((), h') \<and> set (live h') = set (live h0))"
    using buffers_released by blast+
  note ends = commit_end[where cleanup = bit_cleanup, OF _ assms released(1)]
    commit_end[where cleanup = bit_leave_scope, OF _ assms released(2)]
  have C: "good_end h0 ?fine out"
    if run: "bit_commit_main md stream os os2 alloc env n m rand_ok junk reopened h0 threads out"
    using run unfolding bit_commit_main_def
  proof (elim disjE exE conjE)
    fix f assume "hm_bit_commit_stops md stream os env n 1 h0 (Some empty_buffer) (Some empty_buffer) f" "out = Stops f"
    with commit_stops_end[OF _ assms] show ?thesis by blast
  next
    fix cm op fl code h
    assume r: "hm_bit_commit md stream os env n 1 h0 (Some empty_buffer) (Some empty_buffer) cm op fl code h"
      "if code \<noteq> 0 then threads = [] \<and> out = exit_after (bit_cleanup cm op h) 1
       else bit_verified md stream os2 alloc m rand_ok junk reopened cm fl (bit_cleanup cm op) h threads out"
    show ?thesis
    proof (cases "code = 0")
      case True
      with r(2) have "bit_verified md stream os2 alloc m rand_ok junk reopened cm fl (bit_cleanup cm op) h threads out" by simp
      from weaken[OF ends(2)[OF r(1) True this]] show ?thesis by blast
    qed (use r(2) weaken[of False] ends(1)[OF r(1)] in simp)
  qed
  have CPP: "good_end h0 ?fine out \<or> \<not> stat_ok \<and> out = Terminated"
    if run: "bit_commit_cpp_main md stream os os2 alloc env n m rand_ok junk stat_ok reopened h0 threads out"
    using run unfolding bit_commit_cpp_main_def
  proof (elim disjE exE conjE)
    fix f assume "hm_bit_commit_stops md stream os env n 1 h0 (Some empty_buffer) (Some empty_buffer) f" "out = Stops f"
    with commit_stops_end[OF _ assms] show ?thesis by blast
  next
    fix cm op fl code h
    assume r: "hm_bit_commit md stream os env n 1 h0 (Some empty_buffer) (Some empty_buffer) cm op fl code h"
      "if code \<noteq> 0 then threads = [] \<and> out = exit_after (bit_leave_scope cm op h) 1
       else if \<not> stat_ok then threads = [] \<and> out = Terminated
       else bit_verified md stream os2 alloc m rand_ok junk reopened cm fl (bit_leave_scope cm op) h threads out"
    show ?thesis
    proof (cases "code = 0 \<and> stat_ok")
      case True
      with r(2) have "code = 0" "bit_verified md stream os2 alloc m rand_ok junk reopened cm fl (bit_leave_scope cm op) h threads out"
        by simp_all
      from weaken[OF ends(4)[OF r(1) this]] show ?thesis by blast
    qed (use r(2) weaken[of False] ends(3)[OF r(1)] in \<open>auto split: if_splits\<close>)
  qed
  show ?thesis
    using C CPP by (cases out) (auto simp: good_end_def)
qed

text \<open>C29: The proof file has one record per round and nothing else.  After every run of hm\_bit\_commit that
  returns 0, with any number of threads and any order of their writes, the size that the example
  reports is NUM_ROUNDS times proofSize, 2442016 bytes; when the file cannot be opened, it is -1.\<close>

theorem proof_file_size:
  assumes "hm_bit_commit md stream os env n b h0 (Some c0) (Some p0) c p file 0 h1"
    and "computes_sha256 md" "env_ok env" "heap_ok h0" "buf_data c0 = None" "buf_data p0 = None"
  shows "get_file_size (Some file) = int (NUM_ROUNDS * proofSize) \<and> NUM_ROUNDS * proofSize = 2442016 \<and>
     get_file_size None = -1"
proof (rule commit_run_result[OF assms])
  fix c1 p1
  assume "0 = (0::int) \<Longrightarrow> \<exists>job. job_ok md env job \<and> published stream env b job c1 p1 \<and>
       (\<forall>k<NUM_ROUNDS. record_written md stream job k file) \<and> length file \<le> NUM_ROUNDS * proofSize"
  then obtain job where j: "\<And>k. k < NUM_ROUNDS \<Longrightarrow> record_written md stream job k file" "length file \<le> NUM_ROUNDS * proofSize" by auto
  have "135 * proofSize + proofSize \<le> length file"
    using j(1)[of 135] by (auto simp: record_written_def file_record_def Let_def size_values param_values split: if_splits)
  with j(2) show ?thesis by (simp add: get_file_size_def size_values param_values)
qed

lemma proof_file_size_witness: "\<exists>f. get_file_size (Some f) = 2442016"
proof -
  have z: "buf_data zero_buffer = None" by (simp add: zero_buffer_def)
  obtain c p f h1 where run: "hm_bit_commit demo_md (\<lambda>_ _. 0) (\<lambda>_ n. int n) demo_env 1 1 roomy_heap
     (Some zero_buffer) (Some zero_buffer) (Some c) (Some p) f 0 h1" using demo_commit_run by blast
  from proof_file_size[OF run demo_md_ok(1) demo_env_ok z z] show ?thesis by (intro exI[of _ f]) linarith
qed

lemma demo_bit_run:
  "\<exists>threads out. bit_commit_main demo_md (\<lambda>_ _. 0) (\<lambda>_ n. int n) (\<lambda>_ n. int n) (\<lambda>_. True) demo_env 1 1 True demo_hash
     True roomy_heap threads out \<and> threads \<noteq> [] \<and> \<not> list_ex is_broken threads"
proof -
  have e: "zero_buffer = empty_buffer" by (simp add: zero_buffer_def empty_buffer_def)
  have z: "buf_data empty_buffer = None" by (simp add: empty_buffer_def)
  obtain c p f h1 where run: "hm_bit_commit demo_md (\<lambda>_ _. 0) (\<lambda>_ n. int n) demo_env 1 1 roomy_heap
     (Some empty_buffer) (Some empty_buffer) (Some c) (Some p) f 0 h1" using demo_commit_run unfolding e by blast
  from commit_run_result[OF run demo_md_ok(1) demo_env_ok z z] obtain job p1 where
    j: "published (\<lambda>_ _. 0) demo_env 1 job c p1" and own: "owns h1 (set (live roomy_heap)) [buf_data c, buf_data p]"
    and M: "may_alloc h1 = may_alloc roomy_heap" by (metis option.inject)
  note len = published_setup(1)[OF j demo_env_ok(1)]
  have data: "map_option (\<lambda>_. buf_bytes c) (buf_data c) = Some (buf_bytes c)" using j by (auto simp: published_def)
  obtain h where h: "hm_bit_verify_setup (\<lambda>_ _. 0) True demo_hash (Some (buf_bytes c)) (length (buf_bytes c)) True (Some f)
      = Some (h, sha256 (rvec_msg (job_r job)), f)" using published_setup(2)[OF j demo_env_ok(1)] by blast
  have "heap_ok h1" "\<forall>k. may_alloc h1 k" using own M by (simp_all add: owns_def roomy_heap_def)
  from verify_run_exists_on[OF h demo_md_ok(2) this, of "\<lambda>_ n. int n" "\<lambda>_. True"] obtain threads rc m1 where
    v: "hm_bit_verify_on demo_md (\<lambda>_ _. 0) (\<lambda>_ n. int n) (\<lambda>_. True) 1 True demo_hash (Some (buf_bytes c))
       (length (buf_bytes c)) True (Some f) threads rc h1 m1" "\<not> list_ex is_broken threads" "length threads = 1" by blast
  have "owns m1 (set (live roomy_heap)) [buf_data c, buf_data p]" using verify_heap[OF v(1) own] by simp
  from buffers_released(1)[OF this] obtain h2 where "bit_cleanup (Some c) (Some p) m1 = Inr ((), h2)" by blast
  then have "bit_verified demo_md (\<lambda>_ _. 0) (\<lambda>_ n. int n) (\<lambda>_. True) 1 True demo_hash True (Some c) f
      (bit_cleanup (Some c) (Some p)) h1 threads (Exits (if rc \<noteq> 0 then 1 else 0) h2)"
    unfolding bit_verified_def option.case data len using v(1)
    by (intro disjI2 exI[of _ rc] exI[of _ m1] conjI) (simp_all add: exit_after_def)
  with run v(2,3) show ?thesis unfolding bit_commit_main_def
    by (intro exI[of _ threads] exI[of _ "Exits (if rc \<noteq> 0 then 1 else 0) h2"] conjI disjI2 exI[of _ "Some c"]
        exI[of _ "Some p"] exI[of _ f] exI[of _ "0::int"] exI[of _ h1]) auto
qed

lemma bit_commit_main_correct_witness:
  "\<exists>threads h. bit_commit_main demo_md (\<lambda>_ _. 0) (\<lambda>_ n. int n) (\<lambda>_ n. int n) (\<lambda>_. True) demo_env 1 1 True demo_hash
     True roomy_heap threads (Exits 0 h) \<and> threads \<noteq> [] \<and> live h = []"
proof -
  obtain threads out where r: "bit_commit_main demo_md (\<lambda>_ _. 0) (\<lambda>_ n. int n) (\<lambda>_ n. int n) (\<lambda>_. True) demo_env 1 1
      True demo_hash True roomy_heap threads out" "threads \<noteq> []" "\<not> list_ex is_broken threads" using demo_bit_run by blast
  have f: "all_fine (\<lambda>_ n. int n) (\<lambda>_. True) True True threads" using r(3) by (simp add: all_fine_def)
  from bit_commit_main_correct[OF demo_md_ok(1) demo_env_ok, of "\<lambda>_ _. 0" "\<lambda>_ n. int n" "\<lambda>_ n. int n" "\<lambda>_. True" 1 1 True
      demo_hash True threads out] r(1,2) f
  obtain h where "out = Exits 0 h" "set (live h) = set (live roomy_heap)"
    by (cases out) (auto simp: roomy_heap_def)
  with r(1,2) show ?thesis by (auto simp: roomy_heap_def)
qed

section \<open>Every use of HmBuffer\<close>

text \<open>
  What a scope does to the HmBuffer objects that are alive in it: construct an
  empty one, move-construct one from another, move-assign, destroy.  The
  objects are the list of their contents.
\<close>

datatype buffer_op = New | Move_From nat | Assign nat nat | Destroy nat

fun buffer_op_ok :: "nat \<Rightarrow> buffer_op \<Rightarrow> bool" where
  "buffer_op_ok n New = True"
| "buffer_op_ok n (Move_From j) = (j < n)"
| "buffer_op_ok n (Assign i j) = (i < n \<and> j < n)"
| "buffer_op_ok n (Destroy i) = (i < n)"

fun buffer_op_run :: "buffer_op \<Rightarrow> hm_buffer_t list \<Rightarrow> (heap, hm_buffer_t list) prog" where
  "buffer_op_run New bs = ret (bs @ [empty_buffer])"
| "buffer_op_run (Move_From j) bs = (case HmBuffer_move (bs ! j) of (new, old) \<Rightarrow> ret (bs[j := old] @ [new]))"
| "buffer_op_run (Assign i j) bs =
     bnd (HmBuffer_assign (i = j) (bs ! i) (bs ! j)) (\<lambda>r. ret (bs[i := fst r, j := snd r]))"
| "buffer_op_run (Destroy i) bs = bnd (HmBuffer_destroy (bs ! i)) (\<lambda>_. ret (take i bs @ drop (Suc i) bs))"

fun buffer_ops_run :: "buffer_op list \<Rightarrow> hm_buffer_t list \<Rightarrow> (heap, hm_buffer_t list) prog" where
  "buffer_ops_run [] bs = ret bs"
| "buffer_ops_run (x # xs) bs = bnd (buffer_op_run x bs) (buffer_ops_run xs)"

fun buffer_ops_ok :: "nat \<Rightarrow> buffer_op list \<Rightarrow> bool" where
  "buffer_ops_ok n [] = True"
| "buffer_ops_ok n (x # xs) = (buffer_op_ok n x \<and>
     buffer_ops_ok (case x of New \<Rightarrow> n + 1 | Move_From _ \<Rightarrow> n + 1 | Assign _ _ \<Rightarrow> n | Destroy _ \<Rightarrow> n - 1) xs)"

lemma owns_None [simp]: "owns h base (None # ps) \<longleftrightarrow> owns h base ps"
  by (simp add: owns_def)

lemma empty_buffer_data [simp]: "buf_data empty_buffer = None"
  by (simp add: empty_buffer_def)

lemma map_mset_at:
  assumes "i < length bs"
  shows "mset (map f bs) = add_mset (f (bs ! i)) (mset (map f (take i bs @ drop (Suc i) bs)))"
proof -
  have "mset (map f (take i bs @ bs ! i # drop (Suc i) bs)) = add_mset (f (bs ! i)) (mset (map f (take i bs @ drop (Suc i) bs)))"
    by simp
  then show ?thesis using id_take_nth_drop[OF assms] by metis
qed

lemma mset_map_update:
  assumes "i < length bs"
  shows "mset (map f (bs[i := v])) = add_mset (f v) (mset (map f (take i bs @ drop (Suc i) bs)))"
  using assms by (simp add: upd_conv_take_nth_drop)

lemma buffer_assign_mset:
  assumes "i < length bs" "j < length bs" "i \<noteq> j"
  obtains rest where "mset (map buf_data bs) = mset (buf_data (bs ! i) # buf_data (bs ! j) # rest)"
    "mset (map buf_data (bs[i := bs ! j, j := empty_buffer])) = mset (buf_data (bs ! j) # rest @ [None])"
proof -
  let ?r = "map buf_data (take i bs @ drop (Suc i) bs)"
  let ?c = "bs[i := bs ! j]"
  have j: "buf_data (bs ! j) \<in># mset ?r"
    using map_mset_at[OF assms(2), of "\<lambda>b. b"] map_mset_at[OF assms(1), of "\<lambda>b. b"] assms nth_mem_mset
  proof -
    have "j < i \<or> Suc i \<le> j" using assms(3) by linarith
    then show ?thesis
    proof
      assume "j < i"
      then have "take i bs ! j = bs ! j" "j < length (take i bs)" using assms by simp_all
      then have "bs ! j \<in> set (take i bs)" by (metis nth_mem)
      then show ?thesis by simp
    next
      assume "Suc i \<le> j"
      then have "drop (Suc i) bs ! (j - Suc i) = bs ! j" "j - Suc i < length (drop (Suc i) bs)" using assms by simp_all
      then have "bs ! j \<in> set (drop (Suc i) bs)" by (metis nth_mem)
      then show ?thesis by simp
    qed
  qed
  obtain rest where rest: "mset rest = mset ?r - {#buf_data (bs ! j)#}" using ex_mset by blast
  have r: "mset ?r = add_mset (buf_data (bs ! j)) (mset rest)" using j rest by simp
  have c: "mset (map buf_data ?c) = add_mset (buf_data (bs ! j)) (mset ?r)" using mset_map_update[OF assms(1)] by simp
  have "?c ! j = bs ! j" "j < length ?c" using assms by simp_all
  from map_mset_at[OF this(2), of buf_data] this(1) c r
  have "mset (map buf_data (take j ?c @ drop (Suc j) ?c)) = add_mset (buf_data (bs ! j)) (mset rest)" by simp
  with mset_map_update[OF \<open>j < length ?c\<close>, of buf_data empty_buffer]
  have "mset (map buf_data (?c[j := empty_buffer])) = mset (buf_data (bs ! j) # rest @ [None])" by simp
  moreover have "mset (map buf_data bs) = mset (buf_data (bs ! i) # buf_data (bs ! j) # rest)"
    using map_mset_at[OF assms(1), of buf_data] r by simp
  ultimately show thesis by (rule that[rotated])
qed

lemma buffer_op_owns:
  assumes "owns h base (map buf_data bs)" "buffer_op_ok (length bs) x"
  obtains bs' h' where "buffer_op_run x bs h = Inr (bs', h')" "owns h' base (map buf_data bs')"
    "length bs' = (case x of New \<Rightarrow> length bs + 1 | Move_From _ \<Rightarrow> length bs + 1 | Assign _ _ \<Rightarrow> length bs
       | Destroy _ \<Rightarrow> length bs - 1)"
proof (cases x)
  case New
  have "owns h base (map buf_data (bs @ [empty_buffer]))" by (rule owns_perm[where ps = "None # map buf_data bs"]) (simp_all add: assms(1))
  then show thesis using that New by (simp add: ret_def)
next
  case (Move_From j)
  then have j: "j < length bs" using assms(2) by simp
  have "owns h base (map buf_data (bs[j := empty_buffer] @ [bs ! j]))"
    by (rule owns_perm[where ps = "None # map buf_data bs"])
      (simp_all add: assms(1) mset_map_update[OF j] map_mset_at[OF j, of buf_data] del: mset_map map_update)
  then show thesis using that Move_From by (simp add: ret_def HmBuffer_move_def)
next
  case (Assign i j)
  show thesis
  proof (cases "i = j")
    case True
    then show thesis using that assms Assign by (simp add: ret_def bnd_def HmBuffer_assign_def)
  next
    case False
    then obtain rest where r: "mset (map buf_data bs) = mset (buf_data (bs ! i) # buf_data (bs ! j) # rest)"
      "mset (map buf_data (bs[i := bs ! j, j := empty_buffer])) = mset (buf_data (bs ! j) # rest @ [None])"
      using buffer_assign_mset assms(2) Assign by (metis buffer_op_ok.simps(3))
    from hm_buffer_free_run[OF owns_perm[OF r(1) assms(1)]] obtain b h' where
      f: "hm_buffer_free (Some (bs ! i)) h = Inr (b, h')" "owns h' base (buf_data (bs ! j) # rest)" by metis
    have "owns h' base (map buf_data (bs[i := bs ! j, j := empty_buffer]))"
      by (rule owns_perm[where ps = "None # buf_data (bs ! j) # rest"]) (use r(2) f(2) in simp_all)
    then show thesis using that f(1) Assign False by (simp add: ret_def bnd_def HmBuffer_assign_def)
  qed
next
  case (Destroy i)
  then have i: "i < length bs" using assms(2) by simp
  have "mset (map buf_data bs) = mset (buf_data (bs ! i) # map buf_data (take i bs @ drop (Suc i) bs))"
    using map_mset_at[OF i, of buf_data] by simp
  from hm_buffer_free_run[OF owns_perm[OF this assms(1)]] obtain b h' where
    "hm_buffer_free (Some (bs ! i)) h = Inr (b, h')" "owns h' base (map buf_data (take i bs @ drop (Suc i) bs))" by metis
  then show thesis using that Destroy i by (simp add: ret_def bnd_def HmBuffer_destroy_def min_def)
qed

text \<open>C38: The class HmBuffer never frees twice and never leaks.  From any number of objects that own
  distinct blocks, every sequence of constructions, moves, move assignments (of an object to itself
  too) and destructions runs without freeing a block that is not allocated, and afterwards the
  allocated blocks are again exactly those of the objects still alive and those there were before;
  so none is left when all objects are destroyed.\<close>

theorem HmBuffer_owns:
  assumes "owns h base (map buf_data bs)" "buffer_ops_ok (length bs) xs"
  shows "\<exists>bs' h'. buffer_ops_run xs bs h = Inr (bs', h') \<and> owns h' base (map buf_data bs') \<and>
    (bs' = [] \<longrightarrow> set (live h') = base)"
  using assms
proof (induction xs arbitrary: bs h)
  case Nil
  then show ?case by (auto simp: ret_def owns_Nil)
next
  case (Cons x xs)
  from Cons.prems(2) have ok: "buffer_op_ok (length bs) x" by simp
  from buffer_op_owns[OF Cons.prems(1) ok] obtain bs1 h1 where
    1: "buffer_op_run x bs h = Inr (bs1, h1)" "owns h1 base (map buf_data bs1)"
      "length bs1 = (case x of New \<Rightarrow> length bs + 1 | Move_From _ \<Rightarrow> length bs + 1 | Assign _ _ \<Rightarrow> length bs
       | Destroy _ \<Rightarrow> length bs - 1)" by blast
  from Cons.prems(2) 1(3) have "buffer_ops_ok (length bs1) xs" by simp
  from Cons.IH[OF 1(2) this] 1(1) show ?case by (simp add: bnd_def)
qed

lemma HmBuffer_owns_witness:
  "\<exists>bs' h'. buffer_ops_run [New, Move_From 0, Assign 1 0, Assign 2 2, Destroy 0, Destroy 0, Destroy 0, Destroy 0]
      [\<lparr>buf_data = Some 3, buf_bytes = [1], buf_len = 1\<rparr>, \<lparr>buf_data = Some 4, buf_bytes = [2], buf_len = 1\<rparr>]
      \<lparr>live = [4, 3], requests = 7, may_alloc = (\<lambda>_. True)\<rparr> = Inr (bs', h') \<and> bs' = [] \<and> live h' = []"
proof -
  let ?ops = "[New, Move_From 0, Assign 1 0, Assign 2 2, Destroy 0, Destroy 0, Destroy 0, Destroy 0]"
  let ?bs = "[\<lparr>buf_data = Some 3, buf_bytes = [1], buf_len = 1\<rparr>, \<lparr>buf_data = Some 4, buf_bytes = [2], buf_len = 1\<rparr>]"
  let ?h = "\<lparr>live = [4, 3], requests = 7, may_alloc = (\<lambda>_. True)\<rparr> :: heap"
  have "owns ?h {} (map buf_data ?bs)" by (simp add: owns_def heap_ok_def insert_commute)
  moreover have "buffer_ops_ok (length ?bs) ?ops" by simp
  ultimately obtain bs' h' where r: "buffer_ops_run ?ops ?bs ?h = Inr (bs', h')" "bs' = [] \<longrightarrow> set (live h') = {}"
    using HmBuffer_owns by blast
  have "bs' = []" using r(1)
    by (auto simp: bnd_Inr_iff ret_def HmBuffer_move_def HmBuffer_assign_def HmBuffer_destroy_def)
  with r show ?thesis by auto
qed

end
