(* ===== verification/Carry_Forgery.thy ===== *)
theory Carry_Forgery
  imports ZK_Protocol
begin

unbundle bit_operations_syntax

text \<open>
  What the verifier's missing test of carry bit 0 permits.  The prover of this
  theory is an adversary, not code of the repository: in the final additions of
  the last block it may start the carries of a gate from 1.  Every verifier is
  the one of src/mpc\_arithmetic.c, src/mpc\_sha256\_verifier.c and
  src/hm\_zk.c.
\<close>

section \<open>An ADD gate with an injected carry\<close>

definition carry_ADD :: "bool \<Rightarrow> u32 arr3 \<Rightarrow> u32 arr3 \<Rightarrow> byte list arr3 \<Rightarrow> (pstate, u32 arr3) prog" where
  "carry_ADD b x y rnd = bnd (draw3 rnd) (\<lambda>r.
     let c = add_from (Arr3 (of_bool b) 0 0) x y r;
         z = zip3 (XOR) (zip3 (XOR) x y) c
     in bnd (push3 c) (\<lambda>_. ret z))"

interpretation carry_gate: mpc_gate "carry_ADD b" mpc_ADD_verify "add_from (Arr3 (of_bool b) 0 0)"
  "\<lambda>x y r w. list_all (add_check x y r w) [0..<31]"
  "\<lambda>x y w. zip3 (XOR) (zip3 (XOR) x y) w" "\<lambda>x y w. zip2 (XOR) (zip2 (XOR) x y) w"
  "\<lambda>x y. x + y + of_bool b" "\<lambda>c x y. x + y + of_bool c" for b
proof unfold_locales
  show "u + v + of_bool (bit (xor3 (add_from (Arr3 (of_bool b) 0 0) x y r)) 0) = u + v + of_bool b"
    for u v :: u32 and x y r
    using add_from_parity[of "Arr3 (of_bool b) 0 0" x y r] by (cases b) (simp_all add: xor3_def)
  show "xor3 (zip3 (XOR) (zip3 (XOR) x y) w) = xor3 x + xor3 y + of_bool (bit (xor3 w) 0)"
    if "\<And>e. e < 3 \<Longrightarrow> list_all (add_check (opened e x) (opened e y) (opened e r) (opened e w))
      [0..<31]" for x y r w
    using that by (rule add_check_sound)
qed (simp_all add: carry_ADD_def mpc_ADD_verify_def Let_def add_check_from)

section \<open>A circuit that outputs a wrong digest\<close>

definition carry_final :: "bool regs \<Rightarrow> byte list arr3 \<Rightarrow> u32 arr3 regs \<Rightarrow> u32 arr3 regs \<Rightarrow>
    (pstate, u32 arr3 regs) prog" where
  "carry_final bs rnd H r =
     bnd (carry_ADD (reg_a bs) (reg_a H) (reg_a r) rnd) (\<lambda>h0.
     bnd (carry_ADD (reg_b bs) (reg_b H) (reg_b r) rnd) (\<lambda>h1.
     bnd (carry_ADD (reg_c bs) (reg_c H) (reg_c r) rnd) (\<lambda>h2.
     bnd (carry_ADD (reg_d bs) (reg_d H) (reg_d r) rnd) (\<lambda>h3.
     bnd (carry_ADD (reg_e bs) (reg_e H) (reg_e r) rnd) (\<lambda>h4.
     bnd (carry_ADD (reg_f bs) (reg_f H) (reg_f r) rnd) (\<lambda>h5.
     bnd (carry_ADD (reg_g bs) (reg_g H) (reg_g r) rnd) (\<lambda>h6.
     bnd (carry_ADD (reg_h bs) (reg_h H) (reg_h r) rnd) (\<lambda>h7.
     ret (Regs h0 h1 h2 h3 h4 h5 h6 h7)))))))))"

definition add_bits :: "u32 regs \<Rightarrow> bool regs \<Rightarrow> u32 regs" where
  "add_bits r bs = zip_regs (\<lambda>x b. x + of_bool b) r bs"

lemma carry_final_accepted:
  "honest rnd 8 (\<lambda>z. map_regs xor3 z = add_bits (zip_regs (+) (map_regs xor3 H) (map_regs xor3 r)) bs)
     (\<lambda>e. map_regs (opened e)) (carry_final bs rnd H r)
     (\<lambda>e F. verify_final (sel3 F e) (sel3 F (succ3 e)) (opened e rnd)
        (map_regs (opened e) H) (map_regs (opened e) r))"
  unfolding carry_final_def verify_final_def
  by (cases H; cases r; cases bs; simp only: regs.map regs.sel, rule honest_count,
      (rule honest_bnd[OF carry_gate.honest_gate])+, rule honest_ret_eq)
    (simp_all add: zip_regs_def add_bits_def)

text \<open>The first blocks as the code computes them, injected carries in the last one.\<close>

definition carry_block :: "bool regs \<Rightarrow> byte list arr3 \<Rightarrow> byte list arr3 \<Rightarrow> nat \<Rightarrow> u32 arr3 regs \<Rightarrow>
    (pstate, u32 arr3 regs) prog" where
  "carry_block bs rnd padded blk H =
     bnd (loop (prove_schedule rnd) [16..<64] (load_block3 padded blk)) (\<lambda>w.
     bnd (loop (prove_round rnd w) [0..<64] H)
     (carry_final (if Suc blk = NUM_SHA256_BLOCKS then bs else Regs False False False False False False False False)
        rnd H))"

definition carry_circuit :: "bool regs \<Rightarrow> RVec arr3 \<Rightarrow> byte list arr3 \<Rightarrow> (pstate, u32 arr3 regs) prog" where
  "carry_circuit bs shares rnd = loop (carry_block bs rnd (map_arr3 pad_share shares)) [0..<NUM_SHA256_BLOCKS]
     (map_regs (\<lambda>k. Arr3 k k k) hA)"

lemma add_no_bits: "add_bits r (Regs False False False False False False False False) = r"
  by (cases r) (simp add: add_bits_def zip_regs_def)

lemma carry_circuit_accepted:
  assumes "wf_shares s"
  shows "honest rnd 2184 (\<lambda>H. map_regs xor3 H = add_bits (sha256_regs (rvec_msg (rvec_xor3 s))) bs)
     (\<lambda>e. map_regs (opened e)) (carry_circuit bs s rnd)
     (\<lambda>e F. loop (verify_block (sel3 F e) (sel3 F (succ3 e)) (opened e rnd)
         (opened e (map_arr3 pad_share s))) [0..<NUM_SHA256_BLOCKS] (map_regs (\<lambda>k. Arr2 k k) hA))"
proof -
  let ?p = "map_arr3 pad_share s" and ?m = "rvec_msg (rvec_xor3 s)"
  let ?f = "\<lambda>H blk. sha_compress H (block_words (sha_pad ?m) blk)"
  let ?Q = "\<lambda>i H. map_regs xor3 H = (if i = 3 then add_bits (foldl ?f hA [0..<3]) bs else foldl ?f hA [0..<i])"
  have "honest rnd (728 * (3 - 0)) (?Q 3) (\<lambda>e. map_regs (opened e))
     (loop (carry_block bs rnd ?p) [0..<3] (map_regs (\<lambda>k. Arr3 k k k) hA))
     (\<lambda>e F. loop (verify_block (sel3 F e) (sel3 F (succ3 e)) (opened e rnd) (opened e ?p)) [0..<3]
        (map_regs (opened e) (map_regs (\<lambda>k. Arr3 k k k) hA)))"
  proof (rule honest_for[where Q = ?Q])
    fix blk and H :: "u32 arr3 regs"
    assume blk: "blk < 3" and H: "?Q blk H"
    then have H: "map_regs xor3 H = foldl ?f hA [0..<blk]" by simp
    show "honest rnd 728 (?Q (Suc blk)) (\<lambda>e. map_regs (opened e)) (carry_block bs rnd ?p blk H)
        (\<lambda>e F. verify_block (sel3 F e) (sel3 F (succ3 e)) (opened e rnd) (opened e ?p) blk
          (map_regs (opened e) H))"
      unfolding carry_block_def
      by (rule honest_weaken[OF honest_block_with[OF load_block3_xor3[OF assms blk] carry_final_accepted]])
         (use blk in \<open>simp add: H sha_compress_def Let_def param_values add_no_bits less_Suc_eq numeral_3_eq_3
            split: if_splits\<close>)
  qed (simp_all add: regs.map_comp o_def regs.map_ident)
  moreover have "length (rvec_msg (rvec_xor3 s)) = 129"
    using wf_sharesD[OF assms] by (simp add: rvec_xor3_def)
  ultimately show ?thesis
    by (simp only: carry_circuit_def sha256_regs_def Let_def pad_129 param_values
        regs.map_comp o_def opened_same if_True) simp
qed

section \<open>A proof file for a wrong digest\<close>

text \<open>SHA-256 of the vector with some of its eight words incremented.\<close>

definition forged_digest :: "RVec \<Rightarrow> bool regs \<Rightarrow> byte list" where
  "forged_digest r bs = concat (map store_u32_be (regs_list (add_bits (sha256_regs (rvec_msg r)) bs)))"

lemma length_forged_digest [simp]: "length (forged_digest r bs) = 32"
  by (simp add: forged_digest_def regs_list_def)

lemma forged_digest_words: "load_digest_words (forged_digest r bs) = regs_list (add_bits (sha256_regs (rvec_msg r)) bs)"
  by (simp add: forged_digest_def load_digest_words_be)

lemma forged_digest_wrong:
  assumes "True \<in> set (regs_list bs)"
  shows "forged_digest r bs \<noteq> sha256 (rvec_msg r)"
proof
  assume "forged_digest r bs = sha256 (rvec_msg r)"
  then have "regs_list (add_bits (sha256_regs (rvec_msg r)) bs) = regs_list (sha256_regs (rvec_msg r))"
    using forged_digest_words[of r bs] by (simp add: sha256_def load_digest_words_be)
  then show False
    using assms by (cases bs; cases "sha256_regs (rvec_msg r)")
      (auto simp: regs_list_def add_bits_def zip_regs_def)
qed

text \<open>A trivial sharing of a vector.\<close>

lemma trivial_shares:
  assumes "wf_rvec r"
  shows "wf_shares (Arr3 r zero_rvec zero_rvec)" "rvec_xor3 (Arr3 r zero_rvec zero_rvec) = r"
proof -
  show "wf_shares (Arr3 r zero_rvec zero_rvec)"
    using assms by (simp add: wf_shares_def wf_rvec_def sel3_def zero_rvec_def)
  have "map2 (XOR) (words r) (replicate L_WORDS 0) = words r"
    by (rule nth_equalityI) (use assms in \<open>simp_all add: wf_rvec_def\<close>)
  then show "rvec_xor3 (Arr3 r zero_rvec zero_rvec) = r"
    by (cases r) (simp add: rvec_xor3_def zero_rvec_def)
qed

lemma forged_record:
  assumes h: "L_WORDS \<le> length (uh_A h)" "uh_b h \<noteq> []" and r: "wf_rvec r" and c: "hash_commits h r v"
    and md: "\<And>m. length (md m) = 32" "challenge_returns md"
  shows "\<exists>rec. length rec = proofSize \<and> record_accepted md stream True h (forged_digest r bs) rec"
proof -
  let ?s = "Arr3 r zero_rvec zero_rvec" and ?zv = "Arr3 zero_view zero_view zero_view"
    and ?keys = "Arr3 (replicate 16 0) (replicate 16 0) (replicate 16 0) :: byte list arr3"
    and ?rs = "Arr3 (replicate 4 0) (replicate 4 0) (replicate 4 0) :: byte list arr3"
    and ?m0 = "Arr3 (of_bool v) 0 0 :: u32 arr3" and ?d = "forged_digest r bs"
  let ?rnd = "generate_randomness stream ?keys"
  note s = trivial_shares[OF r]
  show ?thesis
  proof (rule circuit_views[OF carry_circuit_accepted[OF s(1), where bs = bs] zero_ready(2)[where keys = ?keys]])
    fix H t
    let ?v0 = "zip3 (\<lambda>v xy. v\<lparr>view_x := fst xy, view_y := snd xy\<rparr>) ?zv (zip3 Pair ?s (y_views t))"
    assume H: "map_regs xor3 H = add_bits (sha256_regs (rvec_msg (rvec_xor3 ?s))) bs"
      and ok: "accepted_views ?rnd ?s H ?v0"
    note x = accepted_viewsD(1,2)[OF ok]
    define views where "views = zip3 (\<lambda>w v. v\<lparr>view_msg := store_u32_le w\<rparr>) ?m0 ?v0"
    have v': "sel3 views e = (sel3 ?v0 e)\<lparr>view_msg := store_u32_le (sel3 ?m0 e)\<rparr>" for e
      unfolding views_def sel3_zip3 ..
    obtain y where y: "mpc_inner_prod_prove h ?m0 ?s = Inr y"
      using mpc_inner_prod_prove_eq[OF h(1)] by blast
    define a where "a = \<lparr>a_yp = Arr2 (at0 (output_lists H)) (at1 (output_lists H)), a_y2p = [y],
      a_h = zip3 (\<lambda>k w. H_view md k (fst w) (snd w)) ?keys (zip3 Pair views ?rs)\<rparr>"
    have wv: "wf_view (sel3 views e)" if "e < 3" for e
      using x[OF that] s(1) that by (simp add: v' wf_view_def wf_shares_def param_values)
    have wa: "wf_record a"
      by (simp add: a_def wf_record_def wf_commit_def output_lists_def param_values H_view_input md(1))
    have wo: "wf_open (zk_open e ?keys ?rs views)" if "e < 3" for e
      using that wv by (simp add: wf_open_def zk_open_def) (simp add: sel3_def)
    have xw: "regs_list (map_regs xor3 H) = load_digest_words ?d"
      by (simp add: H s(2) forged_digest_words)
    have m: "xor3 ?m0 = of_bool v" by (simp add: xor3_def)
    obtain es where "H3 md (base_context h) ?d [a] 1 = Some es"
      using md(2) wa unfolding challenge_returns_def by (metis not_None_eq)
    moreover from this obtain e where "es = [e]" and e: "e < 3" by (rule H3_one)
    ultimately have ch: "H3 md (base_context h) ?d [a] 1 = Some [e]" by simp
    have "mpc_hm_verify md stream True h a (zk_open e ?keys ?rs views) ?d e = Inr ()"
      by (rule round_accepts[OF h s(1) ok xw m _ y _ _ _ _ e, where rest = "\<lambda>_. []"])
         (use c s(2) x in \<open>simp_all add: a_def v'\<close>)
    from record_accepted_bytes[OF wa wo[OF e] ch this] length_record_bytes[OF wa wo[OF e]]
    show ?thesis by blast
  qed
qed

text \<open>C5: The verifier accepts proofs of false statements.  For every digest of 32 bytes whose challenge
  loop always returns, every opening vector, every key and
  bit, and every choice of digest words to increment, there are a commitment whose digest is not
  SHA-256 of the vector and a proof file that contains one record 136 times, such that every run of
  hm\_bit\_verify whose threads start and whose reads and allocations succeed returns 0.  The record
  answers all three challenges: the prover starts the carry of an ADD gate from 1, and
  mpc\_ADD\_verify compares carry bits 1 to 31 only.\<close>

theorem forged_proof_accepted:
  assumes "wf_rvec r" and "True \<in> set (regs_list bs)" and "length key = 16"
    and "\<And>m. length (md m) = 32" "challenge_returns md"
  shows "\<exists>c rec. length c = commitment_size \<and> take 16 c = key \<and>
     bit (c ! 16) 0 = (hash_row0 (mpc_hm_expand_matrix stream A_WORDS key) r \<noteq> v) \<and>
     drop 17 c = forged_digest r bs \<and> drop 17 c \<noteq> sha256 (rvec_msg r) \<and>
     (\<forall>os n h0 threads rc. (\<forall>off. int proofSize \<le> os off proofSize) \<longrightarrow> \<not> list_ex is_broken threads \<longrightarrow>
        hm_bit_verify md stream os (\<lambda>_. True) n True h0 (Some c) (length c) True
          (Some (concat (replicate NUM_ROUNDS rec))) threads rc \<longrightarrow> rc = 0)"
proof -
  define A where "A = mpc_hm_expand_matrix stream A_WORDS key"
  define b where "b = [of_bool (hash_row0 A r \<noteq> v) :: byte]"
  define h where "h = \<lparr>keyA = key, uh_A = A, uh_b = b\<rparr>"
  have hw: "L_WORDS \<le> length (uh_A h)" "uh_b h \<noteq> []" "hash_commits h r v"
    by (simp_all add: h_def A_def b_def hash_commits_def param_values)
  from forged_record[OF hw(1,2) assms(1) hw(3) assms(4,5)] obtain rec where
    rec: "length rec = proofSize" "record_accepted md stream True h (forged_digest r bs) rec" by blast
  define c where "c = key @ b @ forged_digest r bs"
  let ?f = "concat (replicate NUM_ROUNDS rec)"
  have "rc = 0" if os: "\<forall>off. int proofSize \<le> os off proofSize" and ok: "\<not> list_ex is_broken threads"
    and run: "hm_bit_verify md stream os (\<lambda>_. True) n True h0 (Some c) (length c) True (Some ?f) threads rc"
    for os n h0 threads rc
  proof -
    define h' where "h' = h0\<lparr>keyA := key, uh_b := b, uh_A := A\<rparr>"
    have su: "hm_bit_verify_setup stream True h0 (Some c) (length c) True (Some ?f)
        = Some (h', forged_digest r bs, ?f)"
      using assms(3) by (simp add: hm_bit_verify_setup_def hm_zk_read_commitment_def test_randomness_def
          c_def h'_def b_def A_def param_values)
    have "record_accepted md stream True h' (forged_digest r bs) rec"
      using rec(2) record_accepted_hash[of h' h] by (simp add: h'_def h_def)
    then have "round_accepted md stream os (\<lambda>_. True) h' (forged_digest r bs) ?f k" if "k < NUM_ROUNDS" for k
      using replay_rounds[OF rec(1) _ that] os by blast
    then show ?thesis using verify_run_result(1)[OF run su] ok by blast
  qed
  moreover have "length c = commitment_size" "take 16 c = key" "drop 17 c = forged_digest r bs"
    "bit (c ! 16) 0 = (hash_row0 A r \<noteq> v)"
    using assms(3) by (simp_all add: c_def b_def commitment_size_def param_values nth_append)
  ultimately show ?thesis
    using forged_digest_wrong[OF assms(2)] unfolding A_def by metis
qed

lemma forged_proof_accepted_witness:
  "\<exists>c rec threads. drop 17 c \<noteq> sha256 (rvec_msg zero_rvec) \<and>
     hm_bit_verify demo_md (\<lambda>_ _. 0) (\<lambda>_ n. int n) (\<lambda>_. True) 1 True demo_hash (Some c) (length c) True
       (Some (concat (replicate NUM_ROUNDS rec))) threads 0"
proof -
  have z: "wf_rvec zero_rvec" by (simp add: wf_rvec_def zero_rvec_def)
  have md: "length (demo_md m) = 32" for m using demo_md_ok(1) by (simp add: computes_sha256_def)
  have one: "True \<in> set (regs_list (Regs False False False False False False False True))"
    by (simp add: regs_list_def)
  from forged_proof_accepted[OF z one _ md demo_md_ok(2), of "replicate 16 0" "\<lambda>_ _. 0" True]
  obtain c rec where c: "length c = commitment_size" "drop 17 c \<noteq> sha256 (rvec_msg zero_rvec)"
    and acc: "\<And>threads rc. \<not> list_ex is_broken threads \<Longrightarrow> hm_bit_verify demo_md (\<lambda>_ _. 0) (\<lambda>_ n. int n) (\<lambda>_. True) 1 True
      demo_hash (Some c) (length c) True (Some (concat (replicate NUM_ROUNDS rec))) threads rc \<Longrightarrow> rc = 0"
    by fastforce
  have "\<exists>h y f. hm_bit_verify_setup (\<lambda>_ _. 0) True demo_hash (Some c) (length c) True
      (Some (concat (replicate NUM_ROUNDS rec))) = Some (h, y, f)"
    using c(1) by (simp add: hm_bit_verify_setup_def hm_zk_read_commitment_def test_randomness_def
        commitment_size_def param_values)
  then obtain threads rc where "hm_bit_verify demo_md (\<lambda>_ _. 0) (\<lambda>_ n. int n) (\<lambda>_. True) 1 True demo_hash
      (Some c) (length c) True (Some (concat (replicate NUM_ROUNDS rec))) threads rc" "\<not> list_ex is_broken threads"
    using verify_run_exists[OF _ demo_md_ok(2)] by metis
  with acc c(2) show ?thesis by blast
qed

end
