(* ===== verification/MPC_Privacy.thy ===== *)
theory MPC_Privacy
  imports MPC_HM
begin

unbundle bit_operations_syntax

text \<open>
  What two opened views reveal.  hides relates a prover program with the same
  program on other secrets: when the two opened parties start from the same
  values, there is a bijection between the words that the hidden party draws
  in the two runs, under which the opened parties end with the same values and
  the same published words.  So for uniformly random words of the hidden
  party, what is opened has the same distribution for both secrets.
\<close>

section \<open>The hidden party\<close>

definition hidden :: "nat \<Rightarrow> nat" where
  "hidden e = succ3 (succ3 e)"

definition with_hidden :: "nat \<Rightarrow> 'a arr3 \<Rightarrow> 'a \<Rightarrow> 'a arr3" where
  "with_hidden e a v = Arr3 (if hidden e = 0 then v else at0 a) (if hidden e = 1 then v else at1 a)
     (if hidden e = 2 then v else at2 a)"

lemma hidden_party:
  assumes "e < 3"
  shows "hidden e < 3" "hidden e \<noteq> e" "hidden e \<noteq> succ3 e" "succ3 (hidden e) = e"
  using challenge_cases[OF assms] by (elim disjE; simp add: hidden_def)+

lemma sel3_with_hidden:
  "e < 3 \<Longrightarrow> i < 3 \<Longrightarrow> sel3 (with_hidden e a v) i = (if i = hidden e then v else sel3 a i)"
  using challenge_cases[of i] hidden_party(1)[of e] by (auto simp: with_hidden_def sel3_def)

lemma opened_with_hidden [simp]: "e < 3 \<Longrightarrow> opened e (with_hidden e a v) = opened e a"
  using hidden_party[of e] by (simp add: opened_def sel3_with_hidden)

lemma map_with_hidden: "map_arr3 f (with_hidden e a v) = with_hidden e (map_arr3 f a) (f v)"
  by (cases a) (simp add: with_hidden_def)

lemma opened_eqD:
  "opened e a = opened e b \<Longrightarrow> sel3 a e = sel3 b e"
  "opened e a = opened e b \<Longrightarrow> sel3 a (succ3 e) = sel3 b (succ3 e)"
  by (simp_all add: opened_def)

lemma arr3_opened_eqI:
  assumes "e < 3" and "opened e a = opened e b" and "sel3 a (hidden e) = sel3 b (hidden e)"
  shows "a = b"
proof (rule arr3_eqI)
  fix i :: nat assume "i < 3"
  then have "i = e \<or> i = succ3 e \<or> i = hidden e"
    using challenge_cases[OF assms(1)] challenge_cases[of i] by (auto simp: hidden_def succ3_def)
  then show "sel3 a i = sel3 b i" using opened_eqD[OF assms(2)] assms(3) by auto
qed

text \<open>The tapes when the hidden party draws the words W.\<close>

definition tapes :: "nat \<Rightarrow> byte list arr3 \<Rightarrow> u32 list \<Rightarrow> byte list arr3" where
  "tapes e rnd W = with_hidden e rnd (le_bytes W)"

lemma draw_le_bytes: "k < length W \<Longrightarrow> draw (le_bytes W) (4 * k) = W ! k"
proof (induction W arbitrary: k)
  case (Cons w W)
  show ?case
  proof (cases k)
    case 0
    then show ?thesis using load_store_le[of w] by (simp add: draw_def le_bytes_def)
  next
    case (Suc i)
    then show ?thesis using Cons by (simp add: draw_def le_bytes_def)
  qed
qed simp

lemma draw_tapes:
  assumes "k < length W"
  shows "map_arr3 (\<lambda>t. draw t (4 * k)) (tapes e rnd W) = with_hidden e (map_arr3 (\<lambda>t. draw t (4 * k)) rnd) (W ! k)"
  using draw_le_bytes[OF assms] by (simp add: tapes_def map_with_hidden)

section \<open>Bijections on lists of words\<close>

definition wordlists :: "nat \<Rightarrow> u32 list set" where
  "wordlists n = {w. length w = n}"

lemma wordlists_1: "wordlists 1 = (\<lambda>v. [v]) ` UNIV"
  by (auto simp: wordlists_def length_Suc_conv)

lemma bij_singleton:
  assumes "bij g"
  shows "bij_betw (map g) (wordlists 1) (wordlists 1)"
proof (rule bij_betwI')
  show "\<exists>x\<in>wordlists 1. y = map g x" if "y \<in> wordlists 1" for y
  proof -
    from that obtain v where "y = [v]" by (auto simp: wordlists_def length_Suc_conv)
    moreover obtain u where "g u = v" using bij_pointE[OF assms] by metis
    ultimately show ?thesis by (intro bexI[of _ "[u]"]) (simp_all add: wordlists_def)
  qed
qed (use bij_is_inj[OF assms] in \<open>auto simp: wordlists_def\<close>)

lemma bij_append:
  assumes "bij_betw G (wordlists n) (wordlists n)"
    and "\<And>u. u \<in> wordlists n \<Longrightarrow> bij_betw (K u) (wordlists m) (wordlists m)"
  shows "bij_betw (\<lambda>w. G (take n w) @ K (take n w) (drop n w)) (wordlists (n + m)) (wordlists (n + m))"
    (is "bij_betw ?F _ _")
proof (rule bij_betwI')
  have G: "length (G u) = n" if "length u = n" for u
    using bij_betwE[OF assms(1)] that by (simp add: wordlists_def)
  have K: "length (K u v) = m" if "length u = n" "length v = m" for u v
    using bij_betwE[OF assms(2)] that by (simp add: wordlists_def)
  fix x assume x: "x \<in> wordlists (n + m)"
  then show "?F x \<in> wordlists (n + m)" using G K by (simp add: wordlists_def)
  fix y assume y: "y \<in> wordlists (n + m)"
  have "x = y" if "?F x = ?F y"
  proof -
    have t: "G (take n x) = G (take n y)" "K (take n x) (drop n x) = K (take n y) (drop n y)"
      using that x y G by (simp_all add: wordlists_def)
    then have "take n x = take n y"
      using bij_betw_imp_inj_on[OF assms(1)] x y by (simp add: inj_on_def wordlists_def)
    moreover from this have "drop n x = drop n y"
      using t(2) bij_betw_imp_inj_on[OF assms(2)[of "take n x"]] x y by (simp add: inj_on_def wordlists_def)
    ultimately show ?thesis by (metis append_take_drop_id)
  qed
  then show "(?F x = ?F y) = (x = y)" by blast
next
  fix y assume y: "y \<in> wordlists (n + m)"
  have "take n y \<in> G ` wordlists n" using y bij_betw_imp_surj_on[OF assms(1)] by (simp add: wordlists_def)
  then obtain u where u: "u \<in> wordlists n" "take n y = G u" by blast
  have "drop n y \<in> K u ` wordlists m" using y bij_betw_imp_surj_on[OF assms(2)[OF u(1)]] by (simp add: wordlists_def)
  then obtain v where v: "v \<in> wordlists m" "drop n y = K u v" by blast
  have "take n y @ drop n y = ?F (u @ v)" using u v by (simp add: wordlists_def)
  then have "y = ?F (u @ v)" by simp
  with u v show "\<exists>x\<in>wordlists (n + m). y = ?F x" by (intro bexI[of _ "u @ v"]) (simp_all add: wordlists_def)
qed

lemma bij_id_0: "bij_betw (\<lambda>w. w) (wordlists 0) (wordlists 0)"
  by (simp add: bij_betw_def)

section \<open>Programs that hide\<close>

definition space :: "nat \<Rightarrow> byte list arr3 \<Rightarrow> nat \<Rightarrow> pstate \<Rightarrow> bool" where
  "space e rnd n s \<longleftrightarrow> (\<forall>i<3. count_y (cnt s) + n \<le> length (sel3 (y_views s) i)
     \<and> (i \<noteq> hidden e \<longrightarrow> rand_count (cnt s) + 4 * n \<le> length (sel3 rnd i)))"

text \<open>Two states that the opened parties cannot tell apart.\<close>

definition same_open :: "nat \<Rightarrow> pstate \<Rightarrow> pstate \<Rightarrow> bool" where
  "same_open e s s' \<longleftrightarrow> cnt s = cnt s' \<and> opened e (y_views s) = opened e (y_views s') \<and>
     (\<forall>i<3. length (sel3 (y_views s) i) = length (sel3 (y_views s') i))"

definition hides :: "nat \<Rightarrow> byte list arr3 \<Rightarrow> nat \<Rightarrow> ('a \<Rightarrow> 'a \<Rightarrow> bool) \<Rightarrow>
    (byte list arr3 \<Rightarrow> (pstate, 'a) prog) \<Rightarrow> (byte list arr3 \<Rightarrow> (pstate, 'a) prog) \<Rightarrow> bool" where
  "hides e rnd n Q p q \<longleftrightarrow> (\<forall>s s' pre pre'. space e rnd n s \<longrightarrow> same_open e s s' \<longrightarrow>
     rand_count (cnt s) = 4 * length pre \<longrightarrow> length pre' = length pre \<longrightarrow>
     (\<exists>G. bij_betw G (wordlists n) (wordlists n) \<and> (\<forall>w\<in>wordlists n. \<exists>z z' t t'. Q z z' \<and> moved n s t \<and>
        same_open e t t' \<and> (\<forall>post. p (tapes e rnd (pre @ w @ post)) s = Inr (z, t)) \<and>
        (\<forall>post. q (tapes e rnd (pre' @ G w @ post)) s' = Inr (z', t')))))"

lemma hidesI:
  fixes rnd :: "byte list arr3"
  assumes "\<And>s s' (pre :: u32 list) (pre' :: u32 list). space e rnd n s \<Longrightarrow> same_open e s s' \<Longrightarrow>
     rand_count (cnt s) = 4 * length pre \<Longrightarrow> length pre' = length pre \<Longrightarrow>
     \<exists>G. bij_betw G (wordlists n) (wordlists n) \<and> (\<forall>w\<in>wordlists n. \<exists>z z' t t'. Q z z' \<and> moved n s t \<and>
        same_open e t t' \<and> (\<forall>post. p (tapes e rnd (pre @ w @ post)) s = Inr (z, t)) \<and>
        (\<forall>post. q (tapes e rnd (pre' @ G w @ post)) s' = Inr (z', t')))"
  shows "hides e rnd n Q p q"
  using assms by (simp add: hides_def)

lemma hidesE:
  assumes "hides e rnd n Q p q" "space e rnd n s" "same_open e s s'"
    "rand_count (cnt s) = 4 * length pre" "length pre' = length pre"
  obtains G where "bij_betw G (wordlists n) (wordlists n)"
    "\<And>w. w \<in> wordlists n \<Longrightarrow> \<exists>z z' t t'. Q z z' \<and> moved n s t \<and>
        same_open e t t' \<and> (\<forall>post. p (tapes e rnd (pre @ w @ post)) s = Inr (z, t)) \<and>
        (\<forall>post. q (tapes e rnd (pre' @ G w @ post)) s' = Inr (z', t'))"
proof -
  from assms(1)[unfolded hides_def, rule_format, OF assms(2-5)] show thesis using that by blast
qed

lemma space_split: "space e rnd (n + m) s \<Longrightarrow> space e rnd n s"
  by (auto simp: space_def)

lemma space_moved: "space e rnd (n + m) s \<Longrightarrow> moved n s t \<Longrightarrow> space e rnd m t"
  by (fastforce simp: space_def moved_def advance_def)

lemma space_room:
  assumes "e < 3" and "space e rnd n s" and "rand_count (cnt s) + 4 * n \<le> 4 * length W"
  shows "room (tapes e rnd W) n s"
  using assms by (auto simp: room_def space_def tapes_def sel3_with_hidden)

lemma hides_ret: "Q z z' \<Longrightarrow> hides e rnd 0 Q (\<lambda>R. ret z) (\<lambda>R. ret z')"
  by (rule hidesI) (use bij_id_0 in \<open>auto simp: wordlists_def intro!: exI[of _ "\<lambda>w. w"]\<close>)

lemma hides_bnd:
  assumes p: "hides e rnd n Q p q"
    and f: "\<And>z z'. Q z z' \<Longrightarrow> hides e rnd m P (\<lambda>R. f R z) (\<lambda>R. g R z')"
  shows "hides e rnd (n + m) P (\<lambda>R. bnd (p R) (f R)) (\<lambda>R. bnd (q R) (g R))"
proof (rule hidesI)
  fix s s' and pre pre' :: "u32 list"
  assume a: "space e rnd (n + m) s" "same_open e s s'" "rand_count (cnt s) = 4 * length pre" "length pre' = length pre"
  obtain G where G: "bij_betw G (wordlists n) (wordlists n)"
    and run: "\<And>w. w \<in> wordlists n \<Longrightarrow> \<exists>z z' t t'. Q z z' \<and> moved n s t \<and>
        same_open e t t' \<and> (\<forall>post. p (tapes e rnd (pre @ w @ post)) s = Inr (z, t)) \<and>
        (\<forall>post. q (tapes e rnd (pre' @ G w @ post)) s' = Inr (z', t'))"
    by (rule hidesE[OF p space_split[OF a(1)] a(2-4)]) blast
  let ?second = "\<lambda>u K. bij_betw K (wordlists m) (wordlists m) \<and> (\<forall>v\<in>wordlists m. \<exists>y y' r r'. P y y' \<and>
      moved (n + m) s r \<and> same_open e r r' \<and>
      (\<forall>post. bnd (p (tapes e rnd (pre @ u @ v @ post))) (f (tapes e rnd (pre @ u @ v @ post))) s = Inr (y, r)) \<and>
      (\<forall>post. bnd (q (tapes e rnd (pre' @ G u @ K v @ post))) (g (tapes e rnd (pre' @ G u @ K v @ post))) s' = Inr (y', r')))"
  have "\<exists>K. ?second u K" if u: "u \<in> wordlists n" for u
  proof -
    from run[OF u] obtain z z' t t' where z: "Q z z'" "moved n s t" "same_open e t t'"
      "\<And>post. p (tapes e rnd (pre @ u @ post)) s = Inr (z, t)"
      "\<And>post. q (tapes e rnd (pre' @ G u @ post)) s' = Inr (z', t')" by blast
    have len: "length u = n" "length (G u) = n"
      using u bij_betwE[OF G] by (auto simp: wordlists_def)
    have "rand_count (cnt t) = 4 * length (pre @ u)" "length (pre' @ G u) = length (pre @ u)"
      using z(2) a(3,4) len by (simp_all add: moved_def advance_def)
    from hidesE[OF f[OF z(1)] space_moved[OF a(1) z(2)] z(3) this] obtain K where
      K: "bij_betw K (wordlists m) (wordlists m)" "\<And>v. v \<in> wordlists m \<Longrightarrow> \<exists>y y' r r'. P y y' \<and> moved m t r \<and>
        same_open e r r' \<and> (\<forall>post. f (tapes e rnd ((pre @ u) @ v @ post)) z t = Inr (y, r)) \<and>
        (\<forall>post. g (tapes e rnd ((pre' @ G u) @ K v @ post)) z' t' = Inr (y', r'))" by blast
    have "?second u K"
    proof (intro conjI ballI K(1))
      fix v assume "v \<in> wordlists m"
      from K(2)[OF this] obtain y y' r r' where y: "P y y'" "moved m t r" "same_open e r r'"
        "\<And>post. f (tapes e rnd (pre @ u @ v @ post)) z t = Inr (y, r)"
        "\<And>post. g (tapes e rnd (pre' @ G u @ K v @ post)) z' t' = Inr (y', r')" by auto
      then show "\<exists>y y' r r'. P y y' \<and> moved (n + m) s r \<and> same_open e r r' \<and>
        (\<forall>post. bnd (p (tapes e rnd (pre @ u @ v @ post))) (f (tapes e rnd (pre @ u @ v @ post))) s = Inr (y, r)) \<and>
        (\<forall>post. bnd (q (tapes e rnd (pre' @ G u @ K v @ post))) (g (tapes e rnd (pre' @ G u @ K v @ post))) s' = Inr (y', r'))"
        using moved_trans[OF z(2) y(2)] z(4,5) by (intro exI[of _ y] exI[of _ y'] exI[of _ r] exI[of _ r']) simp
    qed
    then show ?thesis by blast
  qed
  then obtain K where K: "\<And>u. u \<in> wordlists n \<Longrightarrow> ?second u (K u)" by metis
  show "\<exists>G. bij_betw G (wordlists (n + m)) (wordlists (n + m)) \<and> (\<forall>w\<in>wordlists (n + m). \<exists>z z' t t'. P z z' \<and>
      moved (n + m) s t \<and> same_open e t t' \<and>
      (\<forall>post. bnd (p (tapes e rnd (pre @ w @ post))) (f (tapes e rnd (pre @ w @ post))) s = Inr (z, t)) \<and>
      (\<forall>post. bnd (q (tapes e rnd (pre' @ G w @ post))) (g (tapes e rnd (pre' @ G w @ post))) s' = Inr (z', t')))"
  proof (rule exI, rule conjI)
    show "bij_betw (\<lambda>w. G (take n w) @ K (take n w) (drop n w)) (wordlists (n + m)) (wordlists (n + m))"
      by (rule bij_append[OF G]) (use K in blast)
    show "\<forall>w\<in>wordlists (n + m). \<exists>z z' t t'. P z z' \<and> moved (n + m) s t \<and> same_open e t t' \<and>
      (\<forall>post. bnd (p (tapes e rnd (pre @ w @ post))) (f (tapes e rnd (pre @ w @ post))) s = Inr (z, t)) \<and>
      (\<forall>post. bnd (q (tapes e rnd (pre' @ (G (take n w) @ K (take n w) (drop n w)) @ post)))
         (g (tapes e rnd (pre' @ (G (take n w) @ K (take n w) (drop n w)) @ post))) s' = Inr (z', t'))"
    proof
    fix w assume "w \<in> wordlists (n + m)"
    then have u: "take n w \<in> wordlists n" and v: "drop n w \<in> wordlists m" by (simp_all add: wordlists_def)
    from K[OF u] v obtain y y' r r' where y: "P y y'" "moved (n + m) s r" "same_open e r r'"
      "\<And>post. bnd (p (tapes e rnd (pre @ take n w @ drop n w @ post))) (f (tapes e rnd (pre @ take n w @ drop n w @ post))) s = Inr (y, r)"
      "\<And>post. bnd (q (tapes e rnd (pre' @ G (take n w) @ K (take n w) (drop n w) @ post)))
         (g (tapes e rnd (pre' @ G (take n w) @ K (take n w) (drop n w) @ post))) s' = Inr (y', r')" by blast
    have w: "take n w @ drop n w @ post = w @ post" for post by (metis append_assoc append_take_drop_id)
    show "\<exists>z z' t t'. P z z' \<and> moved (n + m) s t \<and> same_open e t t' \<and>
      (\<forall>post. bnd (p (tapes e rnd (pre @ w @ post))) (f (tapes e rnd (pre @ w @ post))) s = Inr (z, t)) \<and>
      (\<forall>post. bnd (q (tapes e rnd (pre' @ (G (take n w) @ K (take n w) (drop n w)) @ post)))
         (g (tapes e rnd (pre' @ (G (take n w) @ K (take n w) (drop n w)) @ post))) s' = Inr (z', t'))"
      by (intro exI[of _ y] exI[of _ y'] exI[of _ r] exI[of _ r']) (use y(1-3) y(4)[unfolded w] y(5) in simp_all)
    qed
  qed
qed

lemma hides_count: "hides e rnd n Q p q \<Longrightarrow> n = m \<Longrightarrow> hides e rnd m Q p q"
  by simp

lemma hides_weaken:
  assumes "hides e rnd n Q p q" and "\<And>z z'. Q z z' \<Longrightarrow> P z z'"
  shows "hides e rnd n P p q"
proof (rule hidesI)
  fix s s' and pre pre' :: "u32 list"
  assume "space e rnd n s" "same_open e s s'" "rand_count (cnt s) = 4 * length pre" "length pre' = length pre"
  from hidesE[OF assms(1) this] obtain G where G: "bij_betw G (wordlists n) (wordlists n)"
    "\<And>w. w \<in> wordlists n \<Longrightarrow> \<exists>z z' t t'. Q z z' \<and> moved n s t \<and>
        same_open e t t' \<and> (\<forall>post. p (tapes e rnd (pre @ w @ post)) s = Inr (z, t)) \<and>
        (\<forall>post. q (tapes e rnd (pre' @ G w @ post)) s' = Inr (z', t'))" by blast
  show "\<exists>G. bij_betw G (wordlists n) (wordlists n) \<and> (\<forall>w\<in>wordlists n. \<exists>z z' t t'. P z z' \<and> moved n s t \<and>
        same_open e t t' \<and> (\<forall>post. p (tapes e rnd (pre @ w @ post)) s = Inr (z, t)) \<and>
        (\<forall>post. q (tapes e rnd (pre' @ G w @ post)) s' = Inr (z', t')))"
    by (intro exI[of _ G] conjI ballI G(1)) (use G(2) assms(2) in blast)
qed

lemma hides_loop:
  assumes "\<And>i a a'. i < length is \<Longrightarrow> Q i a a' \<Longrightarrow>
      hides e rnd n (Q (Suc i)) (\<lambda>R. f R (is ! i) a) (\<lambda>R. g R (is ! i) a')"
    and "Q 0 a a'"
  shows "hides e rnd (n * length is) (Q (length is)) (\<lambda>R. loop (f R) is a) (\<lambda>R. loop (g R) is a')"
  using assms
proof (induction "is" arbitrary: Q a a')
  case Nil
  then have "hides e rnd 0 (Q 0) (\<lambda>R. ret a) (\<lambda>R. ret a')" by (intro hides_ret)
  then show ?case by (simp del: ret_run)
next
  case (Cons i "is")
  have 1: "hides e rnd n (Q 1) (\<lambda>R. f R i a) (\<lambda>R. g R i a')"
    using Cons.prems(1)[of 0 a a'] Cons.prems(2) by simp
  have 2: "hides e rnd (n * length is) (Q (Suc (length is))) (\<lambda>R. loop (f R) is b) (\<lambda>R. loop (g R) is b')"
    if "Q 1 b b'" for b b'
    using Cons.IH[of "\<lambda>k. Q (Suc k)" b b'] Cons.prems(1)[of "Suc _"] that by fastforce
  show ?case
    using hides_bnd[where f = "\<lambda>R. loop (f R) is" and g = "\<lambda>R. loop (g R) is", OF 1 2] by simp
qed

lemma hides_for:
  assumes "\<And>j a a'. lo \<le> j \<Longrightarrow> j < hi \<Longrightarrow> Q j a a' \<Longrightarrow>
      hides e rnd n (Q (Suc j)) (\<lambda>R. f R j a) (\<lambda>R. g R j a')"
    and "Q lo a a'" and "lo \<le> hi"
  shows "hides e rnd (n * (hi - lo)) (Q hi) (\<lambda>R. loop (f R) [lo..<hi] a) (\<lambda>R. loop (g R) [lo..<hi] a')"
proof -
  have "hides e rnd (n * length [lo..<hi]) (Q (lo + length [lo..<hi])) (\<lambda>R. loop (f R) [lo..<hi] a)
      (\<lambda>R. loop (g R) [lo..<hi] a')"
    by (rule hides_loop[where Q = "\<lambda>i. Q (lo + i)"]) (use assms(1,2) in simp_all)
  with assms(3) show ?thesis by simp
qed

text \<open>Returning a value computed from the last result needs no further word.\<close>

lemma hides_let:
  assumes "hides e rnd n Q p q" and "\<And>z z'. Q z z' \<Longrightarrow> P (h z) (h' z')"
  shows "hides e rnd n P (\<lambda>R. bnd (p R) (\<lambda>z. ret (h z))) (\<lambda>R. bnd (q R) (\<lambda>z. ret (h' z)))"
proof (rule hides_count)
  show "hides e rnd (n + 0) P (\<lambda>R. bnd (p R) (\<lambda>z. ret (h z))) (\<lambda>R. bnd (q R) (\<lambda>z. ret (h' z)))"
    by (rule hides_bnd[OF assms(1)], rule hides_ret, rule assms(2))
qed simp

section \<open>Gates that hide\<close>

text \<open>
  The law of a private gate: with the words of the opened parties fixed, the
  word of the hidden party masks what is published.
\<close>

locale private_gate = mpc_gate +
  assumes masked: "e < 3 \<Longrightarrow> opened e x = opened e x' \<Longrightarrow> opened e y = opened e y' \<Longrightarrow>
     \<exists>g. bij g \<and> (\<forall>v. opened e (publish x y (with_hidden e r v)) = opened e (publish x' y' (with_hidden e r (g v))))"
begin

lemma gate_run:
  fixes x y :: "u32 arr3" and pre :: "u32 list"
  assumes "e < 3" and "space e rnd 1 s" and "rand_count (cnt s) = 4 * length pre"
  defines "c v \<equiv> publish x y (with_hidden e (map_arr3 (\<lambda>t. draw t (4 * length pre)) rnd) v)"
    and "t v \<equiv> s\<lparr>cnt := advance 1 (cnt s), y_views := zip3 (\<lambda>ys w. ys[count_y (cnt s) := w]) (y_views s)
        (publish x y (with_hidden e (map_arr3 (\<lambda>t. draw t (4 * length pre)) rnd) v))\<rparr>"
  shows "prove x y (tapes e rnd (pre @ [v] @ post)) s = Inr (out x y (c v), t v)" "moved 1 s (t v)"
proof -
  have room: "room (tapes e rnd (pre @ [v] @ post)) (Suc 0) s"
    by (rule space_room) (use assms(1-3) in simp_all)
  have "map_arr3 (\<lambda>t. draw t (rand_count (cnt s))) (tapes e rnd (pre @ [v] @ post))
      = with_hidden e (map_arr3 (\<lambda>t. draw t (4 * length pre)) rnd) v"
    using draw_tapes[of "length pre" "pre @ [v] @ post" e rnd] assms(3) by simp
  with draw3_run[OF room] push3_run(1)[OF room, of "c v"]
  show "prove x y (tapes e rnd (pre @ [v] @ post)) s = Inr (out x y (c v), t v)"
    by (simp add: prove_steps c_def t_def)
  show "moved 1 s (t v)" using push3_run(2)[OF room, of "c v"] by (simp add: c_def t_def)
qed

lemma hides_gate:
  assumes "e < 3" and "opened e x = opened e x'" "opened e y = opened e y'"
  shows "hides e rnd 1 (\<lambda>z z'. opened e z = opened e z') (prove x y) (prove x' y')"
proof (rule hidesI)
  fix s s' and pre pre' :: "u32 list"
  assume a: "space e rnd 1 s" "same_open e s s'" "rand_count (cnt s) = 4 * length pre" "length pre' = length pre"
  let ?r = "map_arr3 (\<lambda>t. draw t (4 * length pre)) rnd"
  obtain g where g: "bij g" "\<And>v. opened e (publish x y (with_hidden e ?r v)) = opened e (publish x' y' (with_hidden e ?r (g v)))"
    using masked[OF assms] by blast
  have a': "space e rnd 1 s'" "rand_count (cnt s') = 4 * length pre'"
    using a by (auto simp: space_def same_open_def)
  note run = gate_run[OF assms(1) a(1,3)] gate_run[OF assms(1) a', unfolded a(4)]
  show "\<exists>G. bij_betw G (wordlists 1) (wordlists 1) \<and> (\<forall>w\<in>wordlists 1. \<exists>z z' t t'. opened e z = opened e z' \<and>
      moved 1 s t \<and> same_open e t t' \<and> (\<forall>post. prove x y (tapes e rnd (pre @ w @ post)) s = Inr (z, t)) \<and>
      (\<forall>post. prove x' y' (tapes e rnd (pre' @ G w @ post)) s' = Inr (z', t')))"
  proof (intro exI[of _ "map g"] conjI ballI bij_singleton[OF g(1)])
    fix w :: "u32 list" assume "w \<in> wordlists 1"
    then obtain v where w: "w = [v]" by (auto simp: wordlists_def length_Suc_conv)
    let ?c = "publish x y (with_hidden e ?r v)" and ?c' = "publish x' y' (with_hidden e ?r (g v))"
    have out: "opened e (out x y ?c) = opened e (out x' y' ?c')"
      using assms(2,3) g(2)[of v] by (simp flip: out_opened)
    let ?t = "s\<lparr>cnt := advance 1 (cnt s), y_views := zip3 (\<lambda>ys w. ys[count_y (cnt s) := w]) (y_views s) ?c\<rparr>"
    let ?t' = "s'\<lparr>cnt := advance 1 (cnt s'), y_views := zip3 (\<lambda>ys w. ys[count_y (cnt s') := w]) (y_views s') ?c'\<rparr>"
    have "same_open e ?t ?t'" using a(2) g(2)[of v] by (simp add: same_open_def)
    with out run show "\<exists>z z' t t'. opened e z = opened e z' \<and> moved 1 s t \<and> same_open e t t' \<and>
      (\<forall>post. prove x y (tapes e rnd (pre @ w @ post)) s = Inr (z, t)) \<and>
      (\<forall>post. prove x' y' (tapes e rnd (pre' @ map g w @ post)) s' = Inr (z', t'))"
      by (intro exI[of _ "out x y ?c"] exI[of _ "out x' y' ?c'"] exI[of _ ?t] exI[of _ ?t']) (simp add: w)
  qed
qed

end

text \<open>AND: the difference of the two masked words is a constant.\<close>

lemma bij_xor: "bij (\<lambda>v :: u32. v XOR k)"
  by (rule o_bij[where g = "\<lambda>v. v XOR k"]) (auto simp: xor.assoc)

lemma and_masked:
  assumes "e < 3" and "opened e x = opened e x'" "opened e y = opened e y'"
  shows "\<exists>g. bij g \<and> (\<forall>v. opened e (and_publish x y (with_hidden e r v)) = opened e (and_publish x' y' (with_hidden e r (g v))))"
proof (intro exI conjI allI)
  let ?k = "sel3 (and_publish x y r) (succ3 e) XOR sel3 (and_publish x' y' r) (succ3 e)"
  show "bij (\<lambda>v. v XOR ?k)" by (rule bij_xor)
  show "opened e (and_publish x y (with_hidden e r v)) = opened e (and_publish x' y' (with_hidden e r (v XOR ?k)))" for v
    using challenge_cases[OF assms(1)] assms(2,3)
    by (elim disjE; cases r; simp add: opened_def sel3_def with_hidden_def hidden_def and_publish_def ac_simps)
qed

interpretation private_and: private_gate mpc_AND mpc_AND_verify and_publish and_check
  "\<lambda>x y w. w" "\<lambda>x y w. w" "(AND)" "\<lambda>_. (AND)"
  by unfold_locales (rule and_masked)

text \<open>
  ADD: bit i of the hidden word masks carry bit i + 1; its bit 31 is not used.
  The published word of the second opened party with that unused bit in place
  of the constant bit 0 determines the hidden word.
\<close>

definition masked_carry :: "nat \<Rightarrow> u32 arr3 \<Rightarrow> u32 arr3 \<Rightarrow> u32 arr3 \<Rightarrow> u32 \<Rightarrow> u32" where
  "masked_carry e x y r v = sel3 (add_publish x y (with_hidden e r v)) (succ3 e) XOR of_bool (bit v 31)"

lemma add_publish_bits:
  assumes "e < 3"
  shows "\<not> bit (sel3 (add_publish x y r) e) 0"
    "i < 31 \<Longrightarrow> bit (sel3 (add_publish x y r) e) (Suc i) =
       share_carry (opened e x) (opened e y) (opened e r) (opened e (add_publish x y r)) i"
  using add_from_bit0[OF assms, of "Arr3 0 0 0" x y r] add_from_bits[OF assms, of i "Arr3 0 0 0" x y r]
  by (auto simp: add_publish_def sel3_def)

lemma masked_carry_bits:
  assumes "e < 3" "i < 32"
  shows "bit (masked_carry e x y r v) i =
    (if i = 0 then bit v 31 else bit (sel3 (add_publish x y (with_hidden e r v)) (succ3 e)) i)"
  using add_publish_bits(1)[of "succ3 e" x y "with_hidden e r v"] assms
  by (auto simp: masked_carry_def bit_xor_iff)

text \<open>The first opened party's carries depend on the opened parties alone.\<close>

lemma opened_carries:
  assumes e: "e < 3" and "opened e x = opened e x'" "opened e y = opened e y'" "opened e r = opened e r'"
    and c: "\<And>i. i < 32 \<Longrightarrow> bit (sel3 (add_publish x y r) (succ3 e)) i = bit (sel3 (add_publish x' y' r') (succ3 e)) i"
  shows "opened e (add_publish x y r) = opened e (add_publish x' y' r')"
proof -
  have "bit (sel3 (add_publish x y r) e) i = bit (sel3 (add_publish x' y' r') e) i" if "i < 32" for i
    using that
  proof (induction i)
    case 0
    then show ?case using add_publish_bits(1)[OF e] by simp
  next
    case (Suc i)
    then have "i < 31" "bit (sel3 (add_publish x y r) e) i = bit (sel3 (add_publish x' y' r') e) i" by simp_all
    with c[of i] show ?case
      by (simp add: add_publish_bits(2)[OF e] assms(2-4) share_carry_def Let_def zip2_def bit_xor_iff)
  qed
  then have "sel3 (add_publish x y r) e = sel3 (add_publish x' y' r') e"
    by (intro bit_word_eqI) simp
  moreover have "sel3 (add_publish x y r) (succ3 e) = sel3 (add_publish x' y' r') (succ3 e)"
    using c by (intro bit_word_eqI) simp
  ultimately show ?thesis by (simp add: opened_def)
qed

lemma share_carry_mask:
  "share_carry x y (Arr2 r0 r1) c i = (share_carry x y (Arr2 r0 0) c i \<noteq> bit r1 i)"
  "share_carry x y (Arr2 r0 r1) c i = (share_carry x y (Arr2 0 r1) c i \<noteq> bit r0 i)"
  by (auto simp: share_carry_def Let_def)

lemma opened_next:
  assumes "e < 3"
  shows "opened (succ3 e) a = Arr2 (sel3 a (succ3 e)) (sel3 a (hidden e))"
    "opened (hidden e) a = Arr2 (sel3 a (hidden e)) (sel3 a e)"
  using hidden_party(4)[OF assms] by (simp_all add: opened_def hidden_def)

lemma inj_masked_carry:
  assumes e: "e < 3"
  shows "inj (masked_carry e x y r)"
proof (rule injI)
  fix v v' assume eq: "masked_carry e x y r v = masked_carry e x y r v'"
  let ?c = "add_publish x y (with_hidden e r v)" and ?d = "add_publish x y (with_hidden e r v')"
  note h = hidden_party[OF e]
  have c1: "bit (sel3 ?c (succ3 e)) i = bit (sel3 ?d (succ3 e)) i" if "i < 32" for i
    using masked_carry_bits[OF e that, of x y r v] masked_carry_bits[OF e that, of x y r v'] eq
      add_publish_bits(1)[of "succ3 e" x y] by (cases "i = 0") auto
  have ce: "opened e ?c = opened e ?d" by (rule opened_carries[OF e refl refl _ c1]) (use e in simp_all)
  note o = opened_eqD[OF ce]
  have all: "bit (sel3 ?c (hidden e)) i = bit (sel3 ?d (hidden e)) i \<and> (\<forall>j<i. bit v j = bit v' j)" if "i < 32" for i
    using that
  proof (induction i)
    case 0
    then show ?case using add_publish_bits(1)[OF h(1)] by simp
  next
    case (Suc i)
    then have i: "i < 31" "bit (sel3 ?c (hidden e)) i = bit (sel3 ?d (hidden e)) i" "\<forall>j<i. bit v j = bit v' j" by simp_all
    have "share_carry (opened (succ3 e) x) (opened (succ3 e) y) (opened (succ3 e) (with_hidden e r v)) (opened (succ3 e) ?c) i
        = share_carry (opened (succ3 e) x) (opened (succ3 e) y) (opened (succ3 e) (with_hidden e r v')) (opened (succ3 e) ?d) i"
      using c1[of "Suc i"] add_publish_bits(2)[of "succ3 e" i x y] i(1) by simp
    moreover have "share_carry (opened (succ3 e) x) (opened (succ3 e) y) w (opened (succ3 e) ?c) i
        = share_carry (opened (succ3 e) x) (opened (succ3 e) y) w (opened (succ3 e) ?d) i" for w
      using o(2) i(2) by (simp add: share_carry_def Let_def zip2_def opened_next[OF e] bit_xor_iff)
    ultimately have v: "bit v i = bit v' i"
      using h e by (simp add: opened_next[OF e] sel3_with_hidden share_carry_mask(1)[of _ _ _ v] share_carry_mask(1)[of _ _ _ v'])
        blast
    have "share_carry (opened (hidden e) x) (opened (hidden e) y) (opened (hidden e) (with_hidden e r v)) (opened (hidden e) ?c) i
        = share_carry (opened (hidden e) x) (opened (hidden e) y) (opened (hidden e) (with_hidden e r v')) (opened (hidden e) ?d) i"
      using o(1) i(2) v h e by (simp add: share_carry_def Let_def zip2_def opened_next[OF e] sel3_with_hidden bit_xor_iff)
    then have "bit (sel3 ?c (hidden e)) (Suc i) = bit (sel3 ?d (hidden e)) (Suc i)"
      using add_publish_bits(2)[OF h(1) i(1), of x y] by simp
    with i(3) v show ?case by (auto simp: less_Suc_eq)
  qed
  have "bit v 31 = bit v' 31"
    using masked_carry_bits[OF e, of 0 x y r v] masked_carry_bits[OF e, of 0 x y r v'] eq by simp
  moreover have "bit v n = bit v' n" if "n < 31" for n using all[of 31] that by simp
  moreover have "n < 31 \<or> n = 31" if "n < 32" for n :: nat using that by arith
  ultimately have "bit v n = bit v' n" if "n < 32" for n using that by metis
  then show "v = v'" by (intro bit_word_eqI) simp
qed

lemma add_masked:
  assumes e: "e < 3" and x: "opened e x = opened e x'" and y: "opened e y = opened e y'"
  shows "\<exists>g. bij g \<and> (\<forall>v. opened e (add_publish x y (with_hidden e r v)) = opened e (add_publish x' y' (with_hidden e r (g v))))"
proof -
  let ?F = "masked_carry e x y r" and ?F' = "masked_carry e x' y' r"
  have bij: "bij ?F" "bij ?F'"
    using inj_masked_carry[OF e] finite_UNIV_inj_surj[of "masked_carry e _ _ r"] by (auto simp: bij_def)
  have "opened e (add_publish x y (with_hidden e r v)) = opened e (add_publish x' y' (with_hidden e r (inv ?F' (?F v))))" for v
  proof (rule opened_carries[OF e x y])
    let ?w = "inv ?F' (?F v)"
    have eq: "?F' ?w = ?F v" using bij(2) by (simp add: bij_is_surj surj_f_inv_f)
    show "bit (sel3 (add_publish x y (with_hidden e r v)) (succ3 e)) i
        = bit (sel3 (add_publish x' y' (with_hidden e r ?w)) (succ3 e)) i" if "i < 32" for i
      using masked_carry_bits[OF e that, of x y r v] masked_carry_bits[OF e that, of x' y' r ?w] eq
        add_publish_bits(1)[of "succ3 e"] by (cases "i = 0") auto
  qed (use e in simp)
  moreover have "bij (inv ?F' \<circ> ?F)" by (rule bij_comp[OF bij(1) bij_imp_bij_inv[OF bij(2)]])
  ultimately show ?thesis by (intro exI[of _ "inv ?F' \<circ> ?F"]) simp
qed

interpretation private_add: private_gate mpc_ADD mpc_ADD_verify add_publish
  "\<lambda>x y r w. list_all (add_check x y r w) [0..<31]"
  "\<lambda>x y w. zip3 (XOR) (zip3 (XOR) x y) w" "\<lambda>x y w. zip2 (XOR) (zip2 (XOR) x y) w"
  "(+)" "\<lambda>b x y. x + y + of_bool b"
  by unfold_locales (rule add_masked)

end
