(* ===== verification/MPC_HM_Privacy.thy ===== *)
theory MPC_HM_Privacy
  imports MPC_Privacy
begin

unbundle bit_operations_syntax

text \<open>
  Privacy of the circuits and of a whole proof round: for two openings of one
  published commitment, everything that a round opens is distributed alike
  when the randomness of the hidden party is uniform.
\<close>

section \<open>The circuit of the prover hides\<close>

lemmas opened_local_sym = opened_local[symmetric]

lemma hides_MAJ:
  assumes "e < 3" "opened e a = opened e a'" "opened e b = opened e b'" "opened e c = opened e c'"
  shows "hides e rnd 1 (\<lambda>z z'. opened e z = opened e z') (mpc_MAJ a b c) (mpc_MAJ a' b' c')"
  unfolding mpc_MAJ_def Let_def
  by (rule hides_let[OF private_and.hides_gate[OF assms(1)]]) (use assms in \<open>simp_all add: opened_local_sym\<close>)

lemma hides_CH:
  assumes "e < 3" "opened e a = opened e a'" "opened e b = opened e b'" "opened e c = opened e c'"
  shows "hides e rnd 1 (\<lambda>z z'. opened e z = opened e z') (mpc_CH a b c) (mpc_CH a' b' c')"
  unfolding mpc_CH_def Let_def
  by (rule hides_let[OF private_and.hides_gate[OF assms(1)]]) (use assms in \<open>simp_all add: opened_local_sym\<close>)

lemma hides_ADDK:
  assumes "e < 3" "opened e x = opened e x'"
  shows "hides e rnd 1 (\<lambda>z z'. opened e z = opened e z') (mpc_ADDK_impl x k) (mpc_ADDK_impl x' k)"
  using private_add.hides_gate[OF assms refl] by (simp add: mpc_ADDK_impl_def[abs_def])

text \<open>One step of a circuit, with a single side condition.\<close>

lemma hides_steps:
  assumes "e < 3"
  shows "opened e x = opened e x' \<and> opened e y = opened e y' \<Longrightarrow>
      (\<And>z z'. opened e z = opened e z' \<Longrightarrow> hides e rnd m P (\<lambda>R. f R z) (\<lambda>R. g R z')) \<Longrightarrow>
      hides e rnd (1 + m) P (\<lambda>R. bnd (mpc_ADD x y R) (f R)) (\<lambda>R. bnd (mpc_ADD x' y' R) (g R))"
    "opened e x = opened e x' \<Longrightarrow>
      (\<And>z z'. opened e z = opened e z' \<Longrightarrow> hides e rnd m P (\<lambda>R. f R z) (\<lambda>R. g R z')) \<Longrightarrow>
      hides e rnd (1 + m) P (\<lambda>R. bnd (mpc_ADDK_impl x k R) (f R)) (\<lambda>R. bnd (mpc_ADDK_impl x' k R) (g R))"
    "opened e a = opened e a' \<and> opened e b = opened e b' \<and> opened e c = opened e c' \<Longrightarrow>
      (\<And>z z'. opened e z = opened e z' \<Longrightarrow> hides e rnd m P (\<lambda>R. f R z) (\<lambda>R. g R z')) \<Longrightarrow>
      hides e rnd (1 + m) P (\<lambda>R. bnd (mpc_CH a b c R) (f R)) (\<lambda>R. bnd (mpc_CH a' b' c' R) (g R))"
    "opened e a = opened e a' \<and> opened e b = opened e b' \<and> opened e c = opened e c' \<Longrightarrow>
      (\<And>z z'. opened e z = opened e z' \<Longrightarrow> hides e rnd m P (\<lambda>R. f R z) (\<lambda>R. g R z')) \<Longrightarrow>
      hides e rnd (1 + m) P (\<lambda>R. bnd (mpc_MAJ a b c R) (f R)) (\<lambda>R. bnd (mpc_MAJ a' b' c' R) (g R))"
  by (rule hides_bnd, (rule private_add.hides_gate hides_ADDK hides_CH hides_MAJ; simp add: assms), assumption)+

text \<open>Equal opened entries of lists and of registers.\<close>

lemma opened_nth: "map f w = map f w' \<Longrightarrow> i < length w \<Longrightarrow> f (w ! i) = f (w' ! i)"
  by (metis length_map nth_map)

lemma hides_schedule:
  assumes e: "e < 3" and w: "map (opened e) w = map (opened e) w'" and "16 \<le> j" "length w = j"
  shows "hides e rnd 3 (\<lambda>z z'. map (opened e) z = map (opened e) z' \<and> length z = Suc j)
     (\<lambda>R. prove_schedule R j w) (\<lambda>R. prove_schedule R j w')"
proof -
  have n: "opened e (w ! (j - i)) = opened e (w' ! (j - i))" if "0 < i" for i
    by (rule opened_nth[OF w]) (use that assms in simp)
  show ?thesis
    unfolding prove_schedule_def Let_def
    by (rule hides_count, (rule hides_steps[OF e], simp add: n opened_local_sym)+, rule hides_ret)
      (use w assms(4) in simp_all)
qed

lemma hides_round:
  assumes e: "e < 3" and w: "map (opened e) w = map (opened e) w'" and i: "i < length w"
    and r: "map_regs (opened e) r = map_regs (opened e) r'"
  shows "hides e rnd 9 (\<lambda>z z'. map_regs (opened e) z = map_regs (opened e) z')
     (\<lambda>R. prove_round R w i r) (\<lambda>R. prove_round R w' i r')"
proof (cases r; cases r')
  fix a b c d p f g h a' b' c' d' p' f' g' h'
  assume rs: "r = Regs a b c d p f g h" "r' = Regs a' b' c' d' p' f' g' h'"
  note x = r[unfolded rs, simplified] opened_nth[OF w i]
  show ?thesis
    unfolding prove_round_def Let_def rs regs.case
    by (rule hides_count, (rule hides_steps[OF e], simp add: x opened_local_sym)+, rule hides_ret)
      (simp_all add: x)
qed

lemma hides_final:
  assumes e: "e < 3" and "map_regs (opened e) H = map_regs (opened e) H'" "map_regs (opened e) r = map_regs (opened e) r'"
  shows "hides e rnd 8 (\<lambda>z z'. map_regs (opened e) z = map_regs (opened e) z')
     (\<lambda>R. prove_final R H r) (\<lambda>R. prove_final R H' r')"
  using assms unfolding prove_final_def
  by (cases H; cases H'; cases r; cases r'; simp only: regs.sel regs.map regs.inject)
    (rule hides_count, (rule hides_steps[OF e], simp)+, rule hides_ret, simp_all)

lemma hides_block:
  assumes e: "e < 3" and p: "opened e p = opened e p'" and H: "map_regs (opened e) H = map_regs (opened e) H'"
  shows "hides e rnd 728 (\<lambda>z z'. map_regs (opened e) z = map_regs (opened e) z')
     (\<lambda>R. prove_block R p blk H) (\<lambda>R. prove_block R p' blk H')"
proof -
  have w0: "map (opened e) (load_block3 p blk) = map (opened e) (load_block3 p' blk)"
    by (simp add: map_load_block3 p)
  have sched: "hides e rnd (3 * (64 - 16)) (\<lambda>w w'. map (opened e) w = map (opened e) w' \<and> length w = 64)
      (\<lambda>R. loop (prove_schedule R) [16..<64] (load_block3 p blk)) (\<lambda>R. loop (prove_schedule R) [16..<64] (load_block3 p' blk))"
    by (rule hides_for[where Q = "\<lambda>j w w'. map (opened e) w = map (opened e) w' \<and> length w = j"])
      (use w0 hides_schedule[OF e] in simp_all)
  have rounds: "hides e rnd (9 * (64 - 0)) (\<lambda>z z'. map_regs (opened e) z = map_regs (opened e) z')
      (\<lambda>R. loop (prove_round R w) [0..<64] H) (\<lambda>R. loop (prove_round R w') [0..<64] H')"
    if "map (opened e) w = map (opened e) w' \<and> length w = 64" for w w'
    by (rule hides_for[where Q = "\<lambda>_ z z'. map_regs (opened e) z = map_regs (opened e) z'"])
      (use H that hides_round[OF e] in simp_all)
  show ?thesis
    unfolding prove_block_def
    by (rule hides_count, rule hides_bnd[OF sched], rule hides_bnd[OF rounds], assumption, rule hides_final[OF e H])
      simp_all
qed

lemma hides_sha:
  assumes e: "e < 3" and s: "opened e s = opened e s'"
  shows "hides e rnd 2184 (\<lambda>z z'. map_regs (opened e) z = map_regs (opened e) z')
     (mpc_sha256_prove_impl s) (mpc_sha256_prove_impl s')"
proof -
  have p: "opened e (map_arr3 pad_share s) = opened e (map_arr3 pad_share s')" using s by simp
  have "hides e rnd (728 * (3 - 0)) (\<lambda>z z'. map_regs (opened e) z = map_regs (opened e) z')
     (\<lambda>R. loop (prove_block R (map_arr3 pad_share s)) [0..<3] (map_regs (\<lambda>k. Arr3 k k k) hA))
     (\<lambda>R. loop (prove_block R (map_arr3 pad_share s')) [0..<3] (map_regs (\<lambda>k. Arr3 k k k) hA))"
    by (rule hides_for[where Q = "\<lambda>_ z z'. map_regs (opened e) z = map_regs (opened e) z'"])
      (use hides_block[OF e p] in simp_all)
  then show ?thesis by (simp add: mpc_sha256_prove_impl_def[abs_def] Let_def param_values)
qed

section \<open>Outputs of the circuit\<close>

lemma tapes_buffers:
  assumes "e < 3" "prover_buffers rnd views" "w \<in> wordlists ySize"
  shows "prover_buffers (tapes e rnd w) views"
  using assms by (auto simp: prover_buffers_def tapes_def sel3_with_hidden wordlists_def param_values)

lemma sha_runs:
  assumes e: "e < 3" and s: "wf_shares s" "wf_shares s'" "opened e s = opened e s'" and b: "prover_buffers rnd views"
  obtains G where "bij_betw G (wordlists ySize) (wordlists ySize)"
    "\<And>w. w \<in> wordlists ySize \<Longrightarrow> \<exists>vs vs' H H'. mpc_sha256_prove s (tapes e rnd w) views = Inr (vs, output_lists H) \<and>
       mpc_sha256_prove s' (tapes e rnd (G w)) views = Inr (vs', output_lists H') \<and> opened e vs = opened e vs' \<and>
       map_regs (opened e) H = map_regs (opened e) H' \<and> map_regs xor3 H = sha256_regs (rvec_msg (rvec_xor3 s)) \<and>
       map_regs xor3 H' = sha256_regs (rvec_msg (rvec_xor3 s'))"
proof -
  let ?st = "\<lparr>cnt = \<lparr>rand_count = 0, count_y = 0\<rparr>, y_views = map_arr3 view_y views\<rparr>"
  have sp: "space e rnd 2184 ?st" using b by (auto simp: space_def prover_buffers_def param_values)
  have so: "same_open e ?st ?st" by (simp add: same_open_def)
  have "rand_count (cnt ?st) = 4 * length ([] :: u32 list)" "length ([] :: u32 list) = length ([] :: u32 list)" by simp_all
  from hidesE[OF hides_sha[OF e s(3)] sp so this] obtain G where G: "bij_betw G (wordlists ySize) (wordlists ySize)"
    and run: "\<And>w. w \<in> wordlists ySize \<Longrightarrow> \<exists>H H' t t'. map_regs (opened e) H = map_regs (opened e) H' \<and> moved 2184 ?st t \<and>
        same_open e t t' \<and> (\<forall>post. mpc_sha256_prove_impl s (tapes e rnd ([] @ w @ post)) ?st = Inr (H, t)) \<and>
        (\<forall>post. mpc_sha256_prove_impl s' (tapes e rnd ([] @ G w @ post)) ?st = Inr (H', t'))"
    unfolding param_values by metis
  show thesis
  proof (rule that[OF G])
    fix w assume w: "w \<in> wordlists ySize"
    then have Gw: "G w \<in> wordlists ySize" by (rule bij_betw_apply[OF G])
    from run[OF w] obtain H H' t t' where r: "map_regs (opened e) H = map_regs (opened e) H'" "same_open e t t'"
      "\<And>post. mpc_sha256_prove_impl s (tapes e rnd (w @ post)) ?st = Inr (H, t)"
      "\<And>post. mpc_sha256_prove_impl s' (tapes e rnd (G w @ post)) ?st = Inr (H', t')" by auto
    have r': "mpc_sha256_prove_impl s (tapes e rnd w) ?st = Inr (H, t)" "mpc_sha256_prove_impl s' (tapes e rnd (G w)) ?st = Inr (H', t')"
      using r(3)[of "[]"] r(4)[of "[]"] by simp_all
    have room: "room (tapes e rnd u) 2184 ?st" if "u \<in> wordlists ySize" for u
      by (rule space_room[OF e sp]) (use that in \<open>simp add: wordlists_def param_values\<close>)
    have "map_regs xor3 H = sha256_regs (rvec_msg (rvec_xor3 s))"
      using honestE[OF honest_sha[OF s(1)] room[OF w]] r'(1) by (metis Pair_inject sum.inject(2))
    moreover have "map_regs xor3 H' = sha256_regs (rvec_msg (rvec_xor3 s'))"
      using honestE[OF honest_sha[OF s(2)] room[OF Gw]] r'(2) by (metis Pair_inject sum.inject(2))
    moreover have "opened e (zip3 (\<lambda>v xy. v\<lparr>view_x := fst xy, view_y := snd xy\<rparr>) views (zip3 Pair s (y_views t)))
        = opened e (zip3 (\<lambda>v xy. v\<lparr>view_x := fst xy, view_y := snd xy\<rparr>) views (zip3 Pair s' (y_views t')))"
      using s(3) r(2) by (simp add: same_open_def)
    ultimately show "\<exists>vs vs' H H'. mpc_sha256_prove s (tapes e rnd w) views = Inr (vs, output_lists H) \<and>
       mpc_sha256_prove s' (tapes e rnd (G w)) views = Inr (vs', output_lists H') \<and> opened e vs = opened e vs' \<and>
       map_regs (opened e) H = map_regs (opened e) H' \<and> map_regs xor3 H = sha256_regs (rvec_msg (rvec_xor3 s)) \<and>
       map_regs xor3 H' = sha256_regs (rvec_msg (rvec_xor3 s'))"
      using r(1) by (simp add: mpc_sha256_prove_def r' output_lists_def) blast
  qed
qed

section \<open>The record of a round\<close>

text \<open>
  The hidden share follows from the opened ones and the value shared; so the
  record for one secret becomes the record for another when the hidden shares
  are corrected by the difference D of the digests and the difference d of the
  masked bits.
\<close>

lemma hidden_share:
  assumes "e < 3" "opened e x = opened e x'"
  shows "sel3 x (hidden e) = (xor3 x XOR xor3 x') XOR sel3 x' (hidden e)"
  using challenge_cases[OF assms(1)] assms(2)
  by (elim disjE) (simp_all add: opened_def sel3_def hidden_def xor3_def ac_simps)

definition correct_hidden :: "nat \<Rightarrow> u32 list \<Rightarrow> bool \<Rightarrow> ZkBooCommit \<Rightarrow> ZkBooCommit" where
  "correct_hidden e D d a =
    (let yp = Arr3 (fst2 (a_yp a)) (snd2 (a_yp a)) [];
         yp = with_hidden e yp (map2 (XOR) D (sel3 yp (hidden e)));
         y = a_y2p a ! 0
     in a\<lparr>a_yp := Arr2 (at0 yp) (at1 yp), a_y2p := [with_hidden e y (of_bool d XOR sel3 y (hidden e))]\<rparr>)"

lemma sel3_output_lists: "sel3 (output_lists H) i = map (\<lambda>x. sel3 x i) (regs_list H)"
  by (simp add: output_lists_def sel3_def regs_list_map)

lemma output_lists_differ:
  assumes e: "e < 3" and H: "map_regs (opened e) H = map_regs (opened e) H'" and i: "i < 3"
  shows "sel3 (output_lists H) i = (if i = hidden e
     then map2 (XOR) (map2 (XOR) (regs_list (map_regs xor3 H)) (regs_list (map_regs xor3 H'))) (sel3 (output_lists H') i)
     else sel3 (output_lists H') i)"
proof -
  have o: "opened e (regs_list H ! k) = opened e (regs_list H' ! k)" if "k < 8" for k
    using arg_cong[OF H, of "\<lambda>r. regs_list r ! k"] that by (simp add: regs_list_map)
  have "i = hidden e \<or> i = e \<or> i = succ3 e"
    using challenge_cases[OF e] challenge_cases[OF i] by (auto simp: hidden_def)
  with o hidden_share[OF e o] opened_eqD[OF o] show ?thesis
    by (auto simp: sel3_output_lists regs_list_map intro!: nth_equalityI)
qed

lemma record_corrected:
  assumes e: "e < 3" and H: "map_regs (opened e) H = map_regs (opened e) H'" and y: "opened e y = opened e y'"
    and d: "xor3 y XOR xor3 y' = of_bool d"
    and D: "D = map2 (XOR) (regs_list (map_regs xor3 H)) (regs_list (map_regs xor3 H'))"
  shows "a\<lparr>a_yp := Arr2 (at0 (output_lists H)) (at1 (output_lists H)), a_y2p := [y]\<rparr>
    = correct_hidden e D d (a\<lparr>a_yp := Arr2 (at0 (output_lists H')) (at1 (output_lists H')), a_y2p := [y']\<rparr>)"
proof -
  have "y = with_hidden e y' (of_bool d XOR sel3 y' (hidden e))"
    by (rule arr3_opened_eqI[OF e]) (use e y d hidden_share[OF e y] hidden_party(1)[OF e] in \<open>simp_all add: sel3_with_hidden\<close>)
  moreover have "at0 (output_lists H) = (if hidden e = 0 then map2 (XOR) D (at0 (output_lists H')) else at0 (output_lists H'))"
    "at1 (output_lists H) = (if hidden e = 1 then map2 (XOR) D (at1 (output_lists H')) else at1 (output_lists H'))"
    using output_lists_differ[OF e H, of 0] output_lists_differ[OF e H, of 1] D by (simp_all add: sel3_def split: if_splits)
  ultimately show ?thesis by (simp add: correct_hidden_def Let_def with_hidden_def sel3_def)
qed

lemma prove_runs:
  assumes e: "e < 3" and s: "wf_shares s" "wf_shares s'" "opened e s = opened e s'" and m: "opened e m = opened e m'"
    and b: "prover_buffers rnd views" "length (a_y2p a) = MSG_WORDS" "L_WORDS \<le> length (uh_A h)"
    and v: "xor3 m = of_bool v" "xor3 m' = of_bool v'"
  obtains G where "bij_betw G (wordlists ySize) (wordlists ySize)"
    "\<And>w. w \<in> wordlists ySize \<Longrightarrow> \<exists>vs vs' a'. mpc_hm_prove views a (tapes e rnd (G w)) h s' [m'] = Inr (vs', a') \<and>
       opened e vs = opened e vs' \<and> mpc_hm_prove views a (tapes e rnd w) h s [m] = Inr (vs, correct_hidden e
         (map2 (XOR) (load_digest_words (sha256 (rvec_msg (rvec_xor3 s)))) (load_digest_words (sha256 (rvec_msg (rvec_xor3 s')))))
         ((v \<noteq> hash_row0 (uh_A h) (rvec_xor3 s)) \<noteq> (v' \<noteq> hash_row0 (uh_A h) (rvec_xor3 s'))) a')"
proof (rule sha_runs[OF e s b(1)])
  fix G
  assume G: "bij_betw G (wordlists ySize) (wordlists ySize)"
    and run: "\<And>w. w \<in> wordlists ySize \<Longrightarrow> \<exists>vs vs' H H'. mpc_sha256_prove s (tapes e rnd w) views = Inr (vs, output_lists H) \<and>
       mpc_sha256_prove s' (tapes e rnd (G w)) views = Inr (vs', output_lists H') \<and> opened e vs = opened e vs' \<and>
       map_regs (opened e) H = map_regs (opened e) H' \<and> map_regs xor3 H = sha256_regs (rvec_msg (rvec_xor3 s)) \<and>
       map_regs xor3 H' = sha256_regs (rvec_msg (rvec_xor3 s'))"
  let ?y = "zip3 (XOR) m (map_arr3 (hash_word (uh_A h)) s)" and ?y' = "zip3 (XOR) m' (map_arr3 (hash_word (uh_A h)) s')"
  have y: "opened e ?y = opened e ?y'" using s(3) m by simp
  have d: "xor3 ?y XOR xor3 ?y' = of_bool ((v \<noteq> hash_row0 (uh_A h) (rvec_xor3 s)) \<noteq> (v' \<noteq> hash_row0 (uh_A h) (rvec_xor3 s')))"
    by (auto simp: v hash_word_xor3[OF s(1)] hash_word_xor3[OF s(2)] hash_word_bit)
  have y2p: "(a_y2p a)[0 := q] = [q]" for q using b(2) by (cases "a_y2p a") (simp_all add: param_values)
  have dw: "load_digest_words (sha256 x) = regs_list (sha256_regs x)" for x by (simp add: sha256_def load_digest_words_be)
  show thesis
  proof (rule that[OF G])
    fix w assume "w \<in> wordlists ySize"
    from run[OF this] obtain vs vs' H H' where r: "mpc_sha256_prove s (tapes e rnd w) views = Inr (vs, output_lists H)"
      "mpc_sha256_prove s' (tapes e rnd (G w)) views = Inr (vs', output_lists H')" "opened e vs = opened e vs'"
      "map_regs (opened e) H = map_regs (opened e) H'" "map_regs xor3 H = sha256_regs (rvec_msg (rvec_xor3 s))"
      "map_regs xor3 H' = sha256_regs (rvec_msg (rvec_xor3 s'))" by blast
    let ?c = "\<lambda>m. zip3 copy_msg (Arr3 [at0 m] [at1 m] [at2 m])"
    have sh: "Arr3 [at0 q] [at1 q] [at2 q] = map_arr3 (\<lambda>x. [x]) q" for q :: "u32 arr3" by (cases q) simp
    have vs: "opened e (?c m vs) = opened e (?c m' vs')" using r(3) m by (simp add: sh)
    have p: "mpc_hm_prove views a (tapes e rnd w) h s [m] = Inr (?c m vs, a\<lparr>a_yp := Arr2 (at0 (output_lists H)) (at1 (output_lists H)), a_y2p := [?y]\<rparr>)"
      using b(2) by (simp add: mpc_hm_prove_def r(1) mpc_inner_prod_prove_eq[OF b(3)] y2p param_values)
    have p': "mpc_hm_prove views a (tapes e rnd (G w)) h s' [m'] = Inr (?c m' vs', a\<lparr>a_yp := Arr2 (at0 (output_lists H')) (at1 (output_lists H')), a_y2p := [?y']\<rparr>)"
      using b(2) by (simp add: mpc_hm_prove_def r(2) mpc_inner_prod_prove_eq[OF b(3)] y2p param_values)
    note rec = record_corrected[OF e r(4) y d refl, of a, unfolded r(5,6), folded dw]
    show "\<exists>vs vs' a'. mpc_hm_prove views a (tapes e rnd (G w)) h s' [m'] = Inr (vs', a') \<and>
       opened e vs = opened e vs' \<and> mpc_hm_prove views a (tapes e rnd w) h s [m] = Inr (vs, correct_hidden e
         (map2 (XOR) (load_digest_words (sha256 (rvec_msg (rvec_xor3 s)))) (load_digest_words (sha256 (rvec_msg (rvec_xor3 s')))))
         ((v \<noteq> hash_row0 (uh_A h) (rvec_xor3 s)) \<noteq> (v' \<noteq> hash_row0 (uh_A h) (rvec_xor3 s'))) a')"
      by (intro exI conjI, rule p', rule vs) (simp add: p rec)
  qed
qed

section \<open>Sharing hides\<close>

text \<open>
  The opened shares of r are the opened shares of zero_rvec once the random
  vector of the hidden party, or for the third party that of the next one, is
  shifted by r; the same holds for the message word.
\<close>

definition shift_words :: "bool \<Rightarrow> u32 list \<Rightarrow> u32 list \<Rightarrow> u32 list" where
  "shift_words c r u = (if c then map2 (XOR) r u else u)"

lemma shift_words_facts:
  assumes "length r = n"
  shows "length u = n \<Longrightarrow> length (shift_words c r u) = n"
    and "length u = n \<Longrightarrow> j < n \<Longrightarrow> shift_words c r u ! j = (if c then r ! j XOR u ! j else u ! j)"
    and "length u = n \<Longrightarrow> shift_words c r (shift_words c r u) = u"
  using assms by (auto simp: shift_words_def xor.assoc[symmetric] intro!: nth_equalityI)

lemma bij_shift_words:
  assumes "length r = n"
  shows "bij_betw (shift_words c r) (wordlists n) (wordlists n)"
  by (rule bij_betw_byWitness[where f' = "shift_words c r"])
    (use shift_words_facts[OF assms] in \<open>auto simp: wordlists_def\<close>)

lemma rvec_eqI:
  assumes "wf_rvec x" "wf_rvec y" "\<And>j. j < L_WORDS \<Longrightarrow> words x ! j = words y ! j"
  shows "x = y"
proof -
  have "words x = words y" using assms by (intro nth_equalityI) (simp_all add: wf_rvec_def)
  then show ?thesis by (cases x; cases y) simp
qed

lemma normal_zero: "normal_rvec zero_rvec"
  by (simp add: normal_rvec_def wf_rvec_def zero_rvec_def param_values)

definition last_mask :: "nat \<Rightarrow> u32" where
  "last_mask j = (if j = L_WORDS - 1 then L_LAST_WORD_MASK else mask 32)"

lemma normalize_word: "wf_rvec r \<Longrightarrow> j < L_WORDS \<Longrightarrow> words (rvec_normalize r) ! j = words r ! j AND last_mask j"
  by (simp add: normalize_nth last_mask_def bit_eq_iff bit_and_iff bit_mask_iff)

lemma share_words:
  assumes u: "length u = L_WORDS" "length v = L_WORDS" and j: "j < L_WORDS"
  shows "words (at0 (share_rvec (le_bytes u) (le_bytes v) r)) ! j = u ! j AND last_mask j"
    "words (at1 (share_rvec (le_bytes u) (le_bytes v) r)) ! j = v ! j AND last_mask j"
    "words (at2 (share_rvec (le_bytes u) (le_bytes v) r)) ! j
      = (words r ! j XOR (u ! j AND last_mask j) XOR (v ! j AND last_mask j)) AND last_mask j"
  using u j by (simp_all add: share_rvec_def Let_def normalize_word wf_rvec_def)

lemma share_shift:
  "(r XOR (a AND m) XOR (b AND m)) AND m = (((r XOR a) AND m) XOR (b AND m)) AND (m :: u32)"
  "((a AND m) XOR ((r XOR b) AND m)) AND m = (r XOR (a AND m) XOR (b AND m)) AND (m :: u32)"
  by (auto intro!: bit_word_eqI simp: bit_xor_iff bit_and_iff)

lemma share_rvec_hides:
  assumes e: "e < 3" and r: "normal_rvec r" and u: "length u = L_WORDS" "length v = L_WORDS"
  shows "opened e (share_rvec (le_bytes u) (le_bytes v) r)
    = opened e (share_rvec (le_bytes (shift_words (e = 1) (words r) u)) (le_bytes (shift_words (e = 2) (words r) v)) zero_rvec)"
proof -
  define u' where "u' = shift_words (e = 1) (words r) u"
  define v' where "v' = shift_words (e = 2) (words r) v"
  let ?s = "share_rvec (le_bytes u) (le_bytes v) r" and ?s' = "share_rvec (le_bytes u') (le_bytes v') zero_rvec"
  have "length (words r) = L_WORDS" using r by (simp add: normal_rvec_def wf_rvec_def)
  note sw = shift_words_facts(1,2)[OF this]
  have u': "length u' = L_WORDS" "length v' = L_WORDS" by (simp_all add: u'_def v'_def sw u)
  have len: "length (le_bytes w) = 4 * L_WORDS" if "length w = L_WORDS" for w using that by simp
  note wf = share_rvec_facts(1)[OF r len[OF u(1)] len[OF u(2)]] share_rvec_facts(1)[OF normal_zero len[OF u'(1)] len[OF u'(2)]]
  have z: "words zero_rvec ! j = 0" if "j < L_WORDS" for j using that by (simp add: zero_rvec_def)
  have eq: "sel3 ?s i = sel3 ?s' i" if i: "i < 3" "i \<noteq> hidden e" for i
  proof (rule rvec_eqI)
    fix j assume j: "j < L_WORDS"
    have s: "u' ! j = (if e = 1 then words r ! j XOR u ! j else u ! j)" "v' ! j = (if e = 2 then words r ! j XOR v ! j else v ! j)"
      by (simp_all only: u'_def v'_def sw(2)[OF u(1) j] sw(2)[OF u(2) j])
    show "words (sel3 ?s i) ! j = words (sel3 ?s' i) ! j"
      using challenge_cases[OF e] challenge_cases[OF i(1)] i(2)
      by (elim disjE; simp add: sel3_def hidden_def succ3_def share_words[OF u j] share_words[OF u' j] s z[OF j] share_shift)
  qed (use wf i in \<open>auto simp: wf_shares_def\<close>)
  show ?thesis
    unfolding u'_def[symmetric] v'_def[symmetric]
    using eq[OF e] eq[of "succ3 e"] hidden_party[OF e] by (simp add: opened_def)
qed

definition shift_msg :: "nat \<Rightarrow> bool \<Rightarrow> u32 list \<Rightarrow> u32 list" where
  "shift_msg e v w = map2 (XOR) [of_bool (v \<and> e = 1), of_bool (v \<and> e = 2), 0] w"

lemma bij_shift_msg: "bij_betw (shift_msg e v) (wordlists 3) (wordlists 3)"
  using bij_shift_words[of "[of_bool (v \<and> e = 1), of_bool (v \<and> e = 2), 0]" 3 True]
  by (simp add: shift_msg_def[abs_def] shift_words_def[abs_def])

lemma share_msg_one:
  assumes "length w = 3"
  shows "share_msg (le_bytes w) msg = [Arr3 (w ! 0 AND 1) (w ! 1 AND 1) (load_u32_le msg XOR (w ! 0 AND 1) XOR (w ! 1 AND 1))]"
  by (simp add: share_msg_def Let_def MSG_MASK_def param_values)

lemma share_msg_hides:
  assumes e: "e < 3" and m: "load_u32_le msg = of_bool v" and w: "length w = 3"
  shows "opened e (share_msg (le_bytes w) msg ! 0) = opened e (share_msg (le_bytes (shift_msg e v w)) (replicate 4 0) ! 0)"
proof -
  define u where "u = shift_msg e v w"
  have u: "length u = 3" "u ! 0 = of_bool (v \<and> e = 1) XOR w ! 0" "u ! 1 = of_bool (v \<and> e = 2) XOR w ! 1"
    using w by (simp_all add: shift_msg_def u_def)
  have z: "load_u32_le (replicate 4 0) = 0" by (simp add: load_u32_le_def numeral_eq_Suc)
  have "opened e (share_msg (le_bytes w) msg ! 0) = opened e (share_msg (le_bytes u) (replicate 4 0) ! 0)"
    using challenge_cases[OF e]
    by (elim disjE; simp add: share_msg_one[OF w] share_msg_one[OF u(1)] opened_def sel3_def succ3_def m z u(2) u(3)[simplified])
      (auto intro!: bit_word_eqI simp: bit_simps)
  then show ?thesis by (simp add: u_def)
qed

section \<open>A round on shared secrets\<close>

text \<open>
  share\_secrets and then mpc\_hm\_prove, as the parallel loop of
  hm\_bit\_commit runs them; W is what the
  three random buffers and the tape of the party hidden under challenge e hold.
\<close>

definition SHARE_WORDS :: nat where
  "SHARE_WORDS = 2 * L_WORDS + 3 * MSG_WORDS"

definition shared_round :: "nat \<Rightarrow> byte list arr3 \<Rightarrow> View arr3 \<Rightarrow> ZkBooCommit \<Rightarrow> UniversalHash \<Rightarrow>
    RVec \<Rightarrow> byte list \<Rightarrow> u32 list \<Rightarrow> fault + View arr3 \<times> ZkBooCommit" where
  "shared_round e rnd views a h r msg W =
    (let (s, m) = share_secrets (le_bytes (take L_WORDS W)) (le_bytes (take L_WORDS (drop L_WORDS W)))
       (le_bytes (take (3 * MSG_WORDS) (drop (2 * L_WORDS) W))) r msg
     in mpc_hm_prove views a (tapes e rnd (drop SHARE_WORDS W)) h s m)"

text \<open>
  What can be computed without the opening: the round on zero\_rvec and the zero
  message, with the hidden shares of the outputs corrected by the published
  digest y and the published bit of h.
\<close>

definition simulate_round :: "nat \<Rightarrow> byte list arr3 \<Rightarrow> View arr3 \<Rightarrow> ZkBooCommit \<Rightarrow> UniversalHash \<Rightarrow>
    byte list \<Rightarrow> u32 list \<Rightarrow> fault + View arr2 \<times> ZkBooCommit" where
  "simulate_round e rnd views a h y W =
    sbind (shared_round e rnd views a h zero_rvec (replicate (4 * MSG_WORDS) 0) W) (\<lambda>(views, a).
      Inr (opened e views, correct_hidden e
        (map2 (XOR) (load_digest_words y) (load_digest_words (sha256 (rvec_msg zero_rvec)))) (bit (uh_b h ! 0) 0) a))"

lemma hash_row0_zero [simp]: "\<not> hash_row0 A zero_rvec"
proof -
  have "\<not> wbit (words zero_rvec) k" if "k < L_BITS" for k
    using that by (simp add: wbit_def zero_rvec_def param_values)
  then have "hash_row0 A zero_rvec = xsum (\<lambda>_. False) L_BITS"
    unfolding hash_row0_def by (intro xsum_cong refl) blast
  then show ?thesis by simp
qed

text \<open>The random words of the simulated round that give the opened shares of r and of the bit v.\<close>

definition shift_shares :: "nat \<Rightarrow> RVec \<Rightarrow> bool \<Rightarrow> u32 list \<Rightarrow> u32 list" where
  "shift_shares e r v W = shift_words (e = 1) (words r) (take L_WORDS W)
     @ shift_words (e = 2) (words r) (take L_WORDS (drop L_WORDS W)) @ shift_msg e v (drop (2 * L_WORDS) W)"

lemma bij_shift_shares:
  assumes "wf_rvec r"
  shows "bij_betw (shift_shares e r v) (wordlists SHARE_WORDS) (wordlists SHARE_WORDS)"
proof -
  have b: "bij_betw (shift_words c (words r)) (wordlists L_WORDS) (wordlists L_WORDS)" for c
    by (rule bij_shift_words) (use assms in \<open>simp add: wf_rvec_def\<close>)
  have "shift_shares e r v = (\<lambda>w. shift_words (e = 1) (words r) (take L_WORDS w) @
      (\<lambda>w. shift_words (e = 2) (words r) (take L_WORDS w) @ shift_msg e v (drop L_WORDS w)) (drop L_WORDS w))"
    by (simp add: shift_shares_def[abs_def] mult_2)
  then show ?thesis
    using bij_append[OF b[of "e = 1"] bij_append[OF b[of "e = 2"] bij_shift_msg[of e v]]]
    by (simp add: SHARE_WORDS_def param_values)
qed

lemma shared_round_split:
  assumes "length u = L_WORDS" "length u' = L_WORDS" "length x = 3"
  shows "shared_round e rnd views a h r msg ((u @ u' @ x) @ w)
    = mpc_hm_prove views a (tapes e rnd w) h (share_rvec (le_bytes u) (le_bytes u') r) [share_msg (le_bytes x) msg ! 0]"
  using assms share_msg_one[OF assms(3), of msg]
  by (simp add: shared_round_def share_secrets_def SHARE_WORDS_def param_values)

lemma shared_runs:
  assumes e: "e < 3" and b: "prover_buffers rnd views" "length (a_y2p a) = MSG_WORDS" "L_WORDS \<le> length (uh_A h)"
    and r: "normal_rvec r" and m: "load_u32_le msg = of_bool v" and c: "hash_commits h r v"
    and y: "y = sha256 (rvec_msg r)" and W: "W \<in> wordlists SHARE_WORDS"
  shows "\<exists>G. bij_betw G (wordlists ySize) (wordlists ySize) \<and> (\<forall>w\<in>wordlists ySize. \<exists>views' a'.
     shared_round e rnd views a h r msg (W @ w) = Inr (views', a') \<and>
     simulate_round e rnd views a h y (shift_shares e r v W @ G w) = Inr (opened e views', a'))"
proof -
  define u u' x where W': "u = take L_WORDS W" "u' = take L_WORDS (drop L_WORDS W)" "x = drop (2 * L_WORDS) W"
  have len: "length u = L_WORDS" "length u' = L_WORDS" "length x = 3"
    using W by (simp_all add: W' wordlists_def SHARE_WORDS_def param_values)
  have WW: "W = u @ u' @ x" unfolding W' by (simp add: mult_2 flip: drop_drop)
  have lr: "length (words r) = L_WORDS" using r by (simp add: normal_rvec_def wf_rvec_def)
  let ?u = "shift_words (e = 1) (words r) u" and ?u' = "shift_words (e = 2) (words r) u'" and ?x = "shift_msg e v x"
  let ?s = "share_rvec (le_bytes u) (le_bytes u') r" and ?s' = "share_rvec (le_bytes ?u) (le_bytes ?u') zero_rvec"
  let ?m = "share_msg (le_bytes x) msg ! 0" and ?m' = "share_msg (le_bytes ?x) (replicate 4 0) ! 0"
  have len': "length ?u = L_WORDS" "length ?u' = L_WORDS" "length ?x = 3"
    using len by (simp_all add: shift_words_facts[OF lr] shift_msg_def)
  have lb: "length (le_bytes w) = 4 * L_WORDS" if "length w = L_WORDS" for w using that by simp
  note s = share_rvec_facts[OF r lb[OF len(1)] lb[OF len(2)]] share_rvec_facts[OF normal_zero lb[OF len'(1)] lb[OF len'(2)]]
  have x: "xor3 ?m = of_bool v" "xor3 ?m' = of_bool False"
    using share_msg_facts(2) m by (simp_all add: load_u32_le_def numeral_eq_Suc)
  have d: "((v \<noteq> hash_row0 (uh_A h) (rvec_xor3 ?s)) \<noteq> (False \<noteq> hash_row0 (uh_A h) (rvec_xor3 ?s'))) = bit (uh_b h ! 0) 0"
    using c s(2,4) by (auto simp: hash_commits_def)
  have sh: "shift_shares e r v W = ?u @ ?u' @ ?x" by (simp add: shift_shares_def W')
  show ?thesis
  proof (rule prove_runs[OF e s(1,3) share_rvec_hides[OF e r len(1,2)] share_msg_hides[OF e m len(3)] b x])
    fix G
    assume G: "bij_betw G (wordlists ySize) (wordlists ySize)"
      and run: "\<And>w. w \<in> wordlists ySize \<Longrightarrow> \<exists>vs vs' a'. mpc_hm_prove views a (tapes e rnd (G w)) h ?s' [?m'] = Inr (vs', a') \<and>
       opened e vs = opened e vs' \<and> mpc_hm_prove views a (tapes e rnd w) h ?s [?m] = Inr (vs, correct_hidden e
         (map2 (XOR) (load_digest_words (sha256 (rvec_msg (rvec_xor3 ?s)))) (load_digest_words (sha256 (rvec_msg (rvec_xor3 ?s')))))
         ((v \<noteq> hash_row0 (uh_A h) (rvec_xor3 ?s)) \<noteq> (False \<noteq> hash_row0 (uh_A h) (rvec_xor3 ?s'))) a')"
    have "\<exists>views' a'. shared_round e rnd views a h r msg (W @ w) = Inr (views', a') \<and>
       simulate_round e rnd views a h y (shift_shares e r v W @ G w) = Inr (opened e views', a')" if "w \<in> wordlists ySize" for w
    proof -
      have R: "shared_round e rnd views a h r msg (W @ w) = mpc_hm_prove views a (tapes e rnd w) h ?s [?m]"
        by (subst WW) (rule shared_round_split[OF len])
      have S: "shared_round e rnd views a h zero_rvec (replicate 4 0) (shift_shares e r v W @ G w)
          = mpc_hm_prove views a (tapes e rnd (G w)) h ?s' [?m']"
        unfolding sh by (rule shared_round_split[OF len'])
      from run[OF that] show ?thesis
        unfolding d unfolding simulate_round_def R y s(2,4)
        by (elim exE conjE) (simp only: param_values mult_1_right S, simp)
    qed
    with G show ?thesis by blast
  qed
qed

section \<open>Properties\<close>

text \<open>C4: Zero knowledge of a proof round for each challenge e.  Whatever r and msg open the published
  pair of digest y and hash h, there is a bijection between the random words of the round and those
  of simulate_round, which does not know them, such that the two opened views and the published
  shares of the digest and of the masked bit are equal word for word.  So for uniformly random
  sharing words and a uniformly random tape of the hidden party, what a round opens is distributed
  as the output of the simulator; the hash of the hidden view is not part of the statement.\<close>

theorem round_zero_knowledge:
  assumes "e < 3" and "prover_buffers rnd views" "length (a_y2p a) = MSG_WORDS" "L_WORDS \<le> length (uh_A h)"
    and "normal_rvec r" and "load_u32_le msg = of_bool v" and "hash_commits h r v" and "y = sha256 (rvec_msg r)"
  shows "\<exists>G. bij_betw G (wordlists (SHARE_WORDS + ySize)) (wordlists (SHARE_WORDS + ySize)) \<and>
     (\<forall>W\<in>wordlists (SHARE_WORDS + ySize). \<exists>views' a'. shared_round e rnd views a h r msg W = Inr (views', a') \<and>
        simulate_round e rnd views a h y (G W) = Inr (opened e views', a'))"
proof -
  from shared_runs[OF assms] obtain K where K: "\<And>u. u \<in> wordlists SHARE_WORDS \<Longrightarrow>
      bij_betw (K u) (wordlists ySize) (wordlists ySize) \<and> (\<forall>w\<in>wordlists ySize. \<exists>views' a'.
        shared_round e rnd views a h r msg (u @ w) = Inr (views', a') \<and>
        simulate_round e rnd views a h y (shift_shares e r v u @ K u w) = Inr (opened e views', a'))"
    by metis
  let ?G = "\<lambda>w. shift_shares e r v (take SHARE_WORDS w) @ K (take SHARE_WORDS w) (drop SHARE_WORDS w)"
  have "bij_betw ?G (wordlists (SHARE_WORDS + ySize)) (wordlists (SHARE_WORDS + ySize))"
    by (rule bij_append[OF bij_shift_shares]) (use assms(5) K in \<open>simp_all add: normal_rvec_def\<close>)
  moreover have "\<exists>views' a'. shared_round e rnd views a h r msg W = Inr (views', a') \<and>
      simulate_round e rnd views a h y (?G W) = Inr (opened e views', a')" if "W \<in> wordlists (SHARE_WORDS + ySize)" for W
  proof -
    have "take SHARE_WORDS W \<in> wordlists SHARE_WORDS" "drop SHARE_WORDS W \<in> wordlists ySize"
      using that by (simp_all add: wordlists_def)
    from bspec[OF conjunct2[OF K[OF this(1)]] this(2)] show ?thesis by simp
  qed
  ultimately show ?thesis by blast
qed

lemma round_zero_knowledge_witness:
  "\<exists>G. bij_betw G (wordlists (SHARE_WORDS + ySize)) (wordlists (SHARE_WORDS + ySize)) \<and>
     (\<forall>W\<in>wordlists (SHARE_WORDS + ySize). \<exists>views' a'.
        shared_round 1 (generate_randomness (\<lambda>_ _. 7) (Arr3 [1] [2] [3])) (Arr3 zero_view zero_view zero_view)
          demo_commit_record demo_hash zero_rvec [1, 0, 0, 0] W = Inr (views', a') \<and>
        simulate_round 1 (generate_randomness (\<lambda>_ _. 7) (Arr3 [1] [2] [3])) (Arr3 zero_view zero_view zero_view)
          demo_commit_record demo_hash (sha256 (rvec_msg zero_rvec)) (G W) = Inr (opened 1 views', a'))"
proof (rule round_zero_knowledge[OF _ demo_round(1,3) demo_hash_commits(1) normal_zero])
  show "load_u32_le [1, 0, 0, 0] = of_bool True" by (simp add: load_u32_le_def)
  show "hash_commits demo_hash zero_rvec True" by (simp add: hash_commits_def demo_hash_def)
qed simp_all

end
