(* ===== verification/Universal_Hash_Count.thy ===== *)
theory Universal_Hash_Count
  imports Universal_Hash
begin

unbundle bit_operations_syntax

text \<open>
  Why the masked message hides the message: for every vector with a bit set,
  the Toeplitz hash takes every value for equally many diagonals.  The hash is
  linear in the diagonal and reaches every value, so any two fibres are
  translates of each other.
\<close>

section \<open>Linearity\<close>

lemma xsum_flip:
  assumes "K < n" "\<And>k. k < n \<Longrightarrow> k \<noteq> K \<Longrightarrow> f k = g k" "f K \<noteq> g K"
  shows "xsum f n \<noteq> xsum g n"
  using assms
proof (induction n)
  case (Suc n)
  show ?case
  proof (cases "K = n")
    case True
    then have "xsum f n = xsum g n" using Suc.prems(2) by (intro xsum_cong) simp_all
    with True Suc.prems(3) show ?thesis by simp
  qed (use Suc in simp)
qed simp

lemma wbit_xor:
  assumes "length A = w" "length D = w" "p < 32 * w"
  shows "wbit (map2 (XOR) A D) p = (wbit A p \<noteq> wbit D p)"
  using assms by (simp add: wbit_def bit_xor_iff less_mult_imp_div_less mult.commute)

lemma diagonal_position:
  assumes "(n - 1) div 32 + l + 1 \<le> w" "k < 32 * l"
  shows "n - Suc i + k < 32 * w"
proof -
  have "n - 1 < 32 * ((n - 1) div 32 + 1)"
    using dividend_less_times_div[of 32 "n - 1"] by simp
  with assms have "n - 1 + k < 32 * ((n - 1) div 32 + l + 1)" by simp
  also have "\<dots> \<le> 32 * w" using assms(1) by (intro mult_le_mono2)
  finally show ?thesis by linarith
qed

lemma hash_bit_linear:
  assumes "diagonal_ok n l A" "length D = length A"
  shows "hash_bit n (map2 (XOR) A D) r l i = (hash_bit n A r l i \<noteq> hash_bit n D r l i)"
proof -
  have "toeplitz n (map2 (XOR) A D) i k = (toeplitz n A i k \<noteq> toeplitz n D i k)" if "k < 32 * l" for k
    using diagonal_position[OF assms(1)[unfolded diagonal_ok_def] that] assms(2) by (simp add: toeplitz_def wbit_xor)
  then have "hash_bit n (map2 (XOR) A D) r l i
    = xsum (\<lambda>k. (toeplitz n A i k \<and> wbit r k) \<noteq> (toeplitz n D i k \<and> wbit r k)) (32 * l)"
    unfolding hash_bit_def by (intro xsum_cong) auto
  then show ?thesis by (simp only: xsum_xor hash_bit_def)
qed

section \<open>Every value is reached\<close>

text \<open>
  The diagonal is built from its start: with K the last set bit of r, the
  position q + K occurs in the rows up to the one that starts at q, and in
  that row with the coefficient 1.
\<close>

lemma diagonal_reaches:
  fixes f :: "nat \<Rightarrow> bool"
  assumes K: "K < m" "c K" "\<And>k. K < k \<Longrightarrow> k < m \<Longrightarrow> \<not> c k"
  shows "\<exists>f. \<forall>p<q. xsum (\<lambda>k. f (p + k) \<and> c k) m = g p"
proof (induction q)
  case (Suc q)
  then obtain f where f: "\<And>p. p < q \<Longrightarrow> xsum (\<lambda>k. f (p + k) \<and> c k) m = g p" by blast
  let ?f = "f(q + K := (\<not> f (q + K)))"
  have "xsum (\<lambda>k. ?f (p + k) \<and> c k) m = g p" if "p < q" for p
  proof -
    have "xsum (\<lambda>k. ?f (p + k) \<and> c k) m = xsum (\<lambda>k. f (p + k) \<and> c k) m"
      using that K(3) by (intro xsum_cong) auto
    with f[OF that] show ?thesis by simp
  qed
  moreover have "xsum (\<lambda>k. ?f (q + k) \<and> c k) m \<noteq> xsum (\<lambda>k. f (q + k) \<and> c k) m"
    by (rule xsum_flip[OF K(1)]) (use K(2) in auto)
  ultimately show ?case
    using f by (cases "xsum (\<lambda>k. f (q + k) \<and> c k) m = g q") (rule exI[of _ f] exI[of _ ?f], simp add: less_Suc_eq)+
qed simp

lemma word_of_bits: "\<exists>w :: 'a::len word. \<forall>k<LENGTH('a). bit w k = f k"
proof -
  have "bit (foldr (\<lambda>k acc. acc OR push_bit k (of_bool (f k))) ks 0 :: 'a word) i = (i < LENGTH('a) \<and> i \<in> set ks \<and> f i)" for ks i
    by (induction ks) (auto simp: bit_simps)
  then show ?thesis by (intro exI[of _ "foldr (\<lambda>k acc. acc OR push_bit k (of_bool (f k))) [0..<LENGTH('a)] 0"]) simp
qed

lemma words_of_bits: "\<exists>A. length A = w \<and> (\<forall>p<32 * w. wbit A p = f p)"
proof -
  have "\<forall>j. \<exists>x :: u32. \<forall>k<32. bit x k = f (32 * j + k)" using word_of_bits[where 'a = 32] by simp
  then obtain x :: "nat \<Rightarrow> u32" where x: "\<And>j k. k < 32 \<Longrightarrow> bit (x j) k = f (32 * j + k)" by metis
  have "wbit (map x [0..<w]) p = f p" if "p < 32 * w" for p
    using that x[of "p mod 32" "p div 32"] by (simp add: wbit_def less_mult_imp_div_less mult.commute)
  then show ?thesis by (intro exI[of _ "map x [0..<w]"]) simp
qed

lemma bytes_of_bits: "\<exists>B. length B = w \<and> (\<forall>p<8 * w. bbit B p = f p)"
proof -
  have "\<forall>j. \<exists>x :: byte. \<forall>k<8. bit x k = f (8 * j + k)" using word_of_bits[where 'a = 8] by simp
  then obtain x :: "nat \<Rightarrow> byte" where x: "\<And>j k. k < 8 \<Longrightarrow> bit (x j) k = f (8 * j + k)" by metis
  have "bbit (map x [0..<w]) p = f p" if "p < 8 * w" for p
    using that x[of "p mod 8" "p div 8"] by (simp add: bbit_def less_mult_imp_div_less mult.commute)
  then show ?thesis by (intro exI[of _ "map x [0..<w]"]) simp
qed

lemma last_set_bit:
  fixes c :: "nat \<Rightarrow> bool"
  assumes "k < m" "c k"
  obtains K where "K < m" "c K" "\<And>k. K < k \<Longrightarrow> k < m \<Longrightarrow> \<not> c k"
proof (rule that[of "Max {k. k < m \<and> c k}"])
  have fin: "finite {k. k < m \<and> c k}" and ne: "{k. k < m \<and> c k} \<noteq> {}" using assms by auto
  show "Max {k. k < m \<and> c k} < m" "c (Max {k. k < m \<and> c k})" using Max_in[OF fin ne] by auto
  show "\<not> c k" if "Max {k. k < m \<and> c k} < k" "k < m" for k
  proof
    assume "c k"
    with that(2) have "k \<le> Max {k. k < m \<and> c k}" by (intro Max_ge fin) simp
    with that(1) show False by simp
  qed
qed

lemma hash_reaches:
  assumes w: "(n - 1) div 32 + l + 1 \<le> w" and r: "k < 32 * l" "wbit r k"
  shows "\<exists>D. length D = w \<and> (\<forall>i<n. hash_bit n D r l i = h i)"
proof (rule last_set_bit[where c = "wbit r", OF r])
  fix K assume K: "K < 32 * l" "wbit r K" "\<And>k. K < k \<Longrightarrow> k < 32 * l \<Longrightarrow> \<not> wbit r k"
  from diagonal_reaches[where c = "wbit r", OF K, of n "\<lambda>p. h (n - 1 - p)"] obtain f
    where f: "\<And>p. p < n \<Longrightarrow> xsum (\<lambda>k. f (p + k) \<and> wbit r k) (32 * l) = h (n - 1 - p)" by blast
  from words_of_bits obtain D where D: "length D = w" "\<And>p. p < 32 * w \<Longrightarrow> wbit D p = f p" by blast
  have "hash_bit n D r l i = h i" if i: "i < n" for i
  proof -
    have "hash_bit n D r l i = xsum (\<lambda>k. f (n - Suc i + k) \<and> wbit r k) (32 * l)"
      unfolding hash_bit_def toeplitz_def by (intro xsum_cong) (simp_all add: D(2) diagonal_position[OF w])
    also have "\<dots> = h (n - 1 - (n - Suc i))" using f[of "n - Suc i"] i by simp
    finally show ?thesis using i by simp
  qed
  with D(1) show ?thesis by blast
qed

section \<open>Counting\<close>

lemma even_fibres:
  fixes S :: "'a set" and T :: "'b set"
  assumes "finite S" "finite T" "g ` S \<subseteq> T" "t \<in> T"
    and move: "\<And>t'. t' \<in> T \<Longrightarrow> \<exists>F. bij_betw F S S \<and> (\<forall>x\<in>S. g (F x) = t \<longleftrightarrow> g x = t')"
  shows "card {x \<in> S. g x = t} * card T = card S"
proof -
  have same: "card {x \<in> S. g x = t'} = card {x \<in> S. g x = t}" if "t' \<in> T" for t'
  proof -
    from move[OF that] obtain F where F: "bij_betw F S S" "\<forall>x\<in>S. g (F x) = t \<longleftrightarrow> g x = t'" by blast
    have img: "F ` {x \<in> S. g x = t'} = {x \<in> S. g x = t}"
    proof (intro equalityI subsetI)
      fix y assume y: "y \<in> {x \<in> S. g x = t}"
      then have "y \<in> F ` S" using bij_betw_imp_surj_on[OF F(1)] by simp
      with F(2) y show "y \<in> F ` {x \<in> S. g x = t'}" by blast
    next
      fix y assume "y \<in> F ` {x \<in> S. g x = t'}"
      then obtain x where "x \<in> S" "g x = t'" "y = F x" by blast
      then show "y \<in> {x \<in> S. g x = t}" using F(2) bij_betw_apply[OF F(1)] by simp
    qed
    have "inj_on F {x \<in> S. g x = t'}" by (rule inj_on_subset[OF bij_betw_imp_inj_on[OF F(1)]]) auto
    from card_image[OF this] show ?thesis unfolding img by simp
  qed
  have "card S = (\<Sum>t'\<in>T. card {x \<in> S. g x = t'})"
    using sum.group[OF assms(1-3), of "\<lambda>_. 1 :: nat"] by simp
  also have "\<dots> = card T * card {x \<in> S. g x = t}" using same by simp
  finally show ?thesis by (simp add: mult.commute)
qed

text \<open>A family of n bits that is linear on lists of words and takes every value.\<close>

lemma linear_fibre:
  fixes g :: "'w::len word list \<Rightarrow> nat \<Rightarrow> bool"
  assumes linear: "\<And>A D i. length A = w \<Longrightarrow> length D = w \<Longrightarrow> i < n \<Longrightarrow> g (map2 (XOR) A D) i = (g A i \<noteq> g D i)"
    and reach: "\<And>h. \<exists>D. length D = w \<and> (\<forall>i<n. g D i = h i)"
  shows "card {A. length A = w \<and> (\<forall>i<n. g A i = h i)} * 2 ^ n = card {A :: 'w word list. length A = w}"
proof -
  let ?S = "{A :: 'w word list. length A = w}" and ?T = "{bs :: bool list. length bs = n}"
  let ?g = "\<lambda>A. map (g A) [0..<n]"
  have T: "finite ?T" "card ?T = 2 ^ n"
    using finite_lists_length_eq[of "UNIV :: bool set" n] card_lists_length_eq[of "UNIV :: bool set" n] by simp_all
  have "card {A \<in> ?S. ?g A = map h [0..<n]} * card ?T = card ?S"
  proof (rule even_fibres)
    show "finite ?S" using finite_lists_length_eq[of "UNIV :: 'w word set" w] by simp
    fix t' :: "bool list" assume t': "t' \<in> ?T"
    from reach[of "\<lambda>i. h i \<noteq> t' ! i"] obtain D where D: "length D = w" "\<And>i. i < n \<Longrightarrow> g D i = (h i \<noteq> t' ! i)" by blast
    have b: "bij_betw (\<lambda>A. map2 (XOR) A D) ?S ?S"
      by (rule bij_betw_byWitness[where f' = "\<lambda>A. map2 (XOR) A D"])
        (use D(1) in \<open>auto simp: xor.assoc intro!: nth_equalityI\<close>)
    have "?g (map2 (XOR) A D) = map h [0..<n] \<longleftrightarrow> ?g A = t'" if "A \<in> ?S" for A
      using that t' D by (auto simp: list_eq_iff_nth_eq linear)
    with b show "\<exists>F. bij_betw F ?S ?S \<and> (\<forall>A\<in>?S. ?g (F A) = map h [0..<n] \<longleftrightarrow> ?g A = t')" by blast
  qed (use T in auto)
  moreover have "{A \<in> ?S. ?g A = map h [0..<n]} = {A. length A = w \<and> (\<forall>i<n. g A i = h i)}"
    by (auto simp: list_eq_iff_nth_eq)
  ultimately show ?thesis by (simp add: T(2))
qed

lemma card_word_lists: "card {A :: 'w::len word list. length A = w} = 2 ^ (LENGTH('w) * w)"
  using card_lists_length_eq[of "UNIV :: 'w word set" w] by (simp add: card_word power_mult)

lemma hash_fibre:
  assumes w: "(n - 1) div 32 + l + 1 \<le> w" and r: "k < 32 * l" "wbit r k"
  shows "card {A :: u32 list. length A = w \<and> (\<forall>i<n. hash_bit n A r l i = h i)} * 2 ^ n = 2 ^ (32 * w)"
proof -
  have "card {A :: u32 list. length A = w \<and> (\<forall>i<n. hash_bit n A r l i = h i)} * 2 ^ n = card {A :: u32 list. length A = w}"
    by (rule linear_fibre) (use w hash_reaches[OF w r] in \<open>simp_all add: hash_bit_linear diagonal_ok_def\<close>)
  then show ?thesis by (simp add: card_word_lists)
qed

lemma bits_agree:
  fixes t :: "nat \<Rightarrow> bool"
  assumes "\<And>i. n \<le> i \<Longrightarrow> i < N \<Longrightarrow> \<not> t i" "\<And>i. i < N \<Longrightarrow> b i = (i < n \<and> (h i \<noteq> m i))" "\<And>i. i < n \<Longrightarrow> i < N"
  shows "(\<forall>i<N. b i = t i) \<longleftrightarrow> (\<forall>i<n. h i = (t i \<noteq> m i))"
proof (rule iffI; intro allI impI)
  fix i assume "\<forall>i<N. b i = t i" "i < n"
  with assms(2,3)[of i] show "h i = (t i \<noteq> m i)" by auto
next
  fix i assume "\<forall>i<n. h i = (t i \<noteq> m i)" "i < N"
  with assms(1,2)[of i] show "b i = t i" by (cases "i < n") auto
qed

section \<open>Properties\<close>

text \<open>C33: The masked message is uniform.  For a vector r with any bit set, a message m and any value t
  of the output buffer with clear padding bits, the number of diagonals A for which
  universal_hash_compute_b writes t is the 2^n-th part of all diagonals of that length: over a
  uniformly random diagonal each masked message has probability 2^-n, whatever m is.\<close>

theorem universal_hash_uniform:
  assumes "(n - 1) div 32 + l + 1 \<le> w" and "l \<le> length r" "k < 32 * l" "wbit r k"
    and "(n + 7) div 8 \<le> length m" "length b = (n + 7) div 8"
    and "length t = (n + 7) div 8" "\<And>i. n \<le> i \<Longrightarrow> i < 8 * ((n + 7) div 8) \<Longrightarrow> \<not> bbit t i"
  shows "card {A :: u32 list. length A = w \<and> universal_hash_compute_b b A r l m n = Inr t} * 2 ^ n = 2 ^ (32 * w)"
proof -
  have "universal_hash_compute_b b A r l m n = Inr t \<longleftrightarrow> (\<forall>i<n. hash_bit n A r l i = (bbit t i \<noteq> bbit m i))"
    if A: "length A = w" for A
  proof -
    have ok: "diagonal_ok n l A" using A assms(1) by (simp add: diagonal_ok_def)
    show ?thesis
    proof (rule compute_b_spec[OF ok assms(2,5) eq_refl[OF assms(6)[symmetric]]])
      fix b' assume b': "universal_hash_compute_b b A r l m n = Inr b'" "length b' = length b"
        "\<And>i. i < 8 * ((n + 7) div 8) \<Longrightarrow> bbit b' i = (i < n \<and> (hash_bit n A r l i \<noteq> bbit m i))"
      have "b' = t \<longleftrightarrow> (\<forall>i<8 * ((n + 7) div 8). bbit b' i = bbit t i)"
        using bytes_eqI[of b' t] b'(2) assms(6,7) by auto
      also have "\<dots> \<longleftrightarrow> (\<forall>i<n. hash_bit n A r l i = (bbit t i \<noteq> bbit m i))"
        by (rule bits_agree[OF assms(8) b'(3) bits_fit])
      finally show ?thesis by (simp add: b'(1))
    qed
  qed
  then have "{A :: u32 list. length A = w \<and> universal_hash_compute_b b A r l m n = Inr t}
      = {A. length A = w \<and> (\<forall>i<n. hash_bit n A r l i = (bbit t i \<noteq> bbit m i))}" by blast
  then show ?thesis using hash_fibre[OF assms(1,3,4), of "\<lambda>i. bbit t i \<noteq> bbit m i"] by simp
qed

lemma universal_hash_uniform_witness:
  "card {A :: u32 list. length A = 2 \<and> universal_hash_compute_b [9] A [5] 1 [1] 2 = Inr [3]} * 2 ^ 2 = 2 ^ 64"
proof -
  have "bbit [3] i = (i < 2)" if "i < 8" for i
  proof -
    have "bit (mask 2 :: byte) i = (i < 2)" unfolding bit_mask_iff using that by auto
    then show ?thesis using that by (simp add: bbit_def mask_eq_decr_exp)
  qed
  then show ?thesis
    using universal_hash_uniform[of 2 1 2 "[5]" 0 "[1]" "[9]" "[3]"] by (simp add: wbit_def bit_0)
qed

end
