(* ===== verification/Leftover_Hash.thy ===== *)
theory Leftover_Hash
  imports Complex_Main
begin

text \<open>
  Counting arguments on distributions.  A random variable is a function on a
  finite set of equally likely samples; the distance of two of them is the sum
  over all values of the difference of their counts.  The leftover hash lemma
  bounds the distance of a pairwise independent hash from uniform, jointly with
  a digest of its input.
\<close>

section \<open>Distance of two random variables\<close>

definition hits :: "'x set \<Rightarrow> ('x \<Rightarrow> 'v) \<Rightarrow> 'v \<Rightarrow> nat" where
  "hits X f v = card {x \<in> X. f x = v}"

definition distance :: "'x set \<Rightarrow> ('x \<Rightarrow> 'v) \<Rightarrow> ('x \<Rightarrow> 'v) \<Rightarrow> real" where
  "distance X f g = (\<Sum>v\<in>f ` X \<union> g ` X. \<bar>real (hits X f v) - real (hits X g v)\<bar>)"

lemma hits_sum: "finite X \<Longrightarrow> real (hits X f v) = (\<Sum>x\<in>X. of_bool (f x = v))"
  by (simp add: hits_def sum.If_cases of_bool_def Int_def)

lemma hits_outside: "v \<notin> f ` X \<Longrightarrow> hits X f v = 0"
  by (auto simp: hits_def card_eq_0_iff)

lemma distance_superset:
  assumes "finite V" "f ` X \<union> g ` X \<subseteq> V"
  shows "distance X f g = (\<Sum>v\<in>V. \<bar>real (hits X f v) - real (hits X g v)\<bar>)"
  unfolding distance_def by (rule sum.mono_neutral_left[OF assms]) (simp add: hits_outside)

lemma sum_hits:
  assumes "finite X" "finite V" "f ` X \<subseteq> V"
  shows "(\<Sum>v\<in>V. real (hits X f v)) = card X"
  using sum.group[OF assms, of "\<lambda>_. 1 :: real"] by (simp add: hits_def)

lemma distance_triangle:
  assumes "finite V" "f ` X \<union> g ` X \<subseteq> V"
  shows "distance X f g \<le> (\<Sum>v\<in>V. \<bar>real (hits X f v) - q v\<bar>) + (\<Sum>v\<in>V. \<bar>real (hits X g v) - q v\<bar>)"
  unfolding distance_superset[OF assms] sum.distrib[symmetric] by (intro sum_mono) linarith

text \<open>What is computed from the values is not further apart.\<close>

lemma distance_post:
  assumes "finite X"
  shows "distance X (\<lambda>x. p (f x)) (\<lambda>x. p (g x)) \<le> distance X f g"
proof -
  define V where "V = f ` X \<union> g ` X"
  have fin: "finite V" and im: "f ` X \<subseteq> V" "g ` X \<subseteq> V" using assms by (simp_all add: V_def)
  have split: "real (hits X (\<lambda>x. p (k x)) u) = (\<Sum>v\<in>{v \<in> V. p v = u}. real (hits X k v))"
    if "k ` X \<subseteq> V" for k u
  proof -
    have "{x \<in> X. p (k x) = u} = (\<Union>v\<in>{v \<in> V. p v = u}. {x \<in> X. k x = v})" using that by auto
    moreover have "card (\<Union>v\<in>{v \<in> V. p v = u}. {x \<in> X. k x = v}) = (\<Sum>v\<in>{v \<in> V. p v = u}. card {x \<in> X. k x = v})"
      by (rule card_UN_disjoint) (use assms fin in auto)
    ultimately show ?thesis by (simp add: hits_def)
  qed
  have "distance X (\<lambda>x. p (f x)) (\<lambda>x. p (g x))
      = (\<Sum>u\<in>p ` V. \<bar>real (hits X (\<lambda>x. p (f x)) u) - real (hits X (\<lambda>x. p (g x)) u)\<bar>)"
    by (rule distance_superset) (use fin im in auto)
  also have "\<dots> = (\<Sum>u\<in>p ` V. \<bar>\<Sum>v\<in>{v \<in> V. p v = u}. real (hits X f v) - real (hits X g v)\<bar>)"
    by (simp add: split im sum_subtractf)
  also have "\<dots> \<le> (\<Sum>u\<in>p ` V. \<Sum>v\<in>{v \<in> V. p v = u}. \<bar>real (hits X f v) - real (hits X g v)\<bar>)"
    by (intro sum_mono sum_abs)
  also have "\<dots> = distance X f g"
    unfolding distance_def V_def[symmetric] by (rule sum.group) (use fin in auto)
  finally show ?thesis .
qed

lemma distance_cong:
  "(\<And>x. x \<in> X \<Longrightarrow> f x = f' x) \<Longrightarrow> (\<And>x. x \<in> X \<Longrightarrow> g x = g' x) \<Longrightarrow> distance X f g = distance X f' g'"
  unfolding distance_def hits_def by (simp cong: image_cong conj_cong)

lemma distance_trans:
  assumes "finite X"
  shows "distance X f h \<le> distance X f g + distance X g h"
proof -
  let ?V = "f ` X \<union> g ` X \<union> h ` X"
  have V: "finite ?V" using assms by simp
  have "distance X f h \<le> (\<Sum>v\<in>?V. \<bar>real (hits X f v) - real (hits X g v)\<bar>) + (\<Sum>v\<in>?V. \<bar>real (hits X h v) - real (hits X g v)\<bar>)"
    by (rule distance_triangle[OF V]) auto
  also have "\<dots> = distance X f g + distance X g h"
  proof -
    have "distance X f g = (\<Sum>v\<in>?V. \<bar>real (hits X f v) - real (hits X g v)\<bar>)"
      "distance X g h = (\<Sum>v\<in>?V. \<bar>real (hits X g v) - real (hits X h v)\<bar>)"
      by (rule distance_superset[OF V]; auto)+
    then show ?thesis by (simp add: abs_minus_commute)
  qed
  finally show ?thesis .
qed

lemma distance_reindex:
  fixes f g :: "'b \<Rightarrow> 'c"
  assumes "bij_betw i Y X"
  shows "distance Y (\<lambda>y. f (i y)) (\<lambda>y. g (i y)) = distance X f g"
proof -
  have X: "X = i ` Y" and inj: "inj_on i Y" using assms by (auto simp: bij_betw_def)
  have h: "hits Y (\<lambda>y. k (i y)) v = hits X k v" for k :: "'b \<Rightarrow> 'c" and v
  proof -
    have "{x \<in> X. k x = v} = i ` {y \<in> Y. k (i y) = v}" using X by auto
    moreover have "inj_on i {y \<in> Y. k (i y) = v}" by (rule inj_on_subset[OF inj]) auto
    ultimately show ?thesis by (simp add: hits_def card_image)
  qed
  show ?thesis unfolding distance_def h[of f] h[of g] by (simp add: X image_image)
qed

text \<open>Independent samples on the side add nothing but their number.\<close>

lemma distance_side:
  assumes "finite X" "finite Y"
  shows "distance (X \<times> Y) (\<lambda>(x, y). p (f x) y) (\<lambda>(x, y). p (g x) y) \<le> card Y * distance X f g"
proof -
  let ?V = "f ` X \<union> g ` X"
  let ?f = "\<lambda>(x, y). (f x, y)" and ?g = "\<lambda>(x, y). (g x, y)"
  have h: "hits (X \<times> Y) (\<lambda>(x, y). (k x, y)) (v, y) = hits X k v" if "y \<in> Y" for k v y
  proof -
    have "{z \<in> X \<times> Y. (case z of (x, y) \<Rightarrow> (k x, y)) = (v, y)} = (\<lambda>x. (x, y)) ` {x \<in> X. k x = v}" using that by auto
    then show ?thesis by (simp add: hits_def card_image inj_on_def)
  qed
  have "distance (X \<times> Y) ?f ?g = (\<Sum>w\<in>?V \<times> Y. \<bar>real (hits (X \<times> Y) ?f w) - real (hits (X \<times> Y) ?g w)\<bar>)"
    by (rule distance_superset) (use assms in auto)
  also have "\<dots> = (\<Sum>(v, y)\<in>?V \<times> Y. \<bar>real (hits X f v) - real (hits X g v)\<bar>)"
    by (rule sum.cong) (auto simp: h)
  also have "\<dots> = card Y * distance X f g"
    by (simp add: sum.cartesian_product[symmetric] distance_def sum_distrib_left)
  finally have "distance (X \<times> Y) ?f ?g = card Y * distance X f g" .
  then show ?thesis
    using distance_post[of "X \<times> Y" "\<lambda>(v, y). p v y" ?f ?g] assms by (simp add: case_prod_unfold)
qed

section \<open>The leftover hash lemma\<close>

lemma sum_affine_square:
  fixes x :: "'i \<Rightarrow> real" and a b :: real
  shows "(\<Sum>i\<in>I. (a * x i - b)\<^sup>2) = a\<^sup>2 * (\<Sum>i\<in>I. (x i)\<^sup>2) - (2 * a * b) * (\<Sum>i\<in>I. x i) + card I * b\<^sup>2"
proof -
  have "(a * x i - b)\<^sup>2 = a\<^sup>2 * (x i)\<^sup>2 - (2 * a * b) * x i + b\<^sup>2" for i
    by (simp add: power2_eq_square algebra_simps)
  then show ?thesis by (simp only: sum.distrib sum_subtractf sum_distrib_left[symmetric] sum_constant)
qed

lemma sum_square_le:
  fixes x :: "'i \<Rightarrow> real"
  assumes "finite I"
  shows "(\<Sum>i\<in>I. x i)\<^sup>2 \<le> card I * (\<Sum>i\<in>I. (x i)\<^sup>2)"
proof (cases "I = {}")
  case False
  let ?n = "real (card I)" and ?s = "\<Sum>i\<in>I. x i"
  have n: "0 < ?n" using assms False by (simp add: card_gt_0_iff)
  have "0 \<le> (\<Sum>i\<in>I. (?n * x i - ?s)\<^sup>2)" by (intro sum_nonneg) simp
  also have "\<dots> = ?n * (?n * (\<Sum>i\<in>I. (x i)\<^sup>2) - ?s\<^sup>2)"
    unfolding sum_affine_square by (simp add: power2_eq_square algebra_simps)
  finally show ?thesis using n by (simp add: zero_le_mult_iff)
qed simp

lemma variance:
  fixes x :: "'i \<Rightarrow> real"
  assumes "finite I" "I \<noteq> {}" "(\<Sum>i\<in>I. x i) = s"
  shows "(\<Sum>i\<in>I. (x i - s / card I)\<^sup>2) = (\<Sum>i\<in>I. (x i)\<^sup>2) - s\<^sup>2 / card I"
  using sum_affine_square[of 1 x "s / card I" I] assms by (simp add: power2_eq_square)

text \<open>The number of pairs of samples with the same value.\<close>

lemma sum_hits_square:
  assumes "finite R" "finite T" "b ` R \<subseteq> T"
  shows "(\<Sum>t\<in>T. (real (hits R b t))\<^sup>2) = (\<Sum>r\<in>R. \<Sum>r'\<in>R. of_bool (b r = b r'))"
proof -
  have "(\<Sum>t\<in>T. (real (hits R b t))\<^sup>2) = (\<Sum>t\<in>T. \<Sum>r\<in>R. \<Sum>r'\<in>R. of_bool (b r = t) * of_bool (b r' = t))"
    by (simp add: hits_sum[OF assms(1)] power2_eq_square sum_product)
  also have "\<dots> = (\<Sum>r\<in>R. \<Sum>t\<in>T. \<Sum>r'\<in>R. of_bool (b r = t) * of_bool (b r' = t))" by (rule sum.swap)
  also have "\<dots> = (\<Sum>r\<in>R. \<Sum>r'\<in>R. \<Sum>t\<in>T. of_bool (b r = t) * of_bool (b r' = t))"
    by (intro sum.cong refl sum.swap)
  also have "\<dots> = (\<Sum>r\<in>R. \<Sum>r'\<in>R. of_bool (b r = b r'))"
  proof (intro sum.cong refl)
    fix r r' assume "r \<in> R" "r' \<in> R"
    then have "b r \<in> T" using assms(3) by blast
    have "(\<Sum>t\<in>T. of_bool (b r = t) * of_bool (b r' = t)) = (\<Sum>t\<in>T. if t = b r then of_bool (b r = b r') else (0 :: real))"
      by (intro sum.cong) auto
    then show "(\<Sum>t\<in>T. of_bool (b r = t) * of_bool (b r' = t)) = (of_bool (b r = b r') :: real)"
      using \<open>b r \<in> T\<close> assms(2) by simp
  qed
  finally show ?thesis .
qed

text \<open>
  K are the keys of the hash b; any two inputs with different values of nf
  collide under a card T-th part of the keys, and at most c inputs have the
  same value of nf.
\<close>

definition pairwise_hash :: "'k set \<Rightarrow> 'r set \<Rightarrow> 't set \<Rightarrow> ('k \<Rightarrow> 'r \<Rightarrow> 't) \<Rightarrow> ('r \<Rightarrow> 'n) \<Rightarrow> nat \<Rightarrow> bool" where
  "pairwise_hash K R T b nf c \<longleftrightarrow> finite K \<and> finite R \<and> finite T \<and> (\<forall>k\<in>K. b k ` R \<subseteq> T) \<and>
     (\<forall>r\<in>R. card {r' \<in> R. nf r' = nf r} \<le> c) \<and>
     (\<forall>r\<in>R. \<forall>r'\<in>R. nf r \<noteq> nf r' \<longrightarrow> card {k \<in> K. b k r = b k r'} * card T = card K)"

lemma pairwise_hash_subset:
  assumes "pairwise_hash K R T b nf c" "R' \<subseteq> R"
  shows "pairwise_hash K R' T b nf c"
proof -
  have "finite R" using assms by (simp add: pairwise_hash_def)
  then have "card {r' \<in> R'. nf r' = nf r} \<le> card {r' \<in> R. nf r' = nf r}" for r
    by (intro card_mono) (use assms(2) in auto)
  then show ?thesis
    using assms finite_subset[OF assms(2)] unfolding pairwise_hash_def by (meson image_mono order_trans subsetD)
qed

lemma hash_variance:
  assumes h: "pairwise_hash K R T b nf c" and T: "T \<noteq> {}"
  shows "(\<Sum>k\<in>K. \<Sum>t\<in>T. (real (hits R (b k) t) - card R / card T)\<^sup>2) \<le> real c * card R * card K"
proof -
  have fin: "finite K" "finite R" "finite T" and im: "\<And>k. k \<in> K \<Longrightarrow> b k ` R \<subseteq> T"
    and mates: "\<And>r. r \<in> R \<Longrightarrow> card {r' \<in> R. nf r' = nf r} \<le> c"
    and pair: "\<And>r r'. r \<in> R \<Longrightarrow> r' \<in> R \<Longrightarrow> nf r \<noteq> nf r' \<Longrightarrow> card {k \<in> K. b k r = b k r'} * card T = card K"
    using h by (simp_all add: pairwise_hash_def)
  let ?N = "real (card T)" and ?k = "real (card K)" and ?r = "real (card R)"
  have N: "0 < ?N" using T fin(3) by (simp add: card_gt_0_iff)
  have col: "(\<Sum>k\<in>K. of_bool (b k r = b k r')) = real (card {k \<in> K. b k r = b k r'})" for r r'
    by (simp add: of_bool_def sum.If_cases fin(1) Int_def)
  have le: "real (card {k \<in> K. b k r = b k r'}) \<le> of_bool (nf r' = nf r) * ?k + ?k / ?N" if "r \<in> R" "r' \<in> R" for r r'
  proof (cases "nf r' = nf r")
    case True
    have "card {k \<in> K. b k r = b k r'} \<le> card K" using fin(1) by (intro card_mono) auto
    then show ?thesis using True by (simp add: add_increasing2)
  next
    case False
    then have "real (card {k \<in> K. b k r = b k r'}) * ?N = ?k" using pair[OF that] by (metis of_nat_mult)
    with N False show ?thesis by (simp add: field_simps)
  qed
  have "(\<Sum>k\<in>K. \<Sum>t\<in>T. (real (hits R (b k) t))\<^sup>2) = (\<Sum>k\<in>K. \<Sum>r\<in>R. \<Sum>r'\<in>R. of_bool (b k r = b k r'))"
    by (intro sum.cong refl sum_hits_square fin im)
  also have "\<dots> = (\<Sum>r\<in>R. \<Sum>k\<in>K. \<Sum>r'\<in>R. of_bool (b k r = b k r'))" by (rule sum.swap)
  also have "\<dots> = (\<Sum>r\<in>R. \<Sum>r'\<in>R. real (card {k \<in> K. b k r = b k r'}))"
    unfolding col[symmetric] by (intro sum.cong refl sum.swap)
  also have "\<dots> \<le> (\<Sum>r\<in>R. \<Sum>r'\<in>R. of_bool (nf r' = nf r) * ?k + ?k / ?N)" by (intro sum_mono le)
  also have "\<dots> = (\<Sum>r\<in>R. real (card {r' \<in> R. nf r' = nf r}) * ?k + ?r * (?k / ?N))"
    by (simp add: sum.distrib sum_distrib_right[symmetric] of_bool_def sum.If_cases fin(2) Int_def)
  also have "\<dots> \<le> (\<Sum>r\<in>R. real c * ?k + ?r * (?k / ?N))"
    using mates by (intro sum_mono add_right_mono mult_right_mono) simp_all
  also have "\<dots> = real c * ?r * ?k + ?k * (?r\<^sup>2 / ?N)" by (simp add: power2_eq_square algebra_simps)
  finally have 1: "(\<Sum>k\<in>K. \<Sum>t\<in>T. (real (hits R (b k) t))\<^sup>2) \<le> real c * ?r * ?k + ?k * (?r\<^sup>2 / ?N)" .
  have "(\<Sum>k\<in>K. \<Sum>t\<in>T. (real (hits R (b k) t) - ?r / ?N)\<^sup>2)
    = (\<Sum>k\<in>K. (\<Sum>t\<in>T. (real (hits R (b k) t))\<^sup>2) - ?r\<^sup>2 / ?N)"
    by (intro sum.cong refl variance fin T sum_hits im)
  also have "\<dots> = (\<Sum>k\<in>K. \<Sum>t\<in>T. (real (hits R (b k) t))\<^sup>2) - ?k * (?r\<^sup>2 / ?N)" by (simp add: sum_subtractf)
  finally show ?thesis using 1 by simp
qed

text \<open>Key, digest and hash together, against a hash that is uniform given the digest.\<close>

lemma hits_joint:
  assumes "k \<in> K"
  shows "hits (K \<times> R) (\<lambda>(k, r). (k, dg r, b k r)) (k, d, t) = hits {r \<in> R. dg r = d} (b k) t"
proof -
  have "{x \<in> K \<times> R. (case x of (k, r) \<Rightarrow> (k, dg r, b k r)) = (k, d, t)} = Pair k ` {r \<in> {r \<in> R. dg r = d}. b k r = t}"
    using assms by auto
  then show ?thesis by (simp add: hits_def card_image inj_on_def)
qed

lemma hash_near_uniform:
  assumes h: "pairwise_hash K R T b nf c" and T: "T \<noteq> {}" and D: "finite D" "dg ` R \<subseteq> D"
  shows "(\<Sum>(k, d, t)\<in>K \<times> D \<times> T. \<bar>real (hits (K \<times> R) (\<lambda>(k, r). (k, dg r, b k r)) (k, d, t))
      - card {r \<in> R. dg r = d} / card T\<bar>) \<le> card K * sqrt (real (card D) * card T * c * card R)"
proof -
  let ?R = "\<lambda>d. {r \<in> R. dg r = d}"
  let ?x = "\<lambda>k d t. real (hits (?R d) (b k) t) - card (?R d) / card T"
  have fin: "finite K" "finite R" "finite T" using h by (simp_all add: pairwise_hash_def)
  have part: "(\<Sum>d\<in>D. real (card (?R d))) = card R"
    using sum_hits[OF fin(2) D] by (simp add: hits_def)
  have "(\<Sum>(k, d, t)\<in>K \<times> D \<times> T. \<bar>?x k d t\<bar>\<^sup>2) = (\<Sum>k\<in>K. \<Sum>d\<in>D. \<Sum>t\<in>T. (?x k d t)\<^sup>2)"
    by (simp add: sum.cartesian_product)
  also have "\<dots> = (\<Sum>d\<in>D. \<Sum>k\<in>K. \<Sum>t\<in>T. (?x k d t)\<^sup>2)" by (rule sum.swap)
  also have "\<dots> \<le> (\<Sum>d\<in>D. real c * card (?R d) * card K)"
    by (intro sum_mono hash_variance[OF pairwise_hash_subset[OF h] T]) auto
  also have "\<dots> = real c * card R * card K" by (simp add: sum_distrib_left[symmetric] sum_distrib_right[symmetric] part)
  finally have sq: "(\<Sum>(k, d, t)\<in>K \<times> D \<times> T. \<bar>?x k d t\<bar>\<^sup>2) \<le> real c * card R * card K" .
  let ?S = "\<Sum>(k, d, t)\<in>K \<times> D \<times> T. \<bar>?x k d t\<bar>"
  have "?S\<^sup>2 \<le> card (K \<times> D \<times> T) * (\<Sum>(k, d, t)\<in>K \<times> D \<times> T. \<bar>?x k d t\<bar>\<^sup>2)"
    using sum_square_le[of "K \<times> D \<times> T" "\<lambda>(k, d, t). \<bar>?x k d t\<bar>"] fin D(1) by (simp add: case_prod_beta)
  also have "\<dots> \<le> card (K \<times> D \<times> T) * (real c * card R * card K)" by (intro mult_left_mono sq) simp
  also have "\<dots> = (card K * sqrt (real (card D) * card T * c * card R))\<^sup>2"
    by (simp add: card_cartesian_product power_mult_distrib) (simp add: power2_eq_square mult_ac)
  finally have "?S \<le> card K * sqrt (real (card D) * card T * c * card R)" by (rule power2_le_imp_le) simp
  moreover have "(\<Sum>(k, d, t)\<in>K \<times> D \<times> T. \<bar>real (hits (K \<times> R) (\<lambda>(k, r). (k, dg r, b k r)) (k, d, t))
      - card {r \<in> R. dg r = d} / card T\<bar>) = ?S"
    by (rule sum.cong) (auto simp: hits_joint)
  ultimately show ?thesis by simp
qed

lemma leftover_hash:
  assumes b: "pairwise_hash K R T b nf c" "pairwise_hash K R T b' nf c" and T: "T \<noteq> {}"
    and D: "finite D" "dg ` R \<subseteq> D"
  shows "distance (K \<times> R) (\<lambda>(k, r). (k, dg r, b k r)) (\<lambda>(k, r). (k, dg r, b' k r))
     \<le> 2 * (card K * sqrt (real (card D) * card T * c * card R))"
proof -
  let ?V = "K \<times> D \<times> T" and ?q = "\<lambda>(k, d, t). real (card {r \<in> R. dg r = d}) / card T"
  let ?f = "\<lambda>(k, r). (k, dg r, b k r)" and ?g = "\<lambda>(k, r). (k, dg r, b' k r)"
  have fin: "finite ?V" using b(1) D(1) by (simp add: pairwise_hash_def)
  have V: "?f ` (K \<times> R) \<union> ?g ` (K \<times> R) \<subseteq> ?V"
    using b D(2) by (auto simp: pairwise_hash_def image_subset_iff)
  have "distance (K \<times> R) ?f ?g \<le> (\<Sum>v\<in>?V. \<bar>real (hits (K \<times> R) ?f v) - ?q v\<bar>) + (\<Sum>v\<in>?V. \<bar>real (hits (K \<times> R) ?g v) - ?q v\<bar>)"
    by (rule distance_triangle[OF fin V])
  also have "\<dots> \<le> 2 * (card K * sqrt (real (card D) * card T * c * card R))"
    using hash_near_uniform[OF b(1) T D] hash_near_uniform[OF b(2) T D] by (simp add: case_prod_beta')
  finally show ?thesis .
qed

section \<open>Many inputs under one key\<close>

definition tuples :: "'r set \<Rightarrow> nat \<Rightarrow> 'r list set" where
  "tuples R n = {rs. set rs \<subseteq> R \<and> length rs = n}"

lemma tuples_0: "tuples R 0 = {[]}"
  by (auto simp: tuples_def)

lemma tuples_finite: "finite R \<Longrightarrow> finite (tuples R n)" and card_tuples: "finite R \<Longrightarrow> card (tuples R n) = card R ^ n"
  by (simp_all add: tuples_def finite_lists_length_eq card_lists_length_eq)

lemma tuples_hd: "bij_betw (\<lambda>((k, r), rs). (k, r # rs)) ((K \<times> R) \<times> tuples R n) (K \<times> tuples R (Suc n))"
  by (rule bij_betw_byWitness[where f' = "\<lambda>(k, rs). ((k, hd rs), tl rs)"])
    (auto simp: tuples_def length_Suc_conv)

lemma tuples_tl: "bij_betw (\<lambda>((k, rs), r). (k, r # rs)) ((K \<times> tuples R n) \<times> R) (K \<times> tuples R (Suc n))"
  by (rule bij_betw_byWitness[where f' = "\<lambda>(k, rs). ((k, tl rs), hd rs)"])
    (auto simp: tuples_def length_Suc_conv)

text \<open>
  The hybrid argument: b m is the hash for message m, observe what is seen of
  the inputs rs for the messages ms.  One message after the other is replaced.
\<close>

definition observe :: "('m \<Rightarrow> 'k \<Rightarrow> 'r \<Rightarrow> 't) \<Rightarrow> ('r \<Rightarrow> 'd) \<Rightarrow> 'k \<Rightarrow> 'm list \<Rightarrow> 'r list \<Rightarrow> ('d \<times> 't) list" where
  "observe b dg k ms rs = map2 (\<lambda>m r. (dg r, b m k r)) ms rs"

lemma hybrid:
  fixes \<delta> :: real
  assumes fin: "finite K" "finite R"
    and one: "\<And>m m'. m \<in> A \<Longrightarrow> m' \<in> A \<Longrightarrow>
      distance (K \<times> R) (\<lambda>(k, r). (k, dg r, b m k r)) (\<lambda>(k, r). (k, dg r, b m' k r)) \<le> \<delta>"
    and "length ms = length ms'" "set ms \<subseteq> A" "set ms' \<subseteq> A"
  shows "card R * distance (K \<times> tuples R (length ms)) (\<lambda>(k, rs). (k, observe b dg k ms rs)) (\<lambda>(k, rs). (k, observe b dg k ms' rs))
     \<le> length ms * (card R ^ length ms * \<delta>)"
  using assms(4-)
proof (induction ms ms' rule: list_induct2)
  case Nil
  then show ?case by (simp add: distance_def hits_def)
next
  case (Cons m ms m' ms')
  let ?n = "length ms" and ?o = "\<lambda>ms (k, rs). (k, observe b dg k ms rs)"
  let ?X = "K \<times> tuples R (Suc ?n)"
  have X: "finite ?X" and T: "finite (tuples R ?n)" using fin by (simp_all add: tuples_finite)
  have hd: "distance ?X (?o (m # ms)) (?o (m' # ms)) \<le> card R ^ ?n * \<delta>"
  proof -
    let ?p = "\<lambda>(k, d, t) rs. (k, (d, t) # observe b dg k ms rs)"
    have "distance ?X (?o (m # ms)) (?o (m' # ms))
        = distance ((K \<times> R) \<times> tuples R ?n) (\<lambda>(x, rs). ?p (case x of (k, r) \<Rightarrow> (k, dg r, b m k r)) rs)
            (\<lambda>(x, rs). ?p (case x of (k, r) \<Rightarrow> (k, dg r, b m' k r)) rs)"
      by (subst distance_reindex[OF tuples_hd, symmetric]) (auto intro!: distance_cong simp: observe_def)
    also have "\<dots> \<le> card (tuples R ?n) * distance (K \<times> R) (\<lambda>(k, r). (k, dg r, b m k r)) (\<lambda>(k, r). (k, dg r, b m' k r))"
      by (rule distance_side) (use fin T in auto)
    also have "\<dots> \<le> card R ^ ?n * \<delta>"
      unfolding card_tuples[OF fin(2)] of_nat_power using Cons.prems by (intro mult_left_mono one) auto
    finally show ?thesis .
  qed
  have tl: "card R * distance ?X (?o (m' # ms)) (?o (m' # ms')) \<le> card R * (?n * (card R ^ ?n * \<delta>))"
  proof (rule mult_left_mono)
    let ?p = "\<lambda>(k, os) r. (k, (dg r, b m' k r) # os)"
    have "distance ?X (?o (m' # ms)) (?o (m' # ms'))
        = distance ((K \<times> tuples R ?n) \<times> R) (\<lambda>(x, r). ?p (?o ms x) r) (\<lambda>(x, r). ?p (?o ms' x) r)"
      by (subst distance_reindex[OF tuples_tl, symmetric]) (auto intro!: distance_cong simp: observe_def)
    also have "\<dots> \<le> card R * distance (K \<times> tuples R ?n) (?o ms) (?o ms')"
      by (rule distance_side) (use fin T in auto)
    also have "\<dots> \<le> ?n * (card R ^ ?n * \<delta>)" using Cons by simp
    finally show "distance ?X (?o (m' # ms)) (?o (m' # ms')) \<le> ?n * (card R ^ ?n * \<delta>)" .
  qed simp
  have "card R * distance ?X (?o (m # ms)) (?o (m' # ms'))
      \<le> card R * distance ?X (?o (m # ms)) (?o (m' # ms)) + card R * distance ?X (?o (m' # ms)) (?o (m' # ms'))"
    using distance_trans[OF X, of "?o (m # ms)" "?o (m' # ms')" "?o (m' # ms)"]
    by (simp add: distrib_left[symmetric] mult_left_mono)
  also have "\<dots> \<le> card R * (card R ^ ?n * \<delta>) + card R * (?n * (card R ^ ?n * \<delta>))"
    by (rule add_mono[OF mult_left_mono[OF hd] tl]) simp
  finally show ?case by (simp add: algebra_simps)
qed

end
