(* ===== verification/HM_Hiding.thy ===== *)
theory HM_Hiding
  imports HM_Scheme Universal_Hash_Count Leftover_Hash
begin

unbundle bit_operations_syntax

text \<open>
  Statistical hiding of the plain scheme.  For uniformly random results of
  RAND\_bytes, what hm\_context\_create, hm\_context\_export\_matrix and
  hm\_commit publish, the matrix and the commitment, is within 2 ^ -382 of what
  they publish for any other message.  Nothing is assumed of SHA-256 but the
  length of its digests.
\<close>

section \<open>The hash of raw random bytes\<close>

lemma bbit_mask_bytes:
  assumes "0 < n" "length bs = (n + 7) div 8" "i < 8 * length bs"
  shows "bbit (mask_bytes n bs) i = (i < n \<and> bbit bs i)"
  using last_byte_masked[of n bs i] assms by (simp add: mask_bytes_def del: One_nat_def)

lemma wbit_masked_words:
  assumes "0 < n" "length bs = (n + 7) div 8" "length bs \<le> 4 * w" "p < 32 * w"
  shows "wbit (pad_words w (mask_bytes n bs)) p = (p < n \<and> bbit bs p)"
proof -
  have "wbit (pad_words w (mask_bytes n bs)) p = bbit (mask_bytes n bs @ replicate (4 * w - length bs) 0) p"
    unfolding pad_words_def using assms(3,4) by (simp add: wbit_le_words[where k = w])
  also have "\<dots> = (p < n \<and> bbit bs p)"
  proof (cases "p < 8 * length bs")
    case True
    then show ?thesis using assms(1,2) by (simp add: bbit_append bbit_mask_bytes)
  next
    case False
    then have "length bs \<le> p div 8" by (simp add: less_eq_div_iff_mult_less_eq mult.commute)
    moreover from this have "p div 8 - length bs < 4 * w - length bs" using assms(4) by (simp add: div_less_iff_less_mult diff_less_mono)
    ultimately have "\<not> bbit (mask_bytes n bs @ replicate (4 * w - length bs) 0) p" by (simp add: bbit_def nth_append)
    then show ?thesis using False bits_fit[of p n] assms(2) by auto
  qed
  finally show ?thesis .
qed

text \<open>Row i on the bits of the two buffers that RAND\_bytes filled.\<close>

definition raw_hash :: "nat \<Rightarrow> HmCommitLayout \<Rightarrow> byte list \<Rightarrow> byte list \<Rightarrow> nat \<Rightarrow> bool" where
  "raw_hash n L M r i = hash_bit n (pad_words (toeplitz_matrix_words L) (mask_bytes (toeplitz_matrix_bit_len L) M))
     (pad_words (l_words L) (mask_bytes (l_bits L) r)) (l_words L) i"

lemma raw_hash_bits:
  assumes L: "compute_sizes n = Some L" and M: "length M = toeplitz_matrix_len L" and r: "length r = opening_len L"
    and i: "i < n"
  shows "raw_hash n L M r i = xsum (\<lambda>k. bbit M (n - Suc i + k) \<and> k < l_bits L \<and> bbit r k) (32 * l_words L)"
  unfolding raw_hash_def hash_bit_def toeplitz_def
proof (intro xsum_cong refl)
  note d = compute_sizesD[OF L] and f = layout_fits[OF L]
  have pos: "0 < l_bits L" "0 < toeplitz_matrix_bit_len L" by (simp_all add: d(4,7))
  fix k assume k: "k < 32 * l_words L"
  have p: "n - Suc i + k < 32 * toeplitz_matrix_words L"
    by (rule diagonal_position[OF _ k]) (simp add: d(9))
  have "wbit (pad_words (toeplitz_matrix_words L) (mask_bytes (toeplitz_matrix_bit_len L) M)) (n - Suc i + k)
      = (n - Suc i + k < toeplitz_matrix_bit_len L \<and> bbit M (n - Suc i + k))"
    by (rule wbit_masked_words[OF pos(2) M[unfolded d(8)] _ p]) (use M f(2) in simp)
  moreover have "wbit (pad_words (l_words L) (mask_bytes (l_bits L) r)) k = (k < l_bits L \<and> bbit r k)"
    by (rule wbit_masked_words[OF pos(1) r[unfolded d(5)] _ k]) (use r f(1) in simp)
  moreover have "n - Suc i + k < toeplitz_matrix_bit_len L" if "k < l_bits L" using that i d(4,7) by simp
  ultimately show "(wbit (pad_words (toeplitz_matrix_words L) (mask_bytes (toeplitz_matrix_bit_len L) M)) (n - 1 - i + k)
      \<and> wbit (pad_words (l_words L) (mask_bytes (l_bits L) r)) k) = (bbit M (n - Suc i + k) \<and> k < l_bits L \<and> bbit r k)"
    by auto
qed

lemma bbit_xor:
  assumes "length A = w" "length D = w" "p < 8 * w"
  shows "bbit (map2 (XOR) A D) p = (bbit A p \<noteq> bbit D p)"
  using assms by (simp add: bbit_def bit_xor_iff less_mult_imp_div_less mult.commute)

text \<open>Two openings that differ after the masking collide under a 2 ^ n-th part of the matrices.\<close>

lemma raw_hash_pairs:
  assumes L: "compute_sizes n = Some L" and r: "length r = opening_len L" "length r' = opening_len L"
    and ne: "mask_bytes (l_bits L) r \<noteq> mask_bytes (l_bits L) r'"
  shows "card {M. length M = toeplitz_matrix_len L \<and> (\<forall>i<n. raw_hash n L M r i = raw_hash n L M r' i)} * 2 ^ n
    = card {M :: byte list. length M = toeplitz_matrix_len L}"
proof -
  note d = compute_sizesD[OF L] and f = layout_fits[OF L]
  let ?m = "32 * l_words L" and ?N = "toeplitz_matrix_len L"
  let ?c = "\<lambda>k. k < l_bits L \<and> bbit r k \<noteq> bbit r' k"
  let ?g = "\<lambda>M i. xsum (\<lambda>k. bbit M (n - Suc i + k) \<and> ?c k) ?m"
  have lb: "0 < l_bits L" "l_bits L \<le> ?m" using d(4) f(1) d(5) bits_fit[of "l_bits L - 1" "l_bits L"] by auto
  have in_M: "n - Suc i + k < 8 * ?N" if "i < n" "k < l_bits L" for i k
    using that d(4,7) unfolding d(8) by (intro bits_fit) simp
  have eq: "(\<forall>i<n. raw_hash n L M r i = raw_hash n L M r' i) \<longleftrightarrow> (\<forall>i<n. ?g M i = False)" if "length M = ?N" for M
  proof -
    have "?g M i = (raw_hash n L M r i \<noteq> raw_hash n L M r' i)" if "i < n" for i
    proof -
      have "?g M i = xsum (\<lambda>k. (bbit M (n - Suc i + k) \<and> k < l_bits L \<and> bbit r k)
          \<noteq> (bbit M (n - Suc i + k) \<and> k < l_bits L \<and> bbit r' k)) ?m"
        by (intro xsum_cong refl) auto
      also have "\<dots> = (raw_hash n L M r i \<noteq> raw_hash n L M r' i)"
        unfolding xsum_xor raw_hash_bits[OF L \<open>length M = ?N\<close> r(1) that] raw_hash_bits[OF L \<open>length M = ?N\<close> r(2) that] ..
      finally show ?thesis .
    qed
    then show ?thesis by auto
  qed
  obtain k where k: "k < ?m" "?c k"
  proof -
    have "\<exists>k<8 * opening_len L. bbit (mask_bytes (l_bits L) r) k \<noteq> bbit (mask_bytes (l_bits L) r') k"
      using ne bytes_eqI[of "mask_bytes (l_bits L) r" "mask_bytes (l_bits L) r'"] r by auto
    then have "\<exists>k. ?c k" using r lb(1) d(5) by (auto simp: bbit_mask_bytes)
    then show thesis using that lb(2) by (meson less_le_trans)
  qed
  have "card {M. length M = ?N \<and> (\<forall>i<n. ?g M i = False)} * 2 ^ n = card {M :: byte list. length M = ?N}"
  proof (rule linear_fibre)
    fix A D :: "byte list" and i assume A: "length A = ?N" "length D = ?N" and i: "i < n"
    have "?g (map2 (XOR) A D) i = xsum (\<lambda>k. (bbit A (n - Suc i + k) \<and> ?c k) \<noteq> (bbit D (n - Suc i + k) \<and> ?c k)) ?m"
      by (intro xsum_cong refl) (use bbit_xor[OF A in_M[OF i]] in auto)
    then show "?g (map2 (XOR) A D) i = (?g A i \<noteq> ?g D i)" by (simp only: xsum_xor)
  next
    fix h :: "nat \<Rightarrow> bool"
    show "\<exists>D. length D = ?N \<and> (\<forall>i<n. ?g D i = h i)"
    proof (rule last_set_bit[where c = ?c, OF k])
      fix K assume K: "K < ?m" "?c K" "\<And>k. K < k \<Longrightarrow> k < ?m \<Longrightarrow> \<not> ?c k"
      from diagonal_reaches[where c = ?c, OF K, of n "\<lambda>p. h (n - 1 - p)"] obtain q
        where q: "\<And>p. p < n \<Longrightarrow> xsum (\<lambda>k. q (p + k) \<and> ?c k) ?m = h (n - 1 - p)" by blast
      from bytes_of_bits obtain D where D: "length D = ?N" "\<And>p. p < 8 * ?N \<Longrightarrow> bbit D p = q p" by blast
      have "?g D i = h i" if i: "i < n" for i
      proof -
        have "?g D i = xsum (\<lambda>k. q (n - Suc i + k) \<and> ?c k) ?m"
          by (intro xsum_cong refl) (use D(2)[OF in_M[OF i]] in auto)
        also have "\<dots> = h (n - 1 - (n - Suc i))" using q[of "n - Suc i"] i by simp
        finally show ?thesis using i by simp
      qed
      with D(1) show ?thesis by blast
    qed
  qed
  moreover have "{M. length M = ?N \<and> (\<forall>i<n. raw_hash n L M r i = raw_hash n L M r' i)}
      = {M. length M = ?N \<and> (\<forall>i<n. ?g M i = False)}" using eq by blast
  ultimately show ?thesis by simp
qed

text \<open>The masking forgets at most the last byte.\<close>

lemma mask_mates:
  assumes "0 < n"
  shows "card {r' :: byte list. length r' = (n + 7) div 8 \<and> mask_bytes n r' = mask_bytes n r} \<le> 256"
proof -
  let ?X = "{r' :: byte list. length r' = (n + 7) div 8 \<and> mask_bytes n r' = mask_bytes n r}"
  let ?l = "(n + 7) div 8 - 1"
  have l: "?l < (n + 7) div 8" using assms by (simp add: div_greater_zero_iff)
  have "inj_on (\<lambda>r'. r' ! ?l) ?X"
  proof (rule inj_onI)
    fix a b assume a: "a \<in> ?X" and b: "b \<in> ?X" and e: "a ! ?l = b ! ?l"
    have "a ! j = b ! j" if "j < (n + 7) div 8" for j
    proof (cases "j = ?l")
      case False
      have "mask_bytes n a ! j = mask_bytes n b ! j" using a b by simp
      with False show ?thesis by (simp add: mask_bytes_def)
    qed (use e in simp)
    then show "a = b" using a b by (intro nth_equalityI) simp_all
  qed
  then have "card ?X \<le> card (UNIV :: byte set)" by (rule card_inj_on_le) auto
  then show ?thesis by (simp add: card_word)
qed

section \<open>What is published\<close>

text \<open>
  Creation of a context, export of its matrix and one commitment: rM and rB are
  what RAND\_bytes writes in the two calls.
\<close>

definition published_commit :: "(byte list \<Rightarrow> byte list option) \<Rightarrow> nat \<Rightarrow> heap \<Rightarrow> byte list \<Rightarrow> byte list \<times> byte list \<Rightarrow>
    (byte list \<times> byte list) option" where
  "published_commit sha n h m = (\<lambda>(rM, rB). case hm_context_create (\<lambda>_. Inr rM) n True h of
     Inr ((Some c, _), _) \<Rightarrow>
       (case (hm_context_export_matrix (Some c) (Some (replicate (toeplitz_matrix_len (layout c)) 0)),
              fst (commit_call sha (\<lambda>_. Inr rB) c m)) of
          (Inr M, Some (cm, _)) \<Rightarrow> Some (M, cm) | _ \<Rightarrow> None)
   | _ \<Rightarrow> None)"

text \<open>A context whose matrix holds the bytes rM; commitments keep it.\<close>

definition matrix_ctx :: "nat \<Rightarrow> HmCommitLayout \<Rightarrow> byte list \<Rightarrow> hm_context_t \<Rightarrow> bool" where
  "matrix_ctx n L rM c \<longleftrightarrow> valid_ctx c \<and> message_bit_len c = n \<and> layout c = L \<and>
     ctx_A c = pad_words (toeplitz_matrix_words L) (mask_bytes (toeplitz_matrix_bit_len L) rM)"

lemma create_result:
  assumes h: "\<forall>k. may_alloc h k" and L: "compute_sizes n = Some L" and M: "length rM = toeplitz_matrix_len L"
  obtains c h' where "hm_context_create (\<lambda>_. Inr rM) n True h = Inr ((Some c, 0), h')" "matrix_ctx n L rM c"
proof -
  note d = compute_sizesD[OF L] and f = layout_fits[OF L]
  let ?N = "toeplitz_matrix_bit_len L" and ?w = "toeplitz_matrix_words L"
  let ?M = "mask_bytes ?N rM"
  define c where "c = \<lparr>message_bit_len = n, layout = L, ctx_A = replicate ?w 0, ctx_r_words = replicate (l_words L) 0,
      ctx_block = Some (requests h), A_block = Some (Suc (requests h)), r_block = Some (Suc (Suc (requests h)))\<rparr>"
  have "\<exists>h'. context_allocate n True h = Inr ((Some c, 0), h')"
    using h L by (simp add: context_allocate_def malloc_def Let_def c_def)
  then obtain h' where a: "context_allocate n True h = Inr ((Some c, 0), h')" by blast
  have c: "layout c = L" "message_bit_len c = n" "ctx_A c = replicate ?w 0" "ctx_r_words c = replicate (l_words L) 0"
    by (simp_all add: c_def)
  have N: "0 < ?N" by (simp add: d(7))
  have can: "canonical ?N ?M" by (rule canonical_mask_bytes[OF N M[unfolded d(8)]])
  have "(?N + 7) div 8 \<le> 4 * ?w" using f(2) unfolding d(8) .
  note zero = holds_zero[OF this]
  have "(memcpy (le_bytes (ctx_A c)) rM)[toeplitz_matrix_len L - 1 :=
      memcpy (le_bytes (ctx_A c)) rM ! (toeplitz_matrix_len L - 1) AND last_byte_mask ?N] = memcpy (le_bytes (ctx_A c)) ?M"
    using holds_memcpy[OF zero M[unfolded d(8)]] holds_memcpy[OF zero, of ?M] mask_append[OF M[unfolded d(8)] N]
      M[unfolded d(8)] by (simp add: c d(8) del: One_nat_def)
  then have run: "hm_context_create (\<lambda>_. Inr rM) n True h = Inr ((Some (c\<lparr>ctx_A := le_words (memcpy (le_bytes (ctx_A c)) ?M)\<rparr>), 0), h')"
    using a by (simp add: hm_context_create_def Let_def c(1) del: One_nat_def)
  have A: "le_words (memcpy (le_bytes (ctx_A c)) ?M) = pad_words ?w ?M"
    using holds_overwrite(2)[OF zero can] by (simp add: c(3))
  have "holds (pad_words ?w ?M) ?w ?N ?M" using can f(2) M by (simp add: holds_def)
  then have "valid_ctx (c\<lparr>ctx_A := le_words (memcpy (le_bytes (ctx_A c)) ?M)\<rparr>)"
    using c L A by (intro valid_new_context[of n]) auto
  with that[OF run] A show ?thesis by (simp add: c matrix_ctx_def)
qed

lemma export_value:
  assumes "matrix_ctx n L rM c" "compute_sizes n = Some L" "length rM = toeplitz_matrix_len L"
  shows "hm_context_export_matrix (Some c) (Some (replicate (toeplitz_matrix_len (layout c)) 0))
    = Inr (mask_bytes (toeplitz_matrix_bit_len L) rM)"
  using assms(1,3) layout_fits(2)[OF assms(2)] by (simp add: hm_context_export_matrix_def matrix_ctx_def memcpy_def)

text \<open>A commitment is a function of the matrix bytes, the digest and the masked bits.\<close>

lemma commit_value:
  assumes c: "matrix_ctx n L rM c" and L: "compute_sizes n = Some L" and m: "message_byte_len L \<le> length m"
    and rB: "length rB = opening_len L" and sha: "sha (mask_bytes (l_bits L) rB) = Some d" "length d = 32"
    and t: "length t = message_byte_len L" "\<And>i. i < 8 * message_byte_len L \<Longrightarrow> bbit t i = (i < n \<and> (raw_hash n L rM rB i \<noteq> bbit m i))"
  obtains op c' where "commit_call sha (\<lambda>_. Inr rB) c m = (Some (t @ d, op), c')" "matrix_ctx n L rM c'"
proof -
  note f = layout_fits[OF L]
  have v: "valid_ctx c" and cs: "message_bit_len c = n" "layout c = L"
    "ctx_A c = pad_words (toeplitz_matrix_words L) (mask_bytes (toeplitz_matrix_bit_len L) rM)"
    using c by (simp_all add: matrix_ctx_def)
  let ?r = "mask_bytes (l_bits L) rB"
  show thesis
  proof (rule hm_commit_run[where rand = "\<lambda>_. Inr rB" and sha = sha and c = c and m = m and bytes = rB and dg = d
        and cm = "replicate (commitment_len L) 0" and op = "replicate (opening_len L) 0", OF v, unfolded cs(1,2)])
    fix cm' op' c'
    assume run: "hm_commit sha (\<lambda>_. Inr rB) (Some c) (Some m) (Some (replicate (commitment_len L) 0))
        (Some (replicate (opening_len L) 0)) = (Inr (cm', op'), Some c')"
      and c': "valid_ctx c'" "same_matrix c c'"
      and len: "length cm' = length (replicate (commitment_len L) 0)" "length op' = length (replicate (opening_len L) 0)"
      and op: "take (opening_len L) op' = ?r"
      and rel: "hm_relation sha n (ctx_A c) m (take (commitment_len L) cm') (take (opening_len L) op')"
    have cm: "cm' = take (message_byte_len L) cm' @ d" "canonical n (take (message_byte_len L) cm')"
      and bits: "\<And>i. i < n \<Longrightarrow> bbit cm' i = (raw_hash n L rM rB i \<noteq> bbit m i)"
      using rel len(1) sha(1) L unfolding op by (auto simp: hm_relation_def raw_hash_def cs(3))
    have "take (message_byte_len L) cm' = t"
    proof (rule bytes_eqI)
      show l: "length (take (message_byte_len L) cm') = length t" using len(1) f(7) t(1) by simp
      fix i assume "i < 8 * length (take (message_byte_len L) cm')"
      then have i: "i < 8 * message_byte_len L" using l t(1) by simp
      have "bbit (take (message_byte_len L) cm') i = (i < n \<and> bbit cm' i)"
      proof (cases "i < n")
        case True
        then show ?thesis using i by (simp add: bbit_take)
      next
        case False
        then show ?thesis using cm(2) i l t(1) by (simp add: canonical_def)
      qed
      then show "bbit (take (message_byte_len L) cm') i = bbit t i" using t(2)[OF i] bits[of i] by auto
    qed
    with cm(1) have cm': "cm' = t @ d" by simp
    have "matrix_ctx n L rM c'"
      using c' same_matrix_layout[OF v c'] cs by (simp add: matrix_ctx_def same_matrix_def)
    with that[of op' c'] show thesis by (simp add: commit_call_def cs run cm')
  qed (use m rB sha in simp_all)
qed

text \<open>Bytes for the masked bits, the digests, and the bound for one commitment.\<close>

definition byte_strings :: "nat \<Rightarrow> byte list set" where
  "byte_strings k = {bs. length bs = k}"

lemma byte_strings_finite: "finite (byte_strings k)" "card (byte_strings k) = 2 ^ (8 * k)"
  using finite_lists_length_eq[of "UNIV :: byte set" k] card_word_lists[where 'w = 8 and w = k] by (simp_all add: byte_strings_def)

lemma card_canonical: "finite {t. canonical n t} \<and> card {t. canonical n t} = 2 ^ n"
proof -
  let ?B = "{bs :: bool list. length bs = n}"
  have "\<forall>bs :: bool list. \<exists>t. length t = (n + 7) div 8 \<and> (\<forall>p<8 * ((n + 7) div 8). bbit t p = (p < n \<and> bs ! p))"
    by (intro allI bytes_of_bits)
  then obtain enc :: "bool list \<Rightarrow> byte list" where enc: "\<And>bs. length (enc bs) = (n + 7) div 8"
    "\<And>bs p. p < 8 * ((n + 7) div 8) \<Longrightarrow> bbit (enc bs) p = (p < n \<and> bs ! p)" by metis
  have "bij_betw enc ?B {t. canonical n t}"
  proof (rule bij_betw_byWitness[where f' = "\<lambda>t. map (bbit t) [0..<n]"])
    show "\<forall>bs\<in>?B. map (bbit (enc bs)) [0..<n] = bs"
      using enc(2) bits_fit by (auto intro!: nth_equalityI)
    show "\<forall>t\<in>{t. canonical n t}. enc (map (bbit t) [0..<n]) = t"
      by (auto simp: canonical_def enc intro!: bytes_eqI)
  qed (auto simp: canonical_def enc)
  then have "finite {t. canonical n t} = finite ?B" "card {t. canonical n t} = card ?B"
    by (simp_all add: bij_betw_finite bij_betw_same_card)
  then show ?thesis
    using finite_lists_length_eq[of "UNIV :: bool set" n] card_lists_length_eq[of "UNIV :: bool set" n] by simp
qed

text \<open>The masked message as bytes is a pairwise hash of what RAND\_bytes returned.\<close>

lemma masked_message_hash:
  assumes L: "compute_sizes n = Some L"
    and b: "\<And>M r. length (b M r) = message_byte_len L"
    "\<And>M r i. i < 8 * message_byte_len L \<Longrightarrow> bbit (b M r) i = (i < n \<and> (raw_hash n L M r i \<noteq> bbit m i))"
  shows "pairwise_hash {M. length M = toeplitz_matrix_len L} {r. length r = opening_len L} {t. canonical n t} b
     (mask_bytes (l_bits L)) 256"
proof -
  note d = compute_sizesD[OF L]
  have fin: "finite {M :: byte list. length M = k}" for k using finite_lists_length_eq[of "UNIV :: byte set" k] by simp
  have can: "canonical n (b M r)" for M r using b d(3) by (simp add: canonical_def)
  have eq: "b M r = b M r' \<longleftrightarrow> (\<forall>i<n. raw_hash n L M r i = raw_hash n L M r' i)" for M r r'
  proof
    assume e: "b M r = b M r'"
    show "\<forall>i<n. raw_hash n L M r i = raw_hash n L M r' i"
    proof (intro allI impI)
      fix i assume "i < n"
      then have i: "i < 8 * message_byte_len L" unfolding d(3) by (rule bits_fit)
      show "raw_hash n L M r i = raw_hash n L M r' i" using arg_cong[OF e, of "\<lambda>t. bbit t i"] b(2)[OF i] \<open>i < n\<close> by auto
    qed
  qed (auto intro!: bytes_eqI simp: b)
  have mates: "card {r' \<in> {r. length r = opening_len L}. mask_bytes (l_bits L) r' = mask_bytes (l_bits L) r} \<le> 256" for r
    using mask_mates[of "l_bits L" r] d(4) by (simp add: d(5))
  have pairs: "card {M \<in> {M. length M = toeplitz_matrix_len L}. b M r = b M r'} * card {t. canonical n t}
      = card {M :: byte list. length M = toeplitz_matrix_len L}"
    if "length r = opening_len L" "length r' = opening_len L" "mask_bytes (l_bits L) r \<noteq> mask_bytes (l_bits L) r'" for r r'
    using raw_hash_pairs[OF L that] by (simp add: eq card_canonical)
  show ?thesis
    unfolding pairwise_hash_def using fin card_canonical[of n] can mates pairs by (auto simp: image_subset_iff)
qed

lemma hiding_bound:
  assumes "n + 1028 \<le> k"
  shows "2 * sqrt (real (2 ^ 256) * real (2 ^ n) * real 256 * real (2 ^ k)) \<le> 2 ^ k / 2 ^ 381"
proof -
  have "(2::real) ^ 256 * 2 ^ n * 256 * 2 ^ k * 2 ^ 764 = 2 ^ (n + 1028) * 2 ^ k" by (simp add: power_add)
  also have "\<dots> \<le> 2 ^ k * 2 ^ k" using assms by (intro mult_right_mono power_increasing) simp_all
  finally have "2 ^ 256 * 2 ^ n * 256 * 2 ^ k \<le> ((2::real) ^ k / 2 ^ 382)\<^sup>2"
    by (simp add: power2_eq_square field_simps)
  then have "sqrt (2 ^ 256 * 2 ^ n * 256 * 2 ^ k) \<le> (2::real) ^ k / 2 ^ 382" by (rule real_le_lsqrt[rotated]) simp
  then show ?thesis by simp
qed

lemma hiding_setup:
  fixes sha :: "byte list \<Rightarrow> byte list option"
  assumes L: "compute_sizes n = Some L" and sha: "\<forall>x. \<exists>d. sha x = Some d \<and> length d = 32"
  obtains b dg where "\<And>m M r. length (b m M r) = message_byte_len L"
    "\<And>m M r i. i < 8 * message_byte_len L \<Longrightarrow> bbit (b m M r) i = (i < n \<and> (raw_hash n L M r i \<noteq> bbit m i))"
    "\<And>r. sha (mask_bytes (l_bits L) r) = Some (dg r)" "\<And>r. length (dg r) = 32"
    "\<And>m m'. distance (byte_strings (toeplitz_matrix_len L) \<times> byte_strings (opening_len L))
       (\<lambda>(M, r). (M, dg r, b m M r)) (\<lambda>(M, r). (M, dg r, b m' M r))
      \<le> card (byte_strings (toeplitz_matrix_len L)) * card (byte_strings (opening_len L)) / 2 ^ 381"
proof -
  note d = compute_sizesD[OF L]
  let ?K = "byte_strings (toeplitz_matrix_len L)" and ?R = "byte_strings (opening_len L)"
  let ?T = "{t. canonical n t}" and ?D = "byte_strings 32"
  have "\<forall>m M r. \<exists>t. length t = message_byte_len L \<and>
      (\<forall>i<8 * message_byte_len L. bbit t i = (i < n \<and> (raw_hash n L M r i \<noteq> bbit m i)))"
    by (intro allI bytes_of_bits)
  then obtain b where b: "\<And>m M r. length (b m M r) = message_byte_len L"
    "\<And>m M r i. i < 8 * message_byte_len L \<Longrightarrow> bbit (b m M r) i = (i < n \<and> (raw_hash n L M r i \<noteq> bbit m i))" by metis
  define dg where "dg r = the (sha (mask_bytes (l_bits L) r))" for r
  have dg: "sha (mask_bytes (l_bits L) r) = Some (dg r)" "length (dg r) = 32" for r
    using sha[rule_format, of "mask_bytes (l_bits L) r"] by (auto simp: dg_def)
  have T: "?T \<noteq> {}" using card_canonical[of n] by (metis card.empty power_not_zero zero_neq_numeral)
  have lo: "n + 1028 \<le> 8 * opening_len L"
    using bits_fit[of "l_bits L - 1" "l_bits L"] d(4) by (simp add: d(5))
  have hash: "pairwise_hash ?K ?R ?T (b m) (mask_bytes (l_bits L)) 256" for m
    unfolding byte_strings_def by (rule masked_message_hash[OF L b])
  have bound: "distance (?K \<times> ?R) (\<lambda>(M, r). (M, dg r, b m M r)) (\<lambda>(M, r). (M, dg r, b m' M r)) \<le> card ?K * card ?R / 2 ^ 381"
    for m m'
  proof -
    have "distance (?K \<times> ?R) (\<lambda>(M, r). (M, dg r, b m M r)) (\<lambda>(M, r). (M, dg r, b m' M r))
        \<le> 2 * (card ?K * sqrt (real (card ?D) * card ?T * real 256 * card ?R))"
      by (rule leftover_hash[OF hash[of m] hash[of m'] T]) (use dg byte_strings_finite in \<open>auto simp: byte_strings_def\<close>)
    also have "\<dots> = card ?K * (2 * sqrt (real (2 ^ 256) * real (2 ^ n) * real 256 * real (2 ^ (8 * opening_len L))))"
      using card_canonical[of n] by (simp add: byte_strings_finite)
    also have "\<dots> \<le> card ?K * (2 ^ (8 * opening_len L) / 2 ^ 381)"
      by (intro mult_left_mono hiding_bound lo) simp
    also have "\<dots> = card ?K * card ?R / 2 ^ 381" by (simp add: byte_strings_finite)
    finally show ?thesis .
  qed
  show thesis by (rule that[OF b dg bound])
qed

text \<open>Batches under one matrix, as examples/commit\_batch.c publishes them: rs are the random bytes of
  the commitments.\<close>

definition published_batch :: "(byte list \<Rightarrow> byte list option) \<Rightarrow> nat \<Rightarrow> heap \<Rightarrow> byte list list \<Rightarrow>
    byte list \<times> byte list list \<Rightarrow> (byte list \<times> byte list list) option" where
  "published_batch sha n h ms = (\<lambda>(rM, rs). case hm_context_create (\<lambda>_. Inr rM) n True h of
     Inr ((Some c, _), _) \<Rightarrow>
       (case (hm_context_export_matrix (Some c) (Some (replicate (toeplitz_matrix_len (layout c)) 0)),
              fst (commit_batch (commit_call sha) (map (\<lambda>r _. Inr r) rs) c ms)) of
          (Inr M, Some ps) \<Rightarrow> Some (M, map fst ps) | _ \<Rightarrow> None)
   | _ \<Rightarrow> None)"

lemma batch_value:
  assumes L: "compute_sizes n = Some L"
    and b: "\<And>m M r. length (b m M r) = message_byte_len L"
    "\<And>m M r i. i < 8 * message_byte_len L \<Longrightarrow> bbit (b m M r) i = (i < n \<and> (raw_hash n L M r i \<noteq> bbit m i))"
    and dg: "\<And>r. sha (mask_bytes (l_bits L) r) = Some (dg r)" "\<And>r. length (dg r) = 32"
    and "length rs = length ms" "\<forall>r\<in>set rs. length r = opening_len L" "\<forall>m\<in>set ms. message_byte_len L \<le> length m"
    and "matrix_ctx n L rM c"
  shows "\<exists>ps c'. commit_batch (commit_call sha) (map (\<lambda>r _. Inr r) rs) c ms = (Some ps, c') \<and>
     map fst ps = map (\<lambda>(d, t). t @ d) (observe b dg rM ms rs)"
  using assms(6-)
proof (induction rs ms arbitrary: c rule: list_induct2)
  case Nil
  then show ?case by (simp add: observe_def)
next
  case (Cons r rs m ms)
  have m: "message_byte_len L \<le> length m" and r: "length r = opening_len L" using Cons.prems by simp_all
  obtain op c1 where c: "commit_call sha (\<lambda>_. Inr r) c m = (Some (b m rM r @ dg r, op), c1)" "matrix_ctx n L rM c1"
    by (rule commit_value[where t = "b m rM r" and sha = sha, OF Cons.prems(3) L m r dg(1)[of r] dg(2)[of r] b(1)]) (use b(2) in auto)
  from Cons.IH[OF _ _ c(2)] Cons.prems(1,2) obtain ps c' where
    "commit_batch (commit_call sha) (map (\<lambda>r _. Inr r) rs) c1 ms = (Some ps, c')"
    "map fst ps = map (\<lambda>(d, t). t @ d) (observe b dg rM ms rs)" by auto
  with c(1) show ?case by (auto simp: observe_def)
qed

section \<open>Properties\<close>

text \<open>C21: Statistical hiding of the plain scheme.  Let the bytes that RAND_bytes returns to
  hm_context_create and to hm_commit be uniform, no allocation fail and SHA-256 return 32 bytes.
  Then matrix and commitment are published for every outcome, and the counts of the outcomes
  that publish each pair differ between two messages m and m', summed over all pairs, by at most
  the 2^-381-th part of all outcomes: the two distributions have statistical distance at most
  2^-382, whatever function SHA-256 is.\<close>

theorem hm_plain_hiding:
  assumes h: "\<forall>k. may_alloc h k" and L: "compute_sizes n = Some L" and sha: "\<forall>x. \<exists>d. sha x = Some d \<and> length d = 32"
    and m: "message_byte_len L \<le> length m" "message_byte_len L \<le> length m'"
    and X: "X = {M :: byte list. length M = toeplitz_matrix_len L} \<times> {r :: byte list. length r = opening_len L}"
  shows "(\<forall>x\<in>X. published_commit sha n h m x \<noteq> None) \<and>
     distance X (published_commit sha n h m) (published_commit sha n h m') \<le> card X / 2 ^ 381"
proof -
  let ?K = "byte_strings (toeplitz_matrix_len L)" and ?R = "byte_strings (opening_len L)"
  have X': "X = ?K \<times> ?R" by (simp add: X byte_strings_def)
  show ?thesis
  proof (rule hiding_setup[OF L sha])
    fix b dg
    assume b: "\<And>m M r. length (b m M r) = message_byte_len L"
      "\<And>m M r i. i < 8 * message_byte_len L \<Longrightarrow> bbit (b m M r) i = (i < n \<and> (raw_hash n L M r i \<noteq> bbit m i))"
      and dg: "\<And>r. sha (mask_bytes (l_bits L) r) = Some (dg r)" "\<And>r. length (dg r) = 32"
      and bound: "\<And>m m'. distance (?K \<times> ?R) (\<lambda>(M, r). (M, dg r, b m M r)) (\<lambda>(M, r). (M, dg r, b m' M r))
        \<le> card ?K * card ?R / 2 ^ 381"
    let ?f = "\<lambda>m (M, r). (M, dg r, b m M r)"
    let ?p = "\<lambda>(M, d, t). Some (mask_bytes (toeplitz_matrix_bit_len L) M, t @ d)"
    have pub: "published_commit sha n h u x = ?p (?f u x)" if x: "x \<in> X" and u: "message_byte_len L \<le> length u" for u x
    proof -
      obtain M r where x: "x = (M, r)" "length M = toeplitz_matrix_len L" "length r = opening_len L"
        using x by (auto simp: X)
      obtain c h' where c: "hm_context_create (\<lambda>_. Inr M) n True h = Inr ((Some c, 0), h')" "matrix_ctx n L M c"
        by (rule create_result[OF h L x(2)])
      obtain op c' where "commit_call sha (\<lambda>_. Inr r) c u = (Some (b u M r @ dg r, op), c')"
        by (rule commit_value[where t = "b u M r" and sha = sha, OF c(2) L u x(3) dg(1)[of r] dg(2)[of r] b(1)]) (use b(2) in auto)
      then show ?thesis by (simp add: published_commit_def x(1) c(1) export_value[OF c(2) L x(2)])
    qed
    have "distance X (published_commit sha n h m) (published_commit sha n h m') = distance X (\<lambda>x. ?p (?f m x)) (\<lambda>x. ?p (?f m' x))"
      by (rule distance_cong) (erule pub[OF _ m(1)], erule pub[OF _ m(2)])
    also have "\<dots> \<le> distance X (?f m) (?f m')" by (rule distance_post) (simp add: X' byte_strings_finite)
    also have "\<dots> \<le> card X / 2 ^ 381" using bound[of m m'] by (simp add: X' card_cartesian_product)
    finally have "distance X (published_commit sha n h m) (published_commit sha n h m') \<le> card X / 2 ^ 381" .
    moreover have "\<forall>x\<in>X. published_commit sha n h m x \<noteq> None" using pub[OF _ m(1)] by (auto split: prod.splits)
    ultimately show ?thesis by blast
  qed
qed

lemma hm_plain_hiding_witness:
  "published_commit demo_sha 2 demo_heap [1] (replicate 130 0, replicate 129 0) \<noteq> None \<and>
   distance ({M :: byte list. length M = 130} \<times> {r :: byte list. length r = 129})
     (published_commit demo_sha 2 demo_heap [1]) (published_commit demo_sha 2 demo_heap [2])
   \<le> card ({M :: byte list. length M = 130} \<times> {r :: byte list. length r = 129}) / 2 ^ 381"
proof -
  let ?X = "{M :: byte list. length M = 130} \<times> {r :: byte list. length r = 129}"
  have "?X = {M. length M = toeplitz_matrix_len (layout demo_ctx)} \<times> {r. length r = opening_len (layout demo_ctx)}"
    using compute_sizesD(7,8)[OF demo_sizes(1)] demo_sizes(3) by simp
  from hm_plain_hiding[OF _ demo_sizes(1) _ _ _ this, of demo_heap demo_sha "[1]" "[2]"]
  have "(\<forall>x\<in>?X. published_commit demo_sha 2 demo_heap [1] x \<noteq> None) \<and>
      distance ?X (published_commit demo_sha 2 demo_heap [1]) (published_commit demo_sha 2 demo_heap [2]) \<le> card ?X / 2 ^ 381"
    by (simp only: demo_sizes(2)) (simp add: demo_heap_def demo_sha_def min_def)
  moreover have "(replicate 130 0, replicate 129 0) \<in> ?X" by simp
  ultimately show ?thesis by blast
qed

text \<open>C22: Hiding of a whole batch under one published matrix.  For random bytes as in a run of
  hm_context_create and one hm_commit per message, every outcome publishes the matrix and all
  commitments, and the counts of the outcomes that publish each value differ between two lists of
  messages by at most k times the 2^-381-th part of all outcomes, where k is the number of
  messages: reusing the context costs one summand per commitment.\<close>

theorem hm_batch_hiding:
  assumes h: "\<forall>k. may_alloc h k" and L: "compute_sizes n = Some L" and sha: "\<forall>x. \<exists>d. sha x = Some d \<and> length d = 32"
    and m: "length ms = length ms'" "\<forall>m\<in>set ms \<union> set ms'. message_byte_len L \<le> length m"
    and X: "X = {M :: byte list. length M = toeplitz_matrix_len L}
      \<times> {rs :: byte list list. length rs = length ms \<and> (\<forall>r\<in>set rs. length r = opening_len L)}"
  shows "(\<forall>x\<in>X. published_batch sha n h ms x \<noteq> None) \<and>
     distance X (published_batch sha n h ms) (published_batch sha n h ms') \<le> length ms * (card X / 2 ^ 381)"
proof -
  let ?K = "byte_strings (toeplitz_matrix_len L)" and ?R = "byte_strings (opening_len L)"
  have X': "X = ?K \<times> tuples ?R (length ms)" by (auto simp: X byte_strings_def tuples_def)
  have fin: "finite ?K" "finite ?R" by (simp_all add: byte_strings_finite)
  show ?thesis
  proof (rule hiding_setup[OF L sha])
    fix b dg
    assume b: "\<And>m M r. length (b m M r) = message_byte_len L"
      "\<And>m M r i. i < 8 * message_byte_len L \<Longrightarrow> bbit (b m M r) i = (i < n \<and> (raw_hash n L M r i \<noteq> bbit m i))"
      and dg: "\<And>r. sha (mask_bytes (l_bits L) r) = Some (dg r)" "\<And>r. length (dg r) = 32"
      and bound: "\<And>m m'. distance (?K \<times> ?R) (\<lambda>(M, r). (M, dg r, b m M r)) (\<lambda>(M, r). (M, dg r, b m' M r))
        \<le> card ?K * card ?R / 2 ^ 381"
    let ?f = "\<lambda>ms (M, rs). (M, observe b dg M ms rs)"
    let ?p = "\<lambda>(M, os). Some (mask_bytes (toeplitz_matrix_bit_len L) M, map (\<lambda>(d, t). t @ d) os)"
    have pub: "published_batch sha n h us x = ?p (?f us x)"
      if x: "x \<in> X" and u: "length us = length ms" "\<forall>m\<in>set us. message_byte_len L \<le> length m" for us x
    proof -
      obtain M rs where x: "x = (M, rs)" "length M = toeplitz_matrix_len L" "length rs = length us" "\<forall>r\<in>set rs. length r = opening_len L"
        using x u(1) by (auto simp: X)
      obtain c h' where c: "hm_context_create (\<lambda>_. Inr M) n True h = Inr ((Some c, 0), h')" "matrix_ctx n L M c"
        by (rule create_result[OF h L x(2)])
      obtain ps c' where "commit_batch (commit_call sha) (map (\<lambda>r _. Inr r) rs) c us = (Some ps, c')"
        "map fst ps = map (\<lambda>(d, t). t @ d) (observe b dg M us rs)"
        using batch_value[where b = b and dg = dg, OF L b dg x(3,4) u(2) c(2)] by blast
      then show ?thesis by (simp add: published_batch_def x(1) c(1) export_value[OF c(2) L x(2)])
    qed
    have "distance X (published_batch sha n h ms) (published_batch sha n h ms') = distance X (\<lambda>x. ?p (?f ms x)) (\<lambda>x. ?p (?f ms' x))"
      by (rule distance_cong) (erule pub; use m in auto)+
    also have "\<dots> \<le> distance X (?f ms) (?f ms')" by (rule distance_post) (simp add: X' fin tuples_finite)
    finally have le: "distance X (published_batch sha n h ms) (published_batch sha n h ms') \<le> distance X (?f ms) (?f ms')" .
    have "card ?R * distance X (?f ms) (?f ms') \<le> length ms * (card ?R ^ length ms * (card ?K * card ?R / 2 ^ 381))"
      unfolding X' by (rule hybrid[where A = UNIV, OF fin bound m(1)]) simp_all
    also have "\<dots> = card ?R * (length ms * (card X / 2 ^ 381))"
      by (simp add: X' card_cartesian_product card_tuples[OF fin(2)])
    finally have "distance X (?f ms) (?f ms') \<le> length ms * (card X / 2 ^ 381)"
      by (simp add: byte_strings_finite)
    moreover have "\<forall>x\<in>X. published_batch sha n h ms x \<noteq> None" using pub[of _ ms] m(2) by (auto split: prod.splits)
    ultimately show ?thesis using le by linarith
  qed
qed

lemma hm_batch_hiding_witness:
  "distance ({M :: byte list. length M = 130} \<times> {rs :: byte list list. length rs = 2 \<and> (\<forall>r\<in>set rs. length r = 129)})
     (published_batch demo_sha 2 demo_heap [[1], [2]]) (published_batch demo_sha 2 demo_heap [[2], [3]])
   \<le> 2 * (card ({M :: byte list. length M = 130} \<times> {rs :: byte list list. length rs = 2 \<and> (\<forall>r\<in>set rs. length r = 129)}) / 2 ^ 381)"
proof -
  let ?X = "{M :: byte list. length M = 130} \<times> {rs :: byte list list. length rs = 2 \<and> (\<forall>r\<in>set rs. length r = 129)}"
  have "?X = {M. length M = toeplitz_matrix_len (layout demo_ctx)}
      \<times> {rs. length rs = length [[1 :: byte], [2]] \<and> (\<forall>r\<in>set rs. length r = opening_len (layout demo_ctx))}"
    using compute_sizesD(7,8)[OF demo_sizes(1)] demo_sizes(3) by (simp add: numeral_2_eq_2)
  from hm_batch_hiding[OF _ demo_sizes(1) _ _ _ this, of demo_heap demo_sha "[[2], [3]]"] show ?thesis
    by (simp add: demo_heap_def demo_sha_def min_def demo_sizes(2))
qed

end
