(* ===== verification/Spec2Isabelle.thy ===== *)
theory Spec2Isabelle
  imports Example_Batch Example_Bit Carry_Forgery MPC_HM_Privacy HM_Hiding
begin

text \<open>
  A verification of zk-hm: Halevi-Micali commitments based on SHA-256, and a
  ZKBoo proof that a published commitment to a bit can be opened.

  \<^bold>\<open>The program.\<close>  The plain library (src/hm\_plain.c over src/universal\_hash.c)
  commits to bit strings: a commitment is (b, SHA-256(r)), an opening is the
  random vector r, and b is the exclusive or of the message and a Toeplitz hash
  of r.  The zero-knowledge library (src/hm\_zk.c) commits to one bit and writes
  a proof file of 136 rounds.  In a round the prover shares r and the bit among
  three parties (src/mpc\_core\_funcs.h), draws a random tape per party
  (src/prg.c), evaluates SHA-256 and the hash on the shares
  (src/mpc\_sha256\_prover.c, src/mpc\_universal\_hash.c with the gates of
  src/mpc\_arithmetic.c), hashes the three views, derives a challenge from the
  hashes (src/random\_oracle.c) and opens two views.  The verifier reads the
  record (src/hm\_zk\_io.c), recomputes the two opened parties
  (src/mpc\_sha256\_verifier.c) and compares.  Both sides run the rounds in an
  OpenMP region, each thread with the buffers of src/thread\_state.c.

  \<^bold>\<open>The theories.\<close>  From the bottom up:

  \<^item> HM\_Prelude: machine types, small arrays, the state passing programs with
    faults in which fallible C is written, and the lemmas on words and lists.
  \<^item> HM\_Shared: src/hm\_parameters.h, src/shared.h (parameters, structs, RVec).
  \<^item> HM\_Heap: the allocator, and src/hm\_buffer.c over it.  The relation owns
    says which blocks a list of pointers holds, and is the invariant of
    everything that allocates.
  \<^item> Universal\_Hash: src/toeplitz\_internal.h, src/universal\_hash.c;
    Universal\_Hash\_Count: the masked message is uniform; HM\_Plain:
    src/hm\_plain.c; HM\_Plain\_Correct: what its operations do on every branch;
    HM\_Scheme: the contract of include/hm\_plain.h as the locale
    commitment\_scheme, interpreted on the code, with its client, the loops of
    examples/commit\_batch.c; Example\_Batch: that example as a whole program, in
    C and in C++.  Leftover\_Hash: distances of random variables by counting;
    HM\_Hiding: a published matrix and the commitments made under it, one or a
    batch, hide the messages.
  \<^item> MPC\_Tape, MPC\_Arith: tapes, counters, views and the gates.  The locale
    mpc\_gate is the contract between a gate and the circuits; it is interpreted
    for AND and for ADD.  The judgement honest composes gates of the prover with
    those of the three verifiers, extracts composes what three accepting
    verifiers imply.
  \<^item> SHA256\_Spec: the standard's SHA-256, the reference; MPC\_SHA256\_Prover,
    MPC\_SHA256\_Verifier: the two circuits; MPC\_SHA256\_Correct and
    MPC\_SHA256\_Sound: completeness and soundness of the circuits.
  \<^item> PRG, Random\_Oracle, MPC\_Core\_Funcs, MPC\_UHash: tapes, hashes and the
    challenge, sharing and opening, the hash on shares.
  \<^item> MPC\_HM: src/mpc\_halevi\_micali.c, one round; MPC\_Verify\_Safe: the verifier
    of a round on an arbitrary record.
  \<^item> MPC\_Privacy: the judgement hides, which relates a program of the prover with
    itself on other secrets through a bijection of the words that the hidden
    party draws; the locale private\_gate extends mpc\_gate by a masked
    publication and is interpreted for AND and for ADD.  MPC\_HM\_Privacy: the
    circuit, the sharing and a whole round with its simulator.
  \<^item> ZK\_IO: the byte layout of commitment and proof file; Thread\_State: the
    buffers of a thread.
  \<^item> Parallel\_Rounds: the OpenMP region as a step relation on a team of threads.
    The locale parallel\_rounds is the contract of a round; inside it are the
    invariant of the region, its result, its progress and its refinement of the
    serial loop.  The heap is part of the team: a thread allocates its state when it
    starts and releases it behind the barrier of the loop.  The locale region\_memory
    is the contract of these allocations; inside it, that the team owns
    its blocks in every reachable state and has freed them at the end.  Both are
    interpreted for the prover and for the verifier.
  \<^item> HM\_ZK: src/hm\_zk.c, with the block of the shared digest context and
    the states of the threads on the heap.  hm\_bit\_commit and hm\_bit\_verify\_on are the
    runs that return, hm\_bit\_commit\_stops and hm\_bit\_verify\_stops those in which
    the process ends inside the function; ZK\_Verifier: what hm\_bit\_verify decides; ZK\_Protocol:
    hm\_bit\_commit followed by hm\_bit\_verify; Example\_Bit: examples/bit\_commit.c
    and examples/bit\_commit.cpp.
  \<^item> Carry\_Forgery: an adversary against the verifier of src/hm\_zk.c.

  \<^bold>\<open>What is shown.\<close>  Plain scheme: the sizes stay far below a wrap-around; commit and verify
  meet the bit-level relation and reject everything else, error codes included;
  batches round trip over an exported matrix; two openings of one commitment
  with different messages are a collision of SHA-256; contexts
  are neither leaked nor freed twice, whatever allocation fails;
  over a random matrix the masked message is uniform; over all results of
  RAND\_bytes, matrix and commitment have statistical distance at most 2 ^ -382
  for any two messages, whatever function SHA-256 is, and a batch of k commitments
  under one matrix at most k times 2 ^ -382.
  Zero-knowledge scheme: the prover's circuit computes SHA-256 and all three
  challenges are answered correctly; for each challenge, what a round opens is
  distributed as the output of a simulator that knows only the public
  commitment; three accepted answers to one commitment
  yield an opening, a collision, or an addition with an injected carry, and
  Carry\_Forgery shows that the third case is real; every record, however
  malformed, is read and verified inside its buffers; every run of the parallel
  region is short, and decides the same as the rounds taken one after the other,
  unless these run into a challenge loop that never ends;
  both functions free what they allocate for a region, and stop the process only
  for lack of memory;
  a proof written by hm\_bit\_commit has one record per round and nothing else,
  and is accepted by hm\_bit\_verify under every scheduling; the rounds are not bound to their positions, so one record can be
  repeated.

  \<^bold>\<open>Parameters.\<close>  OpenSSL is not part of the repository.  Its SHA-256 is a function
  from messages to digests (in hm\_plain.c one that may fail), the hypothesis
  computes\_sha256 says that it is the function of SHA256\_Spec; AES-128-CTR is a
  function from keys and positions to key stream bytes; the bytes of RAND\_bytes
  are arguments.  Its failure, where the code looks at it, is None in the
  zero-knowledge part; in hm\_plain.c, which hands it the scratch buffer of a
  context, a failure comes with the bytes that it leaves in the buffer.
  The results of pread and pwrite, which allocation fails, whether fopen
  succeeds, and the contents of memory that the code does not initialise are
  arguments as well, so that the theorems hold for all of them.

  \<^bold>\<open>Loops and bounds.\<close>  Counted loops are folds over their index range.  The loop of
  the tapes is a function with a measure.  The challenge loop of H3 has no
  bound in the code and is a partial function: None is a run that never ends,
  H3\_correct says exactly when.  The parallel region is a relation without
  fuel; its runs have at most n + 272 steps for n threads (one per thread, two
  per round).  Sizes are natural numbers in the serialisation code, where they
  are sums of constants below 2 ^ 32, and in compute\_sizes, where the caller
  chooses the length: the code rejects lengths above 10 ^ 7 first, and
  compute\_sizes\_bounds gives the resulting bounds, far below 2 ^ 32.

  \<^bold>\<open>Not modelled.\<close>  The contents of memory blocks after free, and OPENSSL\_cleanse
  beyond the assignment of zeros; concurrent accesses inside a round, which
  touch only memory of their thread, the read-only job and disjoint ranges of
  the file; the positions of stdio streams and the results of fclose, which the
  code does not look at; buffers and contexts that one call allocates and
  releases itself (H, prg.c, the circuits), which are not blocks of the heap:
  their allocation is an argument in mpc\_sha256\_verify and is taken to succeed
  elsewhere; handleErrors, which aborts the process, except where setupSHA256
  lacks memory for base\_ctx or for a thread's context (the error NoMemory);
  printing and logging; the tests, the benchmarks and the build scripts.  Distributions are
  counted, not computational: HM\_Hiding takes the results of RAND\_bytes as
  uniform and independent, and the messages of a batch as chosen before the
  matrix is published; MPC\_HM\_Privacy takes
  the sharing words and the tape of the hidden party as uniform, where the code
  expands the tape from a key by AES, leaves out the published hash of the
  hidden view, whose hiding is an assumption on SHA-256, and says nothing of
  several rounds together.
\<close>

end
